(* ===== verification/Swarm_Prelude.thy ===== *)
theory Swarm_Prelude
  imports Complex_Main "HOL-Library.Word" "HOL-Library.Finite_Map" "HOL-Library.Multiset"
begin

text \<open>
  Shared vocabulary of the development: machine integers, the standard library's hash maps
  and hash sets as finite maps and finite sets with an unspecified iteration order, results of
  Rust code that may also panic, and the sending half of an unbounded-wait channel as the
  module tasks see it.
\<close>

unbundle bit_operations_syntax

named_theorems hm_simps \<open>lookups and sizes of hash maps\<close>
named_theorems sink_simps \<open>what a module has sent\<close>

subsection \<open>Integers and identifiers\<close>

type_synonym u8 = "8 word"
type_synonym u64 = "64 word"

text \<open>\<open>libp2p::PeerId\<close> is an opaque identifier: the sources only compare and copy it.\<close>

type_synonym PeerId = nat

subsection \<open>Results\<close>

text \<open>
  Rust code returns a value, returns an error value, or panics (\<open>unwrap\<close>, \<open>expect\<close>,
  \<open>assert_eq!\<close>). \<open>Panic\<close> ends the task that runs the code.
\<close>

datatype ('e, 'a) outcome = Panic | Err 'e | Ok 'a

fun bind_outcome :: "('e, 'a) outcome \<Rightarrow> ('a \<Rightarrow> ('e, 'b) outcome) \<Rightarrow> ('e, 'b) outcome" where
  "bind_outcome Panic f = Panic"
| "bind_outcome (Err e) f = Err e"
| "bind_outcome (Ok a) f = f a"

subsection \<open>Hash maps\<close>

type_synonym ('k, 'v) HashMap = "('k, 'v) fmap"

text \<open>
  The iteration order of \<open>std::collections::HashMap\<close> is unspecified and may differ from call
  to call. Code that iterates takes the order as an argument: a function that lists each
  binding of the map once.
\<close>

type_synonym ('k, 'v) hash_order = "('k, 'v) fmap \<Rightarrow> ('k \<times> 'v) list"

definition enumerates :: "('k \<times> 'v) list \<Rightarrow> ('k, 'v) fmap \<Rightarrow> bool" where
  "enumerates xs m \<longleftrightarrow> distinct (map fst xs) \<and> fmap_of_list xs = m"

definition hash_ordered :: "('k, 'v) hash_order \<Rightarrow> bool" where
  "hash_ordered ord \<longleftrightarrow> (\<forall>m. enumerates (ord m) m)"

text \<open>\<open>len()\<close>, \<open>collect()\<close> from an iterator (a later binding of a key wins) and
  \<open>entry(k).or_default()\<close> of a map of maps.\<close>

definition hm_len :: "('k, 'v) fmap \<Rightarrow> nat" where
  "hm_len m = fcard (fmdom m)"

definition hm_collect :: "('k \<times> 'v) list \<Rightarrow> ('k, 'v) fmap" where
  "hm_collect xs = fold (\<lambda>(k, v) m. fmupd k v m) xs fmempty"

definition hm_or_default :: "('k, ('a, 'b) fmap) fmap \<Rightarrow> 'k \<Rightarrow> ('a, 'b) fmap" where
  "hm_or_default m k = (case fmlookup m k of None \<Rightarrow> fmempty | Some x \<Rightarrow> x)"

text \<open>Lookup and insertion through two levels (\<open>m.get(&a)?.get(&b)\<close> and
  \<open>m.entry(a).or_default().insert(b, v)\<close>).\<close>

definition hm_get2 :: "('k, ('a, 'b) fmap) fmap \<Rightarrow> 'k \<Rightarrow> 'a \<Rightarrow> 'b option" where
  "hm_get2 m k a = Option.bind (fmlookup m k) (\<lambda>x. fmlookup x a)"

definition hm_insert2 ::
  "'k \<Rightarrow> 'a \<Rightarrow> 'b \<Rightarrow> ('k, ('a, 'b) fmap) fmap \<Rightarrow> ('k, ('a, 'b) fmap) fmap" where
  "hm_insert2 k a b m = fmupd k (fmupd a b (hm_or_default m k)) m"

subsection \<open>Sending from a module task\<close>

text \<open>
  A module task sends with \<open>connection.output.send(e).await\<close>: the call waits while the
  channel is full and fails only when the receiving half is gone. The receiver may disappear
  at any moment, so a sink carries the number of further sends that succeed (\<open>None\<close>: it stays
  open) and the events sent so far, oldest first.
\<close>

record 'o sink =
  sent :: "'o list"
  closes_after :: "nat option"

definition sink_send :: "'o \<Rightarrow> 'o sink \<Rightarrow> bool \<times> 'o sink" where
  "sink_send x c =
     (case closes_after c of
        None \<Rightarrow> (True, c\<lparr>sent := sent c @ [x]\<rparr>)
      | Some 0 \<Rightarrow> (False, c)
      | Some (Suc n) \<Rightarrow> (True, c\<lparr>sent := sent c @ [x], closes_after := Some n\<rparr>))"

abbreviation open_sink :: "'o sink" where
  "open_sink \<equiv> \<lparr>sent = [], closes_after = None\<rparr>"

subsection \<open>Lemmas\<close>

locale hash_iteration =
  fixes ord :: "('k, 'v) hash_order"
  assumes ordered: "hash_ordered ord"
begin

lemma ord_distinct: "distinct (map fst (ord m))"
  using ordered by (simp add: hash_ordered_def enumerates_def)

lemma ord_of_list: "fmap_of_list (ord m) = m"
  using ordered by (simp add: hash_ordered_def enumerates_def)

lemma ord_lookup: "map_of (ord m) = fmlookup m"
  using ord_of_list [of m] by (metis fmap_of_list.rep_eq)

lemma ord_mem: "(k, v) \<in> set (ord m) \<longleftrightarrow> fmlookup m k = Some v"
  using ord_distinct [of m] by (simp add: ord_lookup [symmetric])

lemma ord_keys: "set (map fst (ord m)) = fmdom' m"
  by (metis dom_fmlookup dom_map_of_conv_image_fst list.set_map ord_lookup)

lemma ord_length: "length (ord m) = hm_len m"
proof -
  have "length (map fst (ord m)) = card (set (map fst (ord m)))"
    using distinct_card [OF ord_distinct] by simp
  then show ?thesis by (simp only: ord_keys fmdom'_alt_def hm_len_def fcard.rep_eq length_map)
qed

lemma ord_single:
  assumes "fmdom' m \<subseteq> {i}"
  shows "ord m = (case fmlookup m i of None \<Rightarrow> [] | Some s \<Rightarrow> [(i, s)])"
proof -
  have "set (map fst (ord m)) \<subseteq> {i}" using assms ord_keys by simp
  then have "map fst (ord m) = [] \<or> map fst (ord m) = [i]"
    using ord_distinct [of m] by (cases "map fst (ord m)"; cases "tl (map fst (ord m))") auto
  then have "ord m = [] \<or> (\<exists>s. ord m = [(i, s)])" by auto
  then show ?thesis
    using ord_lookup [of m] by (auto simp flip: ord_lookup)
qed

end

lemma enumerates_sorted: "enumerates (sorted_list_of_fmap m) m"
proof -
  have "distinct (map fst (sorted_list_of_fmap m))"
    by (simp add: sorted_list_of_fmap_def comp_def sorted_list_of_fset.rep_eq)
  moreover have "fmap_of_list (sorted_list_of_fmap m) = m"
    by (rule fmap_ext) (simp add: fmlookup_of_list)
  ultimately show ?thesis by (simp add: enumerates_def)
qed

lemma sorted_hash_ordered: "hash_ordered sorted_list_of_fmap"
  by (simp add: hash_ordered_def enumerates_sorted)

interpretation sorted_order: hash_iteration "sorted_list_of_fmap :: ('k::linorder, 'v) fmap \<Rightarrow> _"
  by unfold_locales (rule sorted_hash_ordered)

lemma unat_of_nat_u64: "n < 2 ^ 64 \<Longrightarrow> unat (of_nat n :: u64) = n"
  by (simp add: unat_of_nat take_bit_nat_eq_self)

lemma hm_len_empty [simp, hm_simps]: "hm_len fmempty = 0"
  by (simp add: hm_len_def)

lemma hm_len_upd [hm_simps]:
  "hm_len (fmupd k v m) = (case fmlookup m k of None \<Rightarrow> Suc (hm_len m) | Some _ \<Rightarrow> hm_len m)"
  by (auto simp: hm_len_def fcard_finsert_if fmlookup_dom_iff split: option.splits)

lemma hm_len_drop [hm_simps]:
  "hm_len (fmdrop k m) = (case fmlookup m k of None \<Rightarrow> hm_len m | Some _ \<Rightarrow> hm_len m - 1)"
proof (cases "fmlookup m k")
  case None
  then have "fmdom m |-| {|k|} = fmdom m"
    by (auto simp: fmlookup_dom_iff)
  then show ?thesis using None by (simp add: hm_len_def)
next
  case (Some v)
  then have "k \<in> fset (fmdom m)" by (simp add: fmlookup_dom_iff)
  then show ?thesis using Some by (simp add: hm_len_def fcard.rep_eq)
qed

lemma hm_len_bound:
  assumes "fmdom' m \<subseteq> S" and "finite S"
  shows "hm_len m \<le> card S"
  using assms by (simp add: hm_len_def fcard.rep_eq fmdom'_alt_def card_mono)

lemma fold_fmupd_lookup:
  "fmlookup (fold (\<lambda>(k, v) m. fmupd k v m) xs m) = fmlookup m ++ map_of (rev xs)"
proof (induction xs arbitrary: m)
  case Nil
  show ?case by simp
next
  case (Cons x xs)
  obtain k v where x: "x = (k, v)" by force
  have "fmlookup (fold (\<lambda>(k, v) m. fmupd k v m) xs (fmupd k v m))
      = (fmlookup m)(k \<mapsto> v) ++ map_of (rev xs)"
    by (simp add: Cons.IH fmupd.rep_eq map_upd_def fun_upd_def)
  then show ?case by (simp add: x map_add_upd_left fun_eq_iff map_add_def split: option.splits)
qed

lemma hm_collect_lookup [hm_simps]: "fmlookup (hm_collect xs) = map_of (rev xs)"
  by (rule ext) (simp add: hm_collect_def fold_fmupd_lookup fmempty.rep_eq)

lemma map_of_eqI_rev: "distinct (map fst xs) \<Longrightarrow> map_of (rev xs) = map_of xs"
proof (induction xs)
  case Nil
  show ?case by simp
next
  case (Cons x xs)
  then have "map_of xs (fst x) = None"
    by (metis distinct.simps(2) list.map(2) list.set_map map_of_eq_None_iff)
  with Cons show ?case
    by (auto simp: fun_eq_iff map_add_def split: option.splits)
qed

lemma hm_collect_distinct:
  "distinct (map fst xs) \<Longrightarrow> fmlookup (hm_collect xs) = map_of xs"
  by (simp add: hm_collect_lookup map_of_eqI_rev)

lemma hm_collect_dom: "fmdom' (hm_collect xs) = fst ` set xs"
proof -
  have "fmdom' (hm_collect xs) = dom (map_of (rev xs))"
    by (simp only: dom_fmlookup [symmetric] hm_collect_lookup)
  then show ?thesis by (simp add: dom_map_of_conv_image_fst)
qed

lemma hm_get2_insert2 [hm_simps]:
  "hm_get2 (hm_insert2 k a b m) k' a' =
     (if k' = k \<and> a' = a then Some b else hm_get2 m k' a')"
  by (auto simp: hm_get2_def hm_insert2_def hm_or_default_def split: option.splits)

lemma hm_get2_empty [simp]: "hm_get2 fmempty k a = None"
  by (simp add: hm_get2_def)

lemma hm_insert2_lookup [hm_simps]:
  "fmlookup (hm_insert2 k a b m) k' =
     (if k' = k then Some (fmupd a b (hm_or_default m k)) else fmlookup m k')"
  by (simp add: hm_insert2_def)

lemma sink_send_open [sink_simps]:
  "closes_after c = None \<Longrightarrow> sink_send x c = (True, c\<lparr>sent := sent c @ [x]\<rparr>)"
  by (simp add: sink_send_def)

lemma sink_send_sent:
  "sink_send x c = (ok, c') \<Longrightarrow> sent c' = sent c @ (if ok then [x] else [])"
  by (auto simp: sink_send_def split: option.splits nat.splits)

lemma sink_send_stays_open:
  "closes_after c = None \<Longrightarrow> sink_send x c = (ok, c') \<Longrightarrow> ok \<and> closes_after c' = None"
  by (auto simp: sink_send_def)

end
