(* ===== verification/Swarm_Types.thy ===== *)
theory Swarm_Types
  imports Swarm_Prelude
begin

text \<open>
  The data types of \<open>types.rs\<close>: identifiers of data units and shards, shards and data units as
  byte arrays whose length is fixed by the build's features, and the 64-byte hash with its two
  implementations of exclusive or.
\<close>

subsection \<open>Identifiers\<close>

datatype Vid = Vid (vid_raw: u64)

datatype Sid = Sid (sid_raw: u64)

instantiation Vid :: linorder
begin

definition less_eq_Vid :: "Vid \<Rightarrow> Vid \<Rightarrow> bool" where
  "less_eq_Vid a b \<longleftrightarrow> vid_raw a \<le> vid_raw b"

definition less_Vid :: "Vid \<Rightarrow> Vid \<Rightarrow> bool" where
  "less_Vid a b \<longleftrightarrow> vid_raw a < vid_raw b"

instance
  by standard (auto simp: less_eq_Vid_def less_Vid_def Vid.expand)

end

instantiation Sid :: linorder
begin

definition less_eq_Sid :: "Sid \<Rightarrow> Sid \<Rightarrow> bool" where
  "less_eq_Sid a b \<longleftrightarrow> sid_raw a \<le> sid_raw b"

definition less_Sid :: "Sid \<Rightarrow> Sid \<Rightarrow> bool" where
  "less_Sid a b \<longleftrightarrow> sid_raw a < sid_raw b"

instance
  by standard (auto simp: less_eq_Sid_def less_Sid_def Sid.expand)

end

subsection \<open>Build features and sizes\<close>

text \<open>
  The features \<open>medium-array\<close> and \<open>big-array\<close> exclude each other (\<open>compile_error!\<close>), so a
  build is one of three.
\<close>

datatype array_feature = Default_Array | Medium_Array | Big_Array

fun SHARD_BYTES_NUMBER :: "array_feature \<Rightarrow> u64" where
  "SHARD_BYTES_NUMBER Big_Array = 2 ^ 14"
| "SHARD_BYTES_NUMBER Medium_Array = 64"
| "SHARD_BYTES_NUMBER Default_Array = 4"

definition DATA_SHARDS_COUNT :: u64 where
  "DATA_SHARDS_COUNT = 2"

subsection \<open>Shards and data\<close>

text \<open>
  \<open>Shard\<close> wraps \<open>[u8; SHARD_BYTES_NUMBER]\<close> and \<open>Data\<close> wraps
  \<open>[u8; SHARD_BYTES_NUMBER * DATA_SHARDS_COUNT]\<close>. The array length is part of the Rust type;
  here it is the predicate \<open>wf_shard\<close>/\<open>wf_data\<close>, and conversions from slices check it.
\<close>

datatype Shard = Shard (as_inner_shard: "u8 list")

datatype Data = Data (as_inner_data: "u8 list")

definition shard_len :: "array_feature \<Rightarrow> nat" where
  "shard_len ft = unat (SHARD_BYTES_NUMBER ft)"

definition data_len :: "array_feature \<Rightarrow> nat" where
  "data_len ft = unat (SHARD_BYTES_NUMBER ft * DATA_SHARDS_COUNT)"

definition wf_shard :: "array_feature \<Rightarrow> Shard \<Rightarrow> bool" where
  "wf_shard ft s \<longleftrightarrow> length (as_inner_shard s) = shard_len ft"

definition wf_data :: "array_feature \<Rightarrow> Data \<Rightarrow> bool" where
  "wf_data ft d \<longleftrightarrow> length (as_inner_data d) = data_len ft"

text \<open>\<open>slice.try_into()\<close> to a fixed-size array: succeeds exactly on the right length.\<close>

definition shard_try_from :: "array_feature \<Rightarrow> u8 list \<Rightarrow> Shard option" where
  "shard_try_from ft bs = (if length bs = shard_len ft then Some (Shard bs) else None)"

definition data_try_from :: "array_feature \<Rightarrow> u8 list \<Rightarrow> Data option" where
  "data_try_from ft bs = (if length bs = data_len ft then Some (Data bs) else None)"

subsection \<open>Hashes\<close>

datatype Hash = Hash (into_array: "u8 list")

definition hash_from_array :: "u8 list \<Rightarrow> Hash" where
  "hash_from_array inner = Hash inner"

definition wf_hash :: "Hash \<Rightarrow> bool" where
  "wf_hash h \<longleftrightarrow> length (into_array h) = 64"

text \<open>\<open>impl BitXor for &Hash\<close>: a zero array filled position by position.\<close>

definition hash_bitxor_ref :: "Hash \<Rightarrow> Hash \<Rightarrow> Hash" where
  "hash_bitxor_ref self rhs =
     hash_from_array
       (fold (\<lambda>(i, (b1, b2)) result. result[i := b1 XOR b2])
          (enumerate 0 (zip (into_array self) (into_array rhs)))
          (replicate 64 0))"

text \<open>\<open>impl BitXor<&Hash> for Hash\<close>: the owned left operand is updated in place. Both arrays
  have 64 bytes, so indexing the right operand is in range.\<close>

definition hash_bitxor_mut :: "Hash \<Rightarrow> Hash \<Rightarrow> Hash" where
  "hash_bitxor_mut self rhs =
     Hash (fold (\<lambda>i inner. inner[i := inner ! i XOR into_array rhs ! i])
             [0..<length (into_array self)] (into_array self))"

text \<open>The hash of a graph event is a type of the consensus library with the same 64 bytes;
  the conversions copy the array.\<close>

datatype EventHash = EventHash (event_hash_array: "u8 list")

definition hash_from_event :: "EventHash \<Rightarrow> Hash" where
  "hash_from_event v = hash_from_array (event_hash_array v)"

definition event_from_hash :: "Hash \<Rightarrow> EventHash" where
  "event_from_hash v = EventHash (into_array v)"

subsection \<open>Lemmas\<close>

lemma shard_len_values [simp]:
  "shard_len Default_Array = 4" "shard_len Medium_Array = 64" "shard_len Big_Array = 16384"
  by (simp_all add: shard_len_def)

lemma data_shards_count_nat [simp]: "unat DATA_SHARDS_COUNT = 2"
  by (simp add: DATA_SHARDS_COUNT_def)

text \<open>The product of the two constants does not wrap for any build.\<close>

lemma data_len_eq: "data_len ft = 2 * shard_len ft"
  by (cases ft) (simp_all add: data_len_def shard_len_def DATA_SHARDS_COUNT_def)

lemma shard_len_pos [simp]: "0 < shard_len ft"
  by (cases ft) simp_all

lemma shard_try_from_Some: "shard_try_from ft bs = Some s \<longleftrightarrow> s = Shard bs \<and> wf_shard ft s"
  by (auto simp: shard_try_from_def wf_shard_def)

lemma data_try_from_Some: "data_try_from ft bs = Some d \<longleftrightarrow> d = Data bs \<and> wf_data ft d"
  by (auto simp: data_try_from_def wf_data_def)

lemma fold_update_enumerate:
  "length acc \<ge> n + length xs \<Longrightarrow>
   fold (\<lambda>(i, x) acc. acc[i := f x]) (enumerate n xs) acc
     = take n acc @ map f xs @ drop (n + length xs) acc"
proof (induction xs arbitrary: n acc)
  case Nil
  then show ?case by simp
next
  case (Cons x xs)
  let ?acc = "acc[n := f x]"
  have "take (Suc n) ?acc = take n acc @ [f x]"
    using Cons.prems by (simp add: take_Suc_conv_app_nth)
  then show ?case
    using Cons.prems Cons.IH [of "Suc n" ?acc] by (simp add: drop_update_cancel)
qed

lemma fold_update_upt:
  assumes "n \<le> length a"
  shows "fold (\<lambda>i acc. acc[i := f (acc ! i) i]) [0..<n] a
     = map (\<lambda>i. f (a ! i) i) [0..<n] @ drop n a"
  using assms
proof (induction n)
  case 0
  then show ?case by simp
next
  case (Suc n)
  then have IH: "fold (\<lambda>i acc. acc[i := f (acc ! i) i]) [0..<n] a
      = map (\<lambda>i. f (a ! i) i) [0..<n] @ drop n a" and n: "n < length a"
    by simp_all
  have "drop n a = a ! n # drop (Suc n) a"
    using n by (simp add: Cons_nth_drop_Suc)
  then show ?case
    by (simp add: IH nth_append list_update_append)
qed

lemma hash_bitxor_ref_eq:
  assumes "wf_hash a" and "wf_hash b"
  shows "hash_bitxor_ref a b = Hash (map2 (XOR) (into_array a) (into_array b))"
proof -
  have "fold (\<lambda>(i, (b1, b2)) result. result[i := b1 XOR b2])
          (enumerate 0 (zip (into_array a) (into_array b))) (replicate 64 0)
      = map (\<lambda>(b1, b2). b1 XOR b2) (zip (into_array a) (into_array b))"
    using fold_update_enumerate [of 0 "zip (into_array a) (into_array b)" "replicate 64 0"
        "\<lambda>(b1, b2). b1 XOR b2"] assms
    by (simp add: wf_hash_def case_prod_beta')
  then show ?thesis by (simp add: hash_bitxor_ref_def hash_from_array_def)
qed

lemma hash_bitxor_mut_eq:
  assumes "length (into_array a) = length (into_array b)"
  shows "hash_bitxor_mut a b = Hash (map2 (XOR) (into_array a) (into_array b))"
proof -
  have "map2 (XOR) (into_array a) (into_array b)
      = map (\<lambda>i. into_array a ! i XOR into_array b ! i) [0..<length (into_array a)]"
    using assms by (intro nth_equalityI) auto
  then show ?thesis
    using fold_update_upt [of "length (into_array a)" "into_array a"
        "\<lambda>x i. x XOR into_array b ! i"]
    by (simp add: hash_bitxor_mut_def)
qed

lemma map2_xor_self: "length xs = length ys \<Longrightarrow> map2 (XOR) (map2 (XOR) xs ys) ys = (xs :: u8 list)"
  by (induction xs ys rule: list_induct2) (simp_all add: xor.assoc)

subsection \<open>Properties\<close>

text \<open>The two implementations of exclusive or on hashes, the one that fills a fresh array and
  the one that updates its operand in place, agree on 64-byte hashes, yield 64-byte hashes, and
  applying the same mask twice restores the hash.\<close>

lemma hash_bitxor_agree:
  assumes "wf_hash a" and "wf_hash b"
  shows "hash_bitxor_ref a b = hash_bitxor_mut a b \<and> wf_hash (hash_bitxor_ref a b)
    \<and> hash_bitxor_ref (hash_bitxor_mut a b) b = a"
proof -
  have len: "length (into_array a) = length (into_array b)" using assms by (simp add: wf_hash_def)
  note eq = hash_bitxor_ref_eq [OF assms] hash_bitxor_mut_eq [OF len]
  have wf: "wf_hash (hash_bitxor_ref a b)" using assms eq by (simp add: wf_hash_def)
  then have "hash_bitxor_ref (hash_bitxor_ref a b) b = a"
    using hash_bitxor_ref_eq [OF wf assms(2)] eq map2_xor_self [OF len] by (cases a) simp
  with wf eq show ?thesis by simp
qed

end
