(* ===== verification/Swarm_Program.thy ===== *)
theory Swarm_Program
  imports Swarm_Types
begin

text \<open>
  Instructions and programs: \<open>processor/instruction.rs\<close> and \<open>processor/mod.rs\<close>.
\<close>

subsection \<open>\<open>processor/instruction.rs\<close>\<close>

datatype 'o BinaryOp = BinaryOp (first: 'o) (second: 'o)

datatype 'o UnaryOp = UnaryOp (operand: 'o)

datatype 'o Operation =
    Sub "'o BinaryOp"
  | Plus "'o BinaryOp"
  | Inv "'o UnaryOp"
  | Nand "'o BinaryOp"
  | Nor "'o BinaryOp"

record ('o, 'r) Instruction =
  operation :: "'o Operation"
  result :: 'r

text \<open>The constructors made by \<open>impl_binary_constructor!\<close> and \<open>impl_unary!\<close>.\<close>

definition instr_sub :: "'o \<Rightarrow> 'o \<Rightarrow> 'r \<Rightarrow> ('o, 'r) Instruction" where
  "instr_sub a b r = \<lparr>operation = Sub (BinaryOp a b), result = r\<rparr>"

definition instr_plus :: "'o \<Rightarrow> 'o \<Rightarrow> 'r \<Rightarrow> ('o, 'r) Instruction" where
  "instr_plus a b r = \<lparr>operation = Plus (BinaryOp a b), result = r\<rparr>"

definition instr_inv :: "'o \<Rightarrow> 'r \<Rightarrow> ('o, 'r) Instruction" where
  "instr_inv a r = \<lparr>operation = Inv (UnaryOp a), result = r\<rparr>"

definition instr_nand :: "'o \<Rightarrow> 'o \<Rightarrow> 'r \<Rightarrow> ('o, 'r) Instruction" where
  "instr_nand a b r = \<lparr>operation = Nand (BinaryOp a b), result = r\<rparr>"

definition instr_nor :: "'o \<Rightarrow> 'o \<Rightarrow> 'r \<Rightarrow> ('o, 'r) Instruction" where
  "instr_nor a b r = \<lparr>operation = Nor (BinaryOp a b), result = r\<rparr>"

definition map_operands :: "('o \<Rightarrow> 'n) \<Rightarrow> ('o, 'r) Instruction \<Rightarrow> ('n, 'r) Instruction" where
  "map_operands f ins =
     \<lparr>operation =
        (case operation ins of
           Sub binary \<Rightarrow> Sub (BinaryOp (f (first binary)) (f (second binary)))
         | Plus binary \<Rightarrow> Plus (BinaryOp (f (first binary)) (f (second binary)))
         | Inv unary \<Rightarrow> Inv (UnaryOp (f (operand unary)))
         | Nand binary \<Rightarrow> Nand (BinaryOp (f (first binary)) (f (second binary)))
         | Nor binary \<Rightarrow> Nor (BinaryOp (f (first binary)) (f (second binary)))),
      result = result ins\<rparr>"

fun transpose_binary :: "'o option BinaryOp \<Rightarrow> 'o BinaryOp option" where
  "transpose_binary (BinaryOp (Some a) (Some b)) = Some (BinaryOp a b)"
| "transpose_binary _ = None"

fun transpose_unary :: "'o option UnaryOp \<Rightarrow> 'o UnaryOp option" where
  "transpose_unary (UnaryOp a) = map_option UnaryOp a"

definition transpose_operation :: "('o option, 'r) Instruction \<Rightarrow> ('o, 'r) Instruction option" where
  "transpose_operation ins =
     (case operation ins of
        Sub b \<Rightarrow> map_option (\<lambda>b. \<lparr>operation = Sub b, result = result ins\<rparr>) (transpose_binary b)
      | Plus b \<Rightarrow> map_option (\<lambda>b. \<lparr>operation = Plus b, result = result ins\<rparr>) (transpose_binary b)
      | Inv u \<Rightarrow> map_option (\<lambda>u. \<lparr>operation = Inv u, result = result ins\<rparr>) (transpose_unary u)
      | Nand b \<Rightarrow> map_option (\<lambda>b. \<lparr>operation = Nand b, result = result ins\<rparr>) (transpose_binary b)
      | Nor b \<Rightarrow> map_option (\<lambda>b. \<lparr>operation = Nor b, result = result ins\<rparr>) (transpose_binary b))"

fun args_as_list :: "'o Operation \<Rightarrow> 'o list" where
  "args_as_list (Sub (BinaryOp a b)) = [a, b]"
| "args_as_list (Plus (BinaryOp a b)) = [a, b]"
| "args_as_list (Nand (BinaryOp a b)) = [a, b]"
| "args_as_list (Nor (BinaryOp a b)) = [a, b]"
| "args_as_list (Inv (UnaryOp a)) = [a]"

subsection \<open>\<open>processor/mod.rs\<close>\<close>

type_synonym Instructions = "(Vid, Vid) Instruction list"

record ProgramIdentifier =
  hash :: Hash
  event_hash :: Hash

record Program =
  instructions :: Instructions
  program_identifier :: ProgramIdentifier

text \<open>\<open>bincode::serialize\<close> of an instruction list and \<open>Blake2b512\<close> are library code; bincode
  errors are opaque.\<close>

record hash_library =
  bincode_instructions :: "Instructions \<Rightarrow> string + u8 list"
  blake2b512 :: "u8 list \<Rightarrow> u8 list"

definition instructions_digest :: "hash_library \<Rightarrow> Instructions \<Rightarrow> string + u8 list" where
  "instructions_digest lib list = bincode_instructions lib list"

definition calculate_hash :: "hash_library \<Rightarrow> Instructions \<Rightarrow> (string, Hash) outcome" where
  "calculate_hash lib value =
     (case instructions_digest lib value of
        Inl e \<Rightarrow> Err e
      | Inr bytes \<Rightarrow>
          (let d = blake2b512 lib bytes in
           if length d = 64 then Ok (hash_from_array d) else Panic))"

definition Program_new ::
  "hash_library \<Rightarrow> Instructions \<Rightarrow> Hash \<Rightarrow> (string, Program) outcome" where
  "Program_new lib ins ev_hash =
     bind_outcome (calculate_hash lib ins)
       (\<lambda>h. Ok \<lparr>instructions = ins, program_identifier = \<lparr>hash = h, event_hash = ev_hash\<rparr>\<rparr>)"

definition program_into_parts :: "Program \<Rightarrow> Instructions \<times> ProgramIdentifier" where
  "program_into_parts p = (instructions p, program_identifier p)"

definition program_into_iter :: "Program \<Rightarrow> (Vid, Vid) Instruction list" where
  "program_into_iter p = instructions p"

subsection \<open>Lemmas\<close>

lemma transpose_binary_Some:
  "transpose_binary b = Some c \<longleftrightarrow> b = BinaryOp (Some (first c)) (Some (second c))"
  by (cases b rule: transpose_binary.cases) (auto simp: BinaryOp.expand)

lemma transpose_unary_Some: "transpose_unary u = Some c \<longleftrightarrow> u = UnaryOp (Some (operand c))"
  by (cases u; cases c) auto

lemma transpose_operation_Some:
  "transpose_operation ins = Some ins' \<longleftrightarrow> ins = map_operands Some ins'"
proof (cases ins; cases ins')
  fix op res op' res'
  assume "ins = \<lparr>operation = op, result = res\<rparr>" "ins' = \<lparr>operation = op', result = res'\<rparr>"
  then show ?thesis
    by (cases op; cases op')
      (auto simp: transpose_operation_def map_operands_def transpose_binary_Some
        transpose_unary_Some BinaryOp.expand UnaryOp.expand)
qed

lemma map_operands_comp: "map_operands f (map_operands g ins) = map_operands (f \<circ> g) ins"
  by (cases "operation ins") (simp_all add: map_operands_def)

lemma args_map_operands: "args_as_list (operation (map_operands f ins)) = map f (args_as_list (operation ins))"
  by (cases "operation ins" rule: args_as_list.cases) (simp_all add: map_operands_def)

lemma Program_new_identifier:
  "Program_new lib ins h = Ok p \<Longrightarrow>
     instructions p = ins \<and> event_hash (program_identifier p) = h
     \<and> calculate_hash lib ins = Ok (hash (program_identifier p))"
  by (cases "calculate_hash lib ins") (auto simp: Program_new_def)

subsection \<open>Properties\<close>

text \<open>Collecting the optional operands of an instruction succeeds exactly when every operand is
  present, and then yields the same operation and result on the bare operands.\<close>

lemma transpose_operation_correct:
  "(transpose_operation ins = Some ins' \<longleftrightarrow> ins = map_operands Some ins')
   \<and> (transpose_operation ins = None \<longleftrightarrow> None \<in> set (args_as_list (operation ins)))"
proof -
  have "transpose_operation ins = None \<longleftrightarrow> None \<in> set (args_as_list (operation ins))"
  proof (cases "operation ins" rule: args_as_list.cases)
    case (5 a)
    then show ?thesis by (cases a) (simp_all add: transpose_operation_def)
  qed (auto simp: transpose_operation_def elim: transpose_binary.elims)
  then show ?thesis by (simp add: transpose_operation_Some)
qed

end
