(* ===== verification/Swarm_Module.thy ===== *)
theory Swarm_Module
  imports Swarm_Types
begin

text \<open>
  The module plumbing of \<open>module.rs\<close>: bounded channels as the polling side of a module sees
  them, the pair of channel ends that \<open>ModuleChannelServer::new\<close> creates, and the shared state
  with which a busy module refuses input.
\<close>

subsection \<open>Polls and bounded channels (\<open>tokio::sync::mpsc\<close>)\<close>

datatype 'a Poll = Pending | Ready 'a

record 'a chan =
  queue :: "'a list"
  max_capacity :: nat
  rx_alive :: bool
  tx_alive :: bool

definition mpsc_channel :: "nat \<Rightarrow> 'a chan" where
  "mpsc_channel buffer = \<lparr>queue = [], max_capacity = buffer, rx_alive = True, tx_alive = True\<rparr>"

text \<open>One poll of a fresh \<open>send\<close> future that is dropped afterwards: a pending send loses its
  message.\<close>

definition poll_send :: "'a \<Rightarrow> 'a chan \<Rightarrow> bool Poll \<times> 'a chan" where
  "poll_send x ch =
     (if \<not> rx_alive ch then (Ready False, ch)
      else if length (queue ch) < max_capacity ch
      then (Ready True, ch\<lparr>queue := queue ch @ [x]\<rparr>)
      else (Pending, ch))"

definition poll_recv :: "'a chan \<Rightarrow> 'a option Poll \<times> 'a chan" where
  "poll_recv ch =
     (case queue ch of
        x # xs \<Rightarrow> (Ready (Some x), ch\<lparr>queue := xs\<rparr>)
      | [] \<Rightarrow> (if tx_alive ch then Pending else Ready None, ch))"

definition chan_capacity :: "'a chan \<Rightarrow> nat" where
  "chan_capacity ch = max_capacity ch - length (queue ch)"

subsection \<open>\<open>ModuleChannelServer\<close> and \<open>ModuleChannelClient\<close>\<close>

text \<open>
  Server and client share the two channels and the state cell; \<open>module_channels\<close> is that shared
  object. \<open>shutdown_cancelled\<close> is whether the cancellation token has been cancelled.
\<close>

record ('i, 'o, 's) module_channels =
  input_chan :: "'i chan"
  output_chan :: "'o chan"
  shared_state :: "'s option"
  shutdown_cancelled :: bool

definition module_channels_new :: "'s option \<Rightarrow> nat \<Rightarrow> ('i, 'o, 's) module_channels" where
  "module_channels_new initial_state buffer =
     \<lparr>input_chan = mpsc_channel buffer, output_chan = mpsc_channel buffer,
      shared_state = initial_state, shutdown_cancelled = False\<rparr>"

text \<open>\<open>set_state\<close>: nothing without a state cell, nothing when the lock stays taken for 100 ms
  (\<open>timed_out\<close>).\<close>

definition set_state :: "bool \<Rightarrow> 's \<Rightarrow> 's option \<Rightarrow> 's option" where
  "set_state timed_out value st =
     (case st of None \<Rightarrow> None | Some old \<Rightarrow> if timed_out then Some old else Some value)"

text \<open>\<open>accepts_input\<close> of the client: always without a state cell, never while the lock is
  taken, otherwise what the module's state says.\<close>

definition client_accepts_input :: "('s \<Rightarrow> bool) \<Rightarrow> bool \<Rightarrow> 's option \<Rightarrow> bool" where
  "client_accepts_input accepts locked st =
     (case st of None \<Rightarrow> True | Some s \<Rightarrow> if locked then False else accepts s)"

definition unit_accepts_input :: "unit \<Rightarrow> bool" where
  "unit_accepts_input u = True"

subsection \<open>The channel contract\<close>

text \<open>
  What clients of a bounded channel rely on: a send that is accepted is at the end of the
  queue, a receive takes the oldest message, and the bound is kept.
\<close>

definition chan_ok :: "'a chan \<Rightarrow> bool" where
  "chan_ok ch \<longleftrightarrow> length (queue ch) \<le> max_capacity ch"

locale fifo_channel =
  fixes send :: "'a \<Rightarrow> 'c \<Rightarrow> bool Poll \<times> 'c"
    and recv :: "'c \<Rightarrow> 'a option Poll \<times> 'c"
    and contents :: "'c \<Rightarrow> 'a list"
    and ok :: "'c \<Rightarrow> bool"
  assumes send_accepted: "send x c = (Ready True, c') \<Longrightarrow> contents c' = contents c @ [x]"
    and send_refused: "send x c = (r, c') \<Longrightarrow> r \<noteq> Ready True \<Longrightarrow> c' = c"
    and send_ok: "ok c \<Longrightarrow> send x c = (r, c') \<Longrightarrow> ok c'"
    and recv_some: "recv c = (Ready (Some x), c') \<Longrightarrow> contents c = x # contents c'"
    and recv_none: "recv c = (q, c') \<Longrightarrow> \<forall>x. q \<noteq> Ready (Some x) \<Longrightarrow> contents c = [] \<and> c' = c"
    and recv_ok: "ok c \<Longrightarrow> recv c = (q, c') \<Longrightarrow> ok c'"
begin

text \<open>Receiving until nothing is left yields the queue in the order of the sends.\<close>

fun drain :: "nat \<Rightarrow> 'c \<Rightarrow> 'a list \<times> 'c" where
  "drain 0 c = ([], c)"
| "drain (Suc n) c =
     (case recv c of
        (Ready (Some x), c') \<Rightarrow> (let (xs, c'') = drain n c' in (x # xs, c''))
      | (_, c') \<Rightarrow> ([], c'))"

lemma drain_contents: "length (contents c) \<le> n \<Longrightarrow> fst (drain n c) = contents c"
proof (induction n arbitrary: c)
  case 0
  then show ?case by simp
next
  case (Suc n)
  obtain r c' where r: "recv c = (r, c')" by force
  show ?case
  proof (cases "\<exists>x. r = Ready (Some x)")
    case True
    then obtain x where x: "r = Ready (Some x)" by blast
    with r have c: "contents c = x # contents c'" using recv_some by blast
    with Suc.prems have "fst (drain n c') = contents c'" by (intro Suc.IH) simp
    with r x c show ?thesis by (simp add: Let_def case_prod_beta)
  next
    case False
    with r have "contents c = []" using recv_none by blast
    with r False show ?thesis by (auto split: Poll.splits option.splits)
  qed
qed

end

interpretation mpsc: fifo_channel poll_send poll_recv queue chan_ok
  by unfold_locales
    (auto simp: poll_send_def poll_recv_def chan_ok_def split: if_splits list.splits)

end
