(* ===== verification/Swarm_Encoding.thy ===== *)
theory Swarm_Encoding
  imports Swarm_Types
begin

text \<open>
  The encodings of \<open>encoding/\<close>: the trait \<open>DataEncoding\<close> as the locale \<open>data_encoding\<close>, the
  Reed-Solomon wrapper over the crate \<open>reed_solomon_erasure\<close> (a parameter of the model), and
  the mock encoding. The wrapper's own work is the cutting of data into shards, the parity
  placeholders, the numbering of shards and the filling of the reconstruction vector; the
  theorems show that with a lawful crate any sufficient part of the encoded shards decodes to
  the original data.
\<close>

subsection \<open>The crate \<open>reed_solomon_erasure\<close>\<close>

text \<open>
  Only called, never defined here. \<open>rs_new\<close> is \<open>ReedSolomon::new(data, parity)\<close>,
  \<open>rs_encode\<close> fills the parity rows of a full set of rows, \<open>rs_reconstruct\<close> fills the missing
  rows, \<open>galois_add\<close> is \<open>galois_8::add\<close>. Errors of the crate are opaque.
\<close>

type_synonym rs_error = string

record rs_library =
  rs_new :: "nat \<Rightarrow> nat \<Rightarrow> rs_error + unit"
  rs_encode :: "nat \<Rightarrow> nat \<Rightarrow> u8 list list \<Rightarrow> rs_error + u8 list list"
  rs_reconstruct :: "nat \<Rightarrow> nat \<Rightarrow> u8 list option list \<Rightarrow> rs_error + u8 list option list"
  galois_add :: "u8 \<Rightarrow> u8 \<Rightarrow> u8"

subsection \<open>\<open>encoding/mod.rs\<close>\<close>

record MockEncodingSettings =
  mock_data_shards_total :: u64
  mock_data_shards_sufficient :: u64
  locally_assigned_id :: Sid
  self_id :: PeerId

subsection \<open>\<open>encoding/reed_solomon.rs\<close>\<close>

record Settings =
  data_shards_total :: u64
  data_shards_sufficient :: u64

text \<open>The wrapper holds the crate's object, which is its two shard counts and the crate's
  operations on them.\<close>

record ReedSolomonWrapper =
  inner :: rs_library
  data_shard_count :: nat
  parity_shard_count :: nat

definition total_shard_count :: "ReedSolomonWrapper \<Rightarrow> nat" where
  "total_shard_count w = data_shard_count w + parity_shard_count w"

datatype RsError = ReedSolomon rs_error | WrongShardId

text \<open>
  \<open>total_shards - data_shards\<close> panics on underflow when overflow checks are on (debug builds,
  \<open>oc\<close>) and wraps otherwise. \<open>usize\<close> has 64 bits, so the conversions succeed.
\<close>

definition rs_wrapper_new ::
  "bool \<Rightarrow> rs_library \<Rightarrow> Settings \<Rightarrow> (RsError, ReedSolomonWrapper) outcome" where
  "rs_wrapper_new oc lib s =
     (let data_shards = data_shards_sufficient s; total_shards = data_shards_total s in
      if oc \<and> total_shards < data_shards then Panic
      else (case rs_new lib (unat data_shards) (unat (total_shards - data_shards)) of
              Inl _ \<Rightarrow> Panic
            | Inr _ \<Rightarrow> Ok \<lparr>inner = lib, data_shard_count = unat data_shards,
                        parity_shard_count = unat (total_shards - data_shards)\<rparr>))"

text \<open>\<open>slice::chunks\<close>: pieces of \<open>n\<close> elements, the last one possibly shorter;
  \<open>slice::chunks_exact\<close> drops a shorter remainder.\<close>

function chunks :: "nat \<Rightarrow> 'a list \<Rightarrow> 'a list list" where
  "chunks n xs = (if n = 0 \<or> xs = [] then [] else take n xs # chunks n (drop n xs))"
  by pat_completeness auto
termination
  by (relation "measure (\<lambda>(n, xs). length xs)") auto

declare chunks.simps [simp del]

definition chunks_exact :: "nat \<Rightarrow> 'a list \<Rightarrow> 'a list list" where
  "chunks_exact n xs = filter (\<lambda>c. length c = n) (chunks n xs)"

text \<open>\<open>enumerate().map(|(i, shard)| (Sid(i), shard))\<close>.\<close>

definition number_shards :: "Shard list \<Rightarrow> (Sid \<times> Shard) list" where
  "number_shards shards = map (\<lambda>(i, shard). (Sid (of_nat i), shard)) (enumerate 0 shards)"

definition rs_wrapper_encode ::
  "array_feature \<Rightarrow> ReedSolomonWrapper \<Rightarrow> Data \<Rightarrow> (RsError, (Sid, Shard) HashMap) outcome" where
  "rs_wrapper_encode ft w data =
     (case those (map (shard_try_from ft) (chunks (shard_len ft) (as_inner_data data))) of
        None \<Rightarrow> Panic
      | Some shards \<Rightarrow>
          if of_nat (length shards) \<noteq> DATA_SHARDS_COUNT then Panic
          else
            let parity_shard = Shard (replicate (shard_len ft) 0);
                shards = shards @ replicate (parity_shard_count w) parity_shard
            in (case rs_encode (inner w) (data_shard_count w) (parity_shard_count w)
                       (map as_inner_shard shards) of
                  Inl e \<Rightarrow> Err (ReedSolomon e)
                | Inr out \<Rightarrow> Ok (hm_collect (number_shards (map Shard out)))))"

text \<open>The loop of \<open>decode\<close>: \<open>None\<close> is the early return with \<open>WrongShardId\<close>.\<close>

fun fill_shards ::
  "u8 list option list \<Rightarrow> (Sid \<times> Shard) list \<Rightarrow> u8 list option list option" where
  "fill_shards shards_vec [] = Some shards_vec"
| "fill_shards shards_vec ((index, shard) # rest) =
     (let vec_index = unat (sid_raw index) in
      if vec_index < length shards_vec
      then fill_shards (shards_vec[vec_index := Some (as_inner_shard shard)]) rest
      else None)"

definition rs_wrapper_decode ::
  "array_feature \<Rightarrow> (Sid, Shard) hash_order \<Rightarrow> ReedSolomonWrapper
   \<Rightarrow> (Sid, Shard) HashMap \<Rightarrow> (RsError, Data) outcome" where
  "rs_wrapper_decode ft ord w shards =
     (case fill_shards (replicate (total_shard_count w) None) (ord shards) of
        None \<Rightarrow> Err WrongShardId
      | Some shards_vec \<Rightarrow>
          (case rs_reconstruct (inner w) (data_shard_count w) (parity_shard_count w) shards_vec of
             Inl e \<Rightarrow> Err (ReedSolomon e)
           | Inr shards_vec \<Rightarrow>
               (case those (take (unat DATA_SHARDS_COUNT) shards_vec) of
                  None \<Rightarrow> Panic
                | Some rows \<Rightarrow>
                    (case data_try_from ft (concat rows) of
                       None \<Rightarrow> Panic
                     | Some data \<Rightarrow> Ok data))))"

definition rs_wrapper_settings :: "ReedSolomonWrapper \<Rightarrow> Settings" where
  "rs_wrapper_settings w =
     \<lparr>data_shards_total = of_nat (total_shard_count w),
      data_shards_sufficient = of_nat (data_shard_count w)\<rparr>"

subsection \<open>\<open>encoding/mock.rs\<close>\<close>

datatype MockEncodingError = NotEnoughShards

definition mock_encode ::
  "array_feature \<Rightarrow> MockEncodingSettings \<Rightarrow> Data
   \<Rightarrow> (MockEncodingError, (Sid, Shard) HashMap) outcome" where
  "mock_encode ft s data =
     (case those (map (shard_try_from ft) (chunks_exact 4 (as_inner_data data))) of
        None \<Rightarrow> Panic
      | Some slices \<Rightarrow>
          let shards = hm_collect (number_shards slices) in
          if of_nat (hm_len shards) = mock_data_shards_total s then Ok shards else Panic)"

definition mock_decode ::
  "array_feature \<Rightarrow> (Sid, Shard) hash_order
   \<Rightarrow> (Sid, Shard) HashMap \<Rightarrow> (MockEncodingError, Data) outcome" where
  "mock_decode ft ord shards =
     (let shards = sort_key (\<lambda>(i, _). sid_raw i) (ord shards);
          kek = concat (map (\<lambda>(_, shard). as_inner_shard shard) shards)
      in case data_try_from ft kek of None \<Rightarrow> Err NotEnoughShards | Some arr \<Rightarrow> Ok arr)"

definition mock_settings :: "MockEncodingSettings \<Rightarrow> MockEncodingSettings" where
  "mock_settings s = s"

subsection \<open>Interfaces\<close>

lemma of_nat_sid_inj: "n \<le> 2 ^ 64 \<Longrightarrow> inj_on (\<lambda>i. Sid (of_nat i)) {..<n}"
  by (rule inj_on_inverseI [where g = "\<lambda>s. unat (sid_raw s)"]) (simp add: unat_of_nat_u64)

text \<open>
  The trait \<open>DataEncoding\<close> as its clients use it: every admissible datum has a shard for each
  of the \<open>total\<close> indices, and any part of its shards with at least \<open>sufficient\<close> of them
  decodes to it.
\<close>

locale data_encoding =
  fixes enc :: "Data \<Rightarrow> ('e, (Sid, Shard) HashMap) outcome"
    and dec :: "(Sid, Shard) HashMap \<Rightarrow> ('e, Data) outcome"
    and total sufficient :: nat
    and admissible :: "Data \<Rightarrow> bool"
  assumes enc_total:
      "admissible d \<Longrightarrow>
         \<exists>m. enc d = Ok m \<and> fmdom' m = (\<lambda>i. Sid (of_nat i)) ` {..<total}"
    and dec_part:
      "admissible d \<Longrightarrow> enc d = Ok m \<Longrightarrow> part \<subseteq>\<^sub>f m \<Longrightarrow> sufficient \<le> hm_len part
         \<Longrightarrow> dec part = Ok d"
    and sufficient_le: "sufficient \<le> total"
    and total_u64: "total < 2 ^ 64"
begin

lemma sid_indices: "card ((\<lambda>i. Sid (of_nat i)) ` {..<total}) = total"
  using total_u64 by (simp add: card_image of_nat_sid_inj)

lemma enc_len: "admissible d \<Longrightarrow> enc d = Ok m \<Longrightarrow> hm_len m = total"
  using enc_total [of d] sid_indices
  by (auto simp: hm_len_def fcard.rep_eq fmdom'_alt_def)

lemma dec_enc: "admissible d \<Longrightarrow> enc d = Ok m \<Longrightarrow> dec m = Ok d"
  using enc_len sufficient_le dec_part [of d m m] by (simp add: fmsubset_alt_def fmpred_iff)

lemma enc_inj: "admissible d \<Longrightarrow> admissible d' \<Longrightarrow> enc d = Ok m \<Longrightarrow> enc d' = Ok m \<Longrightarrow> d = d'"
  using dec_enc [of d m] dec_enc [of d' m] by simp

end

text \<open>
  The documented behaviour of the crate for \<open>k\<close> data and \<open>p\<close> parity rows: encoding keeps the
  data rows and yields rows of the same length; reconstruction from at least \<open>k\<close> rows of an
  encoding restores all of them; both the code and the field addition are linear with \<open>0\<close> as
  the neutral element and every element its own inverse.
\<close>

locale rs_code =
  fixes lib :: rs_library and k p :: nat
  assumes encode_rows:
      "length rows = k + p \<Longrightarrow> (\<And>r. r \<in> set rows \<Longrightarrow> length r = n) \<Longrightarrow> 0 < n \<Longrightarrow>
         \<exists>out. rs_encode lib k p rows = Inr out \<and> length out = k + p
           \<and> take k out = take k rows \<and> (\<forall>r\<in>set out. length r = n)"
    and reconstruct_rows:
      "length rows = k + p \<Longrightarrow> (\<And>r. r \<in> set rows \<Longrightarrow> length r = n) \<Longrightarrow> 0 < n \<Longrightarrow>
       rs_encode lib k p rows = Inr out \<Longrightarrow>
       length v = k + p \<Longrightarrow> (\<And>i r. i < k + p \<Longrightarrow> v ! i = Some r \<Longrightarrow> r = out ! i) \<Longrightarrow>
       k \<le> length (filter (\<lambda>x. x \<noteq> None) v) \<Longrightarrow>
         rs_reconstruct lib k p v = Inr (map Some out)"
    and encode_linear:
      "length xs = k + p \<Longrightarrow> length ys = k + p \<Longrightarrow>
       (\<And>r. r \<in> set xs \<Longrightarrow> length r = n) \<Longrightarrow> (\<And>r. r \<in> set ys \<Longrightarrow> length r = n) \<Longrightarrow> 0 < n \<Longrightarrow>
       rs_encode lib k p xs = Inr xo \<Longrightarrow> rs_encode lib k p ys = Inr yo \<Longrightarrow>
         rs_encode lib k p (map2 (map2 (galois_add lib)) xs ys)
           = Inr (map2 (map2 (galois_add lib)) xo yo)"
    and add_neutral: "galois_add lib 0 a = a"
    and add_self: "galois_add lib a a = 0"
    and add_assoc: "galois_add lib (galois_add lib a b) c = galois_add lib a (galois_add lib b c)"

subsection \<open>Lemmas on cutting, numbering and filling\<close>

lemma chunks_props:
  assumes "0 < n" and "length xs = n * j"
  shows "length (chunks n xs) = j \<and> (\<forall>c\<in>set (chunks n xs). length c = n) \<and> concat (chunks n xs) = xs"
  using assms(2)
proof (induction j arbitrary: xs)
  case 0
  then show ?case by (simp add: chunks.simps)
next
  case (Suc j)
  then have "xs \<noteq> []" and len: "length (drop n xs) = n * j"
    using assms(1) by auto
  then have "chunks n xs = take n xs # chunks n (drop n xs)"
    using assms(1) by (simp add: chunks.simps [of n xs])
  with Suc.IH [OF len] Suc.prems show ?case by simp
qed

lemma those_map_Some: "(\<And>x. x \<in> set xs \<Longrightarrow> f x = Some (g x)) \<Longrightarrow> those (map f xs) = Some (map g xs)"
  by (induction xs) simp_all

lemma number_shards_nth:
  "number_shards ss = map (\<lambda>i. (Sid (of_nat i), ss ! i)) [0..<length ss]"
  by (rule nth_equalityI) (simp_all add: number_shards_def nth_enumerate_eq)

lemma number_shards_distinct:
  assumes "length ss \<le> 2 ^ 64"
  shows "distinct (map fst (number_shards ss))"
  using of_nat_sid_inj [OF assms]
  by (simp add: number_shards_nth comp_def distinct_map atLeast_upt)

lemma number_shards_lookup:
  assumes "length ss \<le> 2 ^ 64"
  shows "fmlookup (hm_collect (number_shards ss)) (Sid x) =
           (if unat x < length ss then Some (ss ! unat x) else None)"
proof -
  have lk: "fmlookup (hm_collect (number_shards ss)) = map_of (number_shards ss)"
    by (rule hm_collect_distinct [OF number_shards_distinct [OF assms]])
  show ?thesis
  proof (cases "unat x < length ss")
    case True
    have "(Sid x, ss ! unat x) \<in> set (number_shards ss)"
      using True by (auto simp: number_shards_nth intro!: image_eqI [of _ _ "unat x"])
    then show ?thesis
      using True number_shards_distinct [OF assms] by (simp add: lk)
  next
    case False
    have "Sid x \<notin> fst ` set (number_shards ss)"
    proof
      assume "Sid x \<in> fst ` set (number_shards ss)"
      then obtain i where "i < length ss" and "x = of_nat i"
        by (auto simp: number_shards_nth)
      with assms False show False by (simp add: unat_of_nat_u64)
    qed
    with False show ?thesis by (simp add: lk map_of_eq_None_iff)
  qed
qed

lemma fill_shards_spec:
  assumes "distinct (map fst xs)" and "\<forall>(i, s)\<in>set xs. unat (sid_raw i) < length v"
    and "length v \<le> 2 ^ 64"
  shows "fill_shards v xs =
    Some (map (\<lambda>j. case map_of xs (Sid (of_nat j)) of
                     Some s \<Rightarrow> Some (as_inner_shard s) | None \<Rightarrow> v ! j) [0..<length v])"
  using assms
proof (induction xs arbitrary: v)
  case Nil
  then show ?case by (simp add: map_nth)
next
  case (Cons x xs)
  obtain i s where x: "x = (i, s)" by force
  let ?v = "v[unat (sid_raw i) := Some (as_inner_shard s)]"
  have i: "unat (sid_raw i) < length v" using Cons.prems(2) by (simp add: x)
  have "fill_shards ?v xs = Some (map (\<lambda>j. case map_of xs (Sid (of_nat j)) of
            Some s \<Rightarrow> Some (as_inner_shard s) | None \<Rightarrow> ?v ! j) [0..<length ?v])"
    using Cons.prems by (intro Cons.IH) (auto simp: x)
  moreover have "map_of xs i = None"
    using Cons.prems(1) by (simp add: x map_of_eq_None_iff)
  moreover have "Sid (of_nat j) = i \<longleftrightarrow> j = unat (sid_raw i)" if "j < length v" for j
    using that Cons.prems(3) by (cases i) (auto simp: unat_of_nat_u64)
  ultimately show ?case
    using i by (auto simp: x Let_def nth_list_update split: option.splits)
qed

lemma chunks_map2:
  "length xs = length ys \<Longrightarrow> chunks n (map2 f xs ys) = map2 (map2 f) (chunks n xs) (chunks n ys)"
proof (induction n xs arbitrary: ys rule: chunks.induct)
  case (1 n xs)
  show ?case
  proof (cases "n = 0 \<or> xs = []")
    case True
    with "1.prems" show ?thesis by (auto simp: chunks.simps [of n])
  next
    case False
    with "1.prems" have "ys \<noteq> []" by auto
    have IH: "chunks n (map2 f (drop n xs) (drop n ys))
        = map2 (map2 f) (chunks n (drop n xs)) (chunks n (drop n ys))"
      using False "1.prems" by (intro "1.IH") auto
    have "chunks n (map2 f xs ys)
        = take n (map2 f xs ys) # chunks n (drop n (map2 f xs ys))"
      using False "1.prems" \<open>ys \<noteq> []\<close> by (subst chunks.simps) auto
    also have "\<dots> = map2 f (take n xs) (take n ys) # chunks n (map2 f (drop n xs) (drop n ys))"
      by (simp add: take_map drop_map take_zip drop_zip)
    finally show ?thesis
      using False \<open>ys \<noteq> []\<close> by (simp add: IH chunks.simps [of n xs] chunks.simps [of n ys])
  qed
qed

lemma filter_upt_card: "length (filter P [0..<n]) = card {j. j < n \<and> P j}"
proof -
  have "length (filter P [0..<n]) = card (set (filter P [0..<n]))"
    by (rule distinct_card [symmetric]) simp
  also have "set (filter P [0..<n]) = {j. j < n \<and> P j}" by auto
  finally show ?thesis .
qed

text \<open>The reconstruction vector that \<open>decode\<close> builds from a part of the shards.\<close>

definition part_vec :: "nat \<Rightarrow> (Sid, Shard) HashMap \<Rightarrow> u8 list option list" where
  "part_vec n part = map (\<lambda>j. map_option as_inner_shard (fmlookup part (Sid (of_nat j)))) [0..<n]"

lemma fill_part:
  assumes ord: "hash_ordered ord" and n: "n \<le> 2 ^ 64"
    and idx: "\<And>i s. fmlookup part i = Some s \<Longrightarrow> unat (sid_raw i) < n"
  shows "fill_shards (replicate n None) (ord part) = Some (part_vec n part)"
proof -
  have ordered: "hash_iteration ord" using ord by (rule hash_iteration.intro)
  note ord = hash_iteration.ord_mem [OF ordered] hash_iteration.ord_distinct [OF ordered]
    hash_iteration.ord_lookup [OF ordered]
  have "fill_shards (replicate n None) (ord part) =
      Some (map (\<lambda>j. case map_of (ord part) (Sid (of_nat j)) of
                   Some s \<Rightarrow> Some (as_inner_shard s) | None \<Rightarrow> replicate n None ! j)
              [0..<length (replicate n (None :: u8 list option))])"
    using n idx by (intro fill_shards_spec) (auto simp: ord)
  then show ?thesis
    by (auto simp: part_vec_def ord(3) intro!: map_cong split: option.splits)
qed

lemma part_vec_count:
  assumes n: "n \<le> 2 ^ 64" and idx: "\<And>i s. fmlookup part i = Some s \<Longrightarrow> unat (sid_raw i) < n"
  shows "length (filter (\<lambda>x. x \<noteq> None) (part_vec n part)) = hm_len part"
proof -
  let ?J = "{j. j < n \<and> fmlookup part (Sid (of_nat j)) \<noteq> None}"
  have "fmdom' part = (\<lambda>j. Sid (of_nat j)) ` ?J"
  proof (intro set_eqI iffI)
    fix i assume "i \<in> fmdom' part"
    then obtain s where "fmlookup part i = Some s" by (auto simp: fmlookup_dom'_iff)
    with idx [OF this] show "i \<in> (\<lambda>j. Sid (of_nat j)) ` ?J"
      by (intro image_eqI [of _ _ "unat (sid_raw i)"]) auto
  qed (auto simp: fmlookup_dom'_iff)
  moreover have "card ((\<lambda>j. Sid (of_nat j)) ` ?J) = card ?J"
    using n by (intro card_image inj_on_subset [OF of_nat_sid_inj [of n]]) auto
  moreover have "hm_len part = card (fmdom' part)"
    by (simp add: hm_len_def fcard.rep_eq fmdom'_alt_def)
  moreover have "card ?J = length (filter (\<lambda>x. x \<noteq> None) (part_vec n part))"
    by (simp add: part_vec_def filter_map comp_def filter_upt_card)
  ultimately show ?thesis by simp
qed

subsection \<open>The wrapper over a lawful crate\<close>

text \<open>The rows handed to the crate: the data cut into shards, then zero parity rows.\<close>

definition full_rows :: "array_feature \<Rightarrow> ReedSolomonWrapper \<Rightarrow> Data \<Rightarrow> u8 list list" where
  "full_rows ft w d = chunks (shard_len ft) (as_inner_data d)
     @ replicate (parity_shard_count w) (replicate (shard_len ft) 0)"

text \<open>Position-wise combination of two data units or of two shards.\<close>

definition data_zip :: "(u8 \<Rightarrow> u8 \<Rightarrow> u8) \<Rightarrow> Data \<Rightarrow> Data \<Rightarrow> Data" where
  "data_zip f a b = Data (map2 f (as_inner_data a) (as_inner_data b))"

definition shard_zip :: "(u8 \<Rightarrow> u8 \<Rightarrow> u8) \<Rightarrow> Shard \<Rightarrow> Shard \<Rightarrow> Shard" where
  "shard_zip f a b = Shard (map2 f (as_inner_shard a) (as_inner_shard b))"

locale rs_wrapper =
  rs_code "inner w" "data_shard_count w" "parity_shard_count w" for w :: ReedSolomonWrapper +
  fixes ft :: array_feature and ord :: "(Sid, Shard) hash_order"
  assumes two_data: "data_shard_count w = 2"
    and few_shards: "total_shard_count w \<le> 256"
    and shard_order: "hash_ordered ord"
begin

lemma data_rows:
  assumes "wf_data ft d"
  shows "length (chunks (shard_len ft) (as_inner_data d)) = 2"
    and "\<forall>c\<in>set (chunks (shard_len ft) (as_inner_data d)). length c = shard_len ft"
    and "concat (chunks (shard_len ft) (as_inner_data d)) = as_inner_data d"
  using chunks_props [of "shard_len ft" "as_inner_data d" 2] assms
  by (simp_all add: wf_data_def data_len_eq mult.commute)

lemma full_rows_shape:
  assumes "wf_data ft d"
  shows "length (full_rows ft w d) = data_shard_count w + parity_shard_count w"
    and "r \<in> set (full_rows ft w d) \<Longrightarrow> length r = shard_len ft"
    and "take 2 (full_rows ft w d) = chunks (shard_len ft) (as_inner_data d)"
  using data_rows [OF assms] by (auto simp: full_rows_def two_data)

lemma encode_eq:
  assumes "wf_data ft d"
  shows "rs_wrapper_encode ft w d =
    (case rs_encode (inner w) (data_shard_count w) (parity_shard_count w) (full_rows ft w d) of
       Inl e \<Rightarrow> Err (ReedSolomon e)
     | Inr out \<Rightarrow> Ok (hm_collect (number_shards (map Shard out))))"
proof -
  have "those (map (shard_try_from ft) (chunks (shard_len ft) (as_inner_data d)))
      = Some (map Shard (chunks (shard_len ft) (as_inner_data d)))"
    using data_rows(2) [OF assms]
    by (intro those_map_Some) (simp add: shard_try_from_def)
  moreover have "of_nat (length (map Shard (chunks (shard_len ft) (as_inner_data d))))
      = DATA_SHARDS_COUNT"
    using data_rows(1) [OF assms] by (simp add: DATA_SHARDS_COUNT_def)
  ultimately show ?thesis
    by (simp add: rs_wrapper_encode_def Let_def full_rows_def comp_def map_replicate)
qed

lemma encode_rows_out:
  assumes "wf_data ft d"
  obtains out where
    "rs_encode (inner w) (data_shard_count w) (parity_shard_count w) (full_rows ft w d) = Inr out"
    "length out = total_shard_count w"
    "take 2 out = chunks (shard_len ft) (as_inner_data d)"
    "\<forall>r\<in>set out. length r = shard_len ft"
    "rs_wrapper_encode ft w d = Ok (hm_collect (number_shards (map Shard out)))"
proof -
  obtain out where
    "rs_encode (inner w) (data_shard_count w) (parity_shard_count w) (full_rows ft w d) = Inr out"
    "length out = data_shard_count w + parity_shard_count w"
    "take (data_shard_count w) out = take (data_shard_count w) (full_rows ft w d)"
    "\<forall>r\<in>set out. length r = shard_len ft"
    using encode_rows [OF full_rows_shape(1) [OF assms] full_rows_shape(2) [OF assms]
        shard_len_pos] by blast
  then show ?thesis
    using full_rows_shape(3) [OF assms] encode_eq [OF assms] that [of out]
    by (simp add: two_data total_shard_count_def)
qed

lemma encoded_lookup:
  assumes "length out = total_shard_count w"
  shows "fmlookup (hm_collect (number_shards (map Shard out))) (Sid x) =
    (if unat x < total_shard_count w then Some (Shard (out ! unat x)) else None)"
  using assms few_shards by (simp add: number_shards_lookup)

lemma encoded_dom:
  assumes "length out = total_shard_count w"
  shows "fmdom' (hm_collect (number_shards (map Shard out)))
    = (\<lambda>i. Sid (of_nat i)) ` {..<total_shard_count w}"
  using assms by (simp add: hm_collect_dom number_shards_nth image_image lessThan_atLeast0)

lemma decode_part:
  assumes d: "wf_data ft d" and enc: "rs_wrapper_encode ft w d = Ok m"
    and part: "part \<subseteq>\<^sub>f m" and suff: "2 \<le> hm_len part"
  shows "rs_wrapper_decode ft ord w part = Ok d"
proof -
  let ?N = "total_shard_count w" and ?v = "part_vec (total_shard_count w) part"
  obtain out where out:
    "rs_encode (inner w) (data_shard_count w) (parity_shard_count w) (full_rows ft w d) = Inr out"
    "length out = ?N" "take 2 out = chunks (shard_len ft) (as_inner_data d)"
    and m: "m = hm_collect (number_shards (map Shard out))"
    using encode_rows_out [OF d] enc by (metis outcome.inject(2))
  have idx: "unat (sid_raw i) < ?N \<and> s = Shard (out ! unat (sid_raw i))"
    if "fmlookup part i = Some s" for i s
    using that part encoded_lookup [OF out(2), of "sid_raw i"]
    by (auto simp: fmsubset_alt_def m split: if_splits)
  have fill: "fill_shards (replicate ?N None) (ord part) = Some ?v"
    using shard_order few_shards idx by (intro fill_part) auto
  have count: "length (filter (\<lambda>x. x \<noteq> None) ?v) = hm_len part"
    using few_shards idx by (intro part_vec_count) auto
  have rows: "r = out ! i" if "i < ?N" "?v ! i = Some r" for i r
    using that few_shards idx [of "Sid (of_nat i)"]
    by (auto simp: part_vec_def unat_of_nat_u64)
  have rec: "rs_reconstruct (inner w) (data_shard_count w) (parity_shard_count w) ?v
      = Inr (map Some out)"
    using full_rows_shape [OF d] out rows suff count
    by (intro reconstruct_rows [OF _ _ shard_len_pos])
      (auto simp: part_vec_def total_shard_count_def two_data)
  have "concat (take 2 out) = as_inner_data d"
    using out(3) data_rows(3) [OF d] by simp
  moreover have "those (take 2 (map Some out)) = Some (take 2 out)"
    using those_map_Some [of "take 2 out" Some id] by (simp add: take_map)
  ultimately show ?thesis
    using d by (simp add: rs_wrapper_decode_def fill rec data_try_from_def wf_data_def)
qed

text \<open>Linearity: the shards of a position-wise sum are the sums of the shards.\<close>

lemma full_rows_zip:
  assumes "wf_data ft a" and "wf_data ft b"
  shows "full_rows ft w (data_zip (galois_add (inner w)) a b)
    = map2 (map2 (galois_add (inner w))) (full_rows ft w a) (full_rows ft w b)"
  using assms data_rows(1) [OF assms(1)] data_rows(1) [OF assms(2)]
  by (simp add: full_rows_def data_zip_def chunks_map2 wf_data_def zip_replicate add_self)

lemma encode_zip_linear:
  assumes a: "wf_data ft a" and b: "wf_data ft b"
    and ma: "rs_wrapper_encode ft w a = Ok ma" and mb: "rs_wrapper_encode ft w b = Ok mb"
  obtains mc where "rs_wrapper_encode ft w (data_zip (galois_add (inner w)) a b) = Ok mc"
    "\<And>i. fmlookup mc i = (case (fmlookup ma i, fmlookup mb i) of
        (Some x, Some y) \<Rightarrow> Some (shard_zip (galois_add (inner w)) x y) | _ \<Rightarrow> None)"
proof -
  let ?add = "galois_add (inner w)"
  obtain oa where oa:
    "rs_encode (inner w) (data_shard_count w) (parity_shard_count w) (full_rows ft w a) = Inr oa"
    "length oa = total_shard_count w" and ma': "ma = hm_collect (number_shards (map Shard oa))"
    using encode_rows_out [OF a] ma by (metis outcome.inject(2))
  obtain ob where ob:
    "rs_encode (inner w) (data_shard_count w) (parity_shard_count w) (full_rows ft w b) = Inr ob"
    "length ob = total_shard_count w" and mb': "mb = hm_collect (number_shards (map Shard ob))"
    using encode_rows_out [OF b] mb by (metis outcome.inject(2))
  have wfc: "wf_data ft (data_zip ?add a b)"
    using a b by (simp add: wf_data_def data_zip_def)
  have len: "length (map2 (map2 ?add) oa ob) = total_shard_count w"
    by (simp add: oa ob)
  have "rs_encode (inner w) (data_shard_count w) (parity_shard_count w)
      (full_rows ft w (data_zip ?add a b)) = Inr (map2 (map2 ?add) oa ob)"
    unfolding full_rows_zip [OF a b]
    by (rule encode_linear [OF full_rows_shape(1) [OF a] full_rows_shape(1) [OF b]
          full_rows_shape(2) [OF a] full_rows_shape(2) [OF b] shard_len_pos oa(1) ob(1)])
  then have enc: "rs_wrapper_encode ft w (data_zip ?add a b)
      = Ok (hm_collect (number_shards (map Shard (map2 (map2 ?add) oa ob))))"
    by (simp add: encode_eq [OF wfc])
  have "fmlookup (hm_collect (number_shards (map Shard (map2 (map2 ?add) oa ob)))) i
      = (case (fmlookup ma i, fmlookup mb i) of
          (Some x, Some y) \<Rightarrow> Some (shard_zip ?add x y) | _ \<Rightarrow> None)" for i
    using encoded_lookup [OF len, of "sid_raw i"] encoded_lookup [OF oa(2), of "sid_raw i"]
      encoded_lookup [OF ob(2), of "sid_raw i"]
    by (simp add: ma' mb' shard_zip_def oa(2) ob(2))
  with enc show ?thesis by (rule that)
qed

text \<open>The data rows are slices of the data: any position-wise operation passes to them.\<close>

lemma encode_zip_data_shard:
  assumes a: "wf_data ft a" and b: "wf_data ft b"
    and ma: "rs_wrapper_encode ft w a = Ok ma" and mb: "rs_wrapper_encode ft w b = Ok mb"
    and mc: "rs_wrapper_encode ft w (data_zip f a b) = Ok mc" and i: "i < 2"
  obtains x y where "fmlookup ma (Sid (of_nat i)) = Some x" "fmlookup mb (Sid (of_nat i)) = Some y"
    "fmlookup mc (Sid (of_nat i)) = Some (shard_zip f x y)"
proof -
  have row: "fmlookup m (Sid (of_nat i)) = Some (Shard (chunks (shard_len ft) (as_inner_data d) ! i))"
    if d: "wf_data ft d" and m: "rs_wrapper_encode ft w d = Ok m" for d m
  proof -
    obtain out where out: "length out = total_shard_count w"
      "take 2 out = chunks (shard_len ft) (as_inner_data d)"
      and m': "m = hm_collect (number_shards (map Shard out))"
      using encode_rows_out [OF d] m by (metis outcome.inject(2))
    have "out ! i = take 2 out ! i" using i by simp
    with out i m' show ?thesis
      using encoded_lookup [OF out(1), of "of_nat i"]
      by (simp add: unat_of_nat_u64 total_shard_count_def two_data)
  qed
  have "wf_data ft (data_zip f a b)"
    using a b by (simp add: wf_data_def data_zip_def)
  from row [OF this mc] have "fmlookup mc (Sid (of_nat i)) =
      Some (shard_zip f (Shard (chunks (shard_len ft) (as_inner_data a) ! i))
                        (Shard (chunks (shard_len ft) (as_inner_data b) ! i)))"
    using a b i data_rows(1) [OF a] data_rows(1) [OF b]
    by (simp add: data_zip_def shard_zip_def chunks_map2 wf_data_def)
  with row [OF a ma] row [OF b mb] show ?thesis by (rule that)
qed

end

sublocale rs_wrapper \<subseteq> wrapper: data_encoding
  "rs_wrapper_encode ft w" "rs_wrapper_decode ft ord w" "total_shard_count w"
  "data_shard_count w" "wf_data ft"
proof unfold_locales
  fix d assume d: "wf_data ft d"
  then show "\<exists>m. rs_wrapper_encode ft w d = Ok m
      \<and> fmdom' m = (\<lambda>i. Sid (of_nat i)) ` {..<total_shard_count w}"
    by (metis encode_rows_out encoded_dom)
  fix m part
  assume "rs_wrapper_encode ft w d = Ok m" "part \<subseteq>\<^sub>f m" "data_shard_count w \<le> hm_len part"
  with d show "rs_wrapper_decode ft ord w part = Ok d"
    by (intro decode_part) (auto simp: two_data)
qed (use few_shards in \<open>auto simp: total_shard_count_def\<close>)

subsection \<open>Instances\<close>

text \<open>
  A concrete library for two data rows and one parity row, the exclusive or of the data: it
  satisfies the laws asked of the crate, so they are consistent, and it evaluates.
\<close>

fun parity_encode :: "u8 list list \<Rightarrow> rs_error + u8 list list" where
  "parity_encode [a, b, c] = Inr [a, b, map2 (XOR) a b]"
| "parity_encode _ = Inl ''wrong number of shards''"

fun parity_reconstruct :: "u8 list option list \<Rightarrow> rs_error + u8 list option list" where
  "parity_reconstruct [Some a, Some b, Some c] = Inr [Some a, Some b, Some c]"
| "parity_reconstruct [Some a, Some b, None] = Inr [Some a, Some b, Some (map2 (XOR) a b)]"
| "parity_reconstruct [Some a, None, Some c] = Inr [Some a, Some (map2 (XOR) a c), Some c]"
| "parity_reconstruct [None, Some b, Some c] = Inr [Some (map2 (XOR) c b), Some b, Some c]"
| "parity_reconstruct _ = Inl ''too few shards present''"

definition parity_library :: rs_library where
  "parity_library =
     \<lparr>rs_new = (\<lambda>k p. if k = 2 \<and> p = 1 then Inr () else Inl ''unsupported''),
      rs_encode = (\<lambda>k p. parity_encode),
      rs_reconstruct = (\<lambda>k p. parity_reconstruct),
      galois_add = (XOR)\<rparr>"

lemma parity_library_sel [simp]:
  "rs_encode parity_library k p = parity_encode"
  "rs_reconstruct parity_library k p = parity_reconstruct"
  "galois_add parity_library = (XOR)"
  by (simp_all add: parity_library_def)

lemma length3: "length xs = 3 \<longleftrightarrow> (\<exists>a b c. xs = [a, b, c])"
  by (auto simp: numeral_3_eq_3 length_Suc_conv)

lemma map2_xor_cancel:
  "length a = length b \<Longrightarrow> map2 (XOR) a (map2 (XOR) a b) = (b :: u8 list)"
  "length a = length b \<Longrightarrow> map2 (XOR) (map2 (XOR) a b) b = (a :: u8 list)"
  by (induction a b rule: list_induct2) (simp_all add: xor.assoc flip: xor.assoc [of a a b for a b])

lemma map2_xor_medial:
  "length a = length b \<Longrightarrow> length b = length c \<Longrightarrow> length c = length d \<Longrightarrow>
   map2 (XOR) (map2 (XOR) a b) (map2 (XOR) c d)
     = map2 (XOR) (map2 (XOR) a c) (map2 (XOR) b (d :: u8 list))"
  by (induction a b c d rule: list_induct4) (simp_all add: xor.assoc xor.left_commute)

lemma parity_library_rows:
  assumes "length rows = 3" and "\<And>r. r \<in> set rows \<Longrightarrow> length r = n"
    and "rs_encode parity_library 2 1 rows = Inr out"
    and v: "length v = 3" "\<And>i r. i < 3 \<Longrightarrow> v ! i = Some r \<Longrightarrow> r = out ! i"
      "2 \<le> length (filter (\<lambda>x. x \<noteq> None) v)"
  shows "rs_reconstruct parity_library 2 1 v = Inr (map Some out)"
proof -
  obtain a b c where rows: "rows = [a, b, c]" using assms(1) by (auto simp: length3)
  then have out: "out = [a, b, map2 (XOR) a b]" and ab: "length a = length b"
    using assms(2) assms(3) by auto
  obtain x y z where xyz: "v = [x, y, z]" using v(1) by (auto simp: length3)
  have "x = None \<or> x = Some a" using v(2) [of 0] by (cases x) (simp_all add: xyz out)
  moreover have "y = None \<or> y = Some b" using v(2) [of 1] by (cases y) (simp_all add: xyz out)
  moreover have "z = None \<or> z = Some (map2 (XOR) a b)"
    using v(2) [of 2] by (cases z) (simp_all add: xyz out)
  ultimately show ?thesis
    using v(3) ab by (auto simp: xyz out map2_xor_cancel)
qed

interpretation parity: rs_code parity_library 2 1
proof unfold_locales
  fix rows :: "u8 list list" and n
  assume len: "length rows = 2 + 1" and n: "\<And>r. r \<in> set rows \<Longrightarrow> length r = n"
  from len obtain a b c where rows: "rows = [a, b, c]" by (auto simp: length3)
  then have "length a = n" "length b = n" using n by simp_all
  then show "\<exists>out. rs_encode parity_library 2 1 rows = Inr out \<and> length out = 2 + 1
      \<and> take 2 out = take 2 rows \<and> (\<forall>r\<in>set out. length r = n)"
    by (simp add: rows)
  fix out v
  assume "rs_encode parity_library 2 1 rows = Inr out" "length v = 2 + 1"
    "\<And>i r. i < 2 + 1 \<Longrightarrow> v ! i = Some r \<Longrightarrow> r = out ! i"
    "2 \<le> length (filter (\<lambda>x. x \<noteq> None) v)"
  then show "rs_reconstruct parity_library 2 1 v = Inr (map Some out)"
    using len n by (intro parity_library_rows [of rows n]) simp_all
next
  fix xs ys xo yo :: "u8 list list" and n
  assume len: "length xs = 2 + 1" "length ys = 2 + 1"
    and n: "\<And>r. r \<in> set xs \<Longrightarrow> length r = n" "\<And>r. r \<in> set ys \<Longrightarrow> length r = n"
    and o: "rs_encode parity_library 2 1 xs = Inr xo" "rs_encode parity_library 2 1 ys = Inr yo"
  from len obtain a b c d e f where xy: "xs = [a, b, c]" "ys = [d, e, f]"
    by (auto simp: length3)
  then have "length a = n" "length b = n" "length d = n" "length e = n"
    using n by simp_all
  then show "rs_encode parity_library 2 1 (map2 (map2 (galois_add parity_library)) xs ys)
      = Inr (map2 (map2 (galois_add parity_library)) xo yo)"
    using o by (auto simp: xy map2_xor_medial)
qed (simp_all add: xor.assoc)

abbreviation parity_wrapper :: ReedSolomonWrapper where
  "parity_wrapper \<equiv> \<lparr>inner = parity_library, data_shard_count = 2, parity_shard_count = 1\<rparr>"

interpretation parity_code: rs_wrapper parity_wrapper ft sorted_list_of_fmap for ft
proof (intro rs_wrapper.intro rs_wrapper_axioms.intro)
  show "rs_code (inner parity_wrapper) (data_shard_count parity_wrapper)
      (parity_shard_count parity_wrapper)"
    using parity.rs_code_axioms by simp
qed (simp_all add: total_shard_count_def sorted_hash_ordered)

subsection \<open>The mock encoding as an instance of the interface\<close>

text \<open>
  The mock encoding cuts the data into pieces of four bytes whatever the build, so it fits the
  default build only, with as many shards as pieces and no redundancy.
\<close>

lemma mock_slices:
  assumes "wf_data Default_Array d"
  obtains a b where "as_inner_data d = a @ b" "length a = 4" "length b = 4"
    "chunks_exact 4 (as_inner_data d) = [a, b]"
proof -
  have "length (as_inner_data d) = 4 * 2"
    using assms by (simp add: wf_data_def data_len_eq)
  from chunks_props [OF _ this] have
    c: "length (chunks 4 (as_inner_data d)) = 2" "\<forall>c\<in>set (chunks 4 (as_inner_data d)). length c = 4"
      "concat (chunks 4 (as_inner_data d)) = as_inner_data d" by simp_all
  then obtain a b where ab: "chunks 4 (as_inner_data d) = [a, b]"
    by (auto simp: numeral_2_eq_2 length_Suc_conv)
  show ?thesis
    by (rule that [of a b]) (use c in \<open>simp_all add: ab chunks_exact_def\<close>)
qed

lemma mock_encode_eq:
  assumes "as_inner_data d = a @ b" "length a = 4" "length b = 4"
    "chunks_exact 4 (as_inner_data d) = [a, b]" and "mock_data_shards_total s = 2"
  shows "mock_encode Default_Array s d
    = Ok (fmupd (Sid 1) (Shard b) (fmupd (Sid 0) (Shard a) fmempty))"
  using assms
  by (simp add: mock_encode_def shard_try_from_def number_shards_def hm_collect_def hm_simps)

lemma mock_decode_pair:
  assumes "hash_ordered ord" and "length a = 4" and "length b = 4"
  shows "mock_decode Default_Array ord (fmupd (Sid 1) (Shard b) (fmupd (Sid 0) (Shard a) fmempty))
    = Ok (Data (a @ b))"
proof -
  let ?m = "fmupd (Sid 1) (Shard b) (fmupd (Sid 0) (Shard a) fmempty)"
  have ordered: "hash_iteration ord" using assms(1) by (rule hash_iteration.intro)
  have "length (ord ?m) = 2"
    by (simp add: hash_iteration.ord_length [OF ordered] hm_simps)
  then obtain x y where xy: "ord ?m = [x, y]"
    by (auto simp: numeral_2_eq_2 length_Suc_conv)
  have mem: "z \<in> set (ord ?m) \<longleftrightarrow> z = (Sid 0, Shard a) \<or> z = (Sid 1, Shard b)" for z
    by (cases z) (auto simp: hash_iteration.ord_mem [OF ordered])
  have "fst x \<noteq> fst y"
    using hash_iteration.ord_distinct [OF ordered, of ?m] by (simp add: xy)
  then have "x = (Sid 0, Shard a) \<and> y = (Sid 1, Shard b) \<or> x = (Sid 1, Shard b) \<and> y = (Sid 0, Shard a)"
    using mem [of x] mem [of y] by (auto simp: xy)
  then show ?thesis
    using assms by (auto simp: mock_decode_def xy data_try_from_def data_len_eq)
qed

lemma fmap_part_eq:
  assumes "part \<subseteq>\<^sub>f m" and "hm_len m \<le> hm_len part"
  shows "part = m"
proof -
  have "fmdom' part \<subseteq> fmdom' m"
    using assms(1) by (auto simp: fmsubset_alt_def fmpred_iff fmlookup_dom'_iff)
  then have dom: "fmdom' part = fmdom' m"
    using assms(2) by (intro card_seteq) (auto simp: hm_len_def fcard.rep_eq fmdom'_alt_def)
  show ?thesis
  proof (rule fmap_ext)
    fix x
    show "fmlookup part x = fmlookup m x"
    proof (cases "fmlookup part x")
      case None
      then have "x \<notin> fmdom' m" by (simp add: fmlookup_dom'_iff flip: dom)
      then show ?thesis using None by (simp add: fmdom'_notD)
    next
      case (Some y)
      then show ?thesis using assms(1) by (auto simp: fmsubset_alt_def)
    qed
  qed
qed

interpretation mock: data_encoding
  "mock_encode Default_Array (\<lparr>mock_data_shards_total = 2, mock_data_shards_sufficient = 2,
      locally_assigned_id = sid, self_id = pid\<rparr>)"
  "mock_decode Default_Array sorted_list_of_fmap" 2 2 "wf_data Default_Array" for sid pid
proof unfold_locales
  let ?enc = "mock_encode Default_Array (\<lparr>mock_data_shards_total = 2,
      mock_data_shards_sufficient = 2, locally_assigned_id = sid, self_id = pid\<rparr>)"
  fix d assume "wf_data Default_Array d"
  then obtain a b where ab: "as_inner_data d = a @ b" "length a = 4" "length b = 4"
    "chunks_exact 4 (as_inner_data d) = [a, b]" by (rule mock_slices)
  from mock_encode_eq [OF this] have
    enc: "?enc d = Ok (fmupd (Sid 1) (Shard b) (fmupd (Sid 0) (Shard a) fmempty))" by simp
  then show "\<exists>m. ?enc d = Ok m \<and> fmdom' m = (\<lambda>i. Sid (of_nat i)) ` {..<2}"
    by (auto simp: fmdom'_alt_def numeral_2_eq_2 lessThan_Suc)
  fix m part assume "?enc d = Ok m" "part \<subseteq>\<^sub>f m" "2 \<le> hm_len part"
  with enc have "part = fmupd (Sid 1) (Shard b) (fmupd (Sid 0) (Shard a) fmempty)"
    by (intro fmap_part_eq) (auto simp: hm_simps)
  then show "mock_decode Default_Array sorted_list_of_fmap part = Ok d"
    using mock_decode_pair [OF sorted_hash_ordered ab(2,3)] ab(1) by (cases d) simp
qed simp_all

subsection \<open>Properties\<close>

lemma parity_crate: "rs_wrapper parity_wrapper sorted_list_of_fmap"
  by (rule parity_code.rs_wrapper_axioms)

text \<open>C12: over a crate that behaves as documented, encoding a data unit yields one shard for each
  index below the total, and any part of them with at least two shards, in any iteration order,
  decodes to the data unit.\<close>

theorem any_sufficient_part_decodes:
  assumes "rs_wrapper w ord" and "wf_data ft d"
  shows "\<exists>m. rs_wrapper_encode ft w d = Ok m
    \<and> fmdom' m = (\<lambda>i. Sid (of_nat i)) ` {..<total_shard_count w}
    \<and> (\<forall>part. part \<subseteq>\<^sub>f m \<longrightarrow> 2 \<le> hm_len part \<longrightarrow> rs_wrapper_decode ft ord w part = Ok d)"
proof -
  obtain out where "length out = total_shard_count w"
    and enc: "rs_wrapper_encode ft w d = Ok (hm_collect (number_shards (map Shard out)))"
    using rs_wrapper.encode_rows_out [OF assms] by blast
  then show ?thesis
    using rs_wrapper.encoded_dom [OF assms(1)] rs_wrapper.decode_part [OF assms enc] by blast
qed

theorem any_sufficient_part_decodes_witness:
  "\<exists>m. rs_wrapper_encode Default_Array parity_wrapper (Data [1, 2, 3, 4, 5, 6, 7, 8]) = Ok m
    \<and> (\<forall>part. part \<subseteq>\<^sub>f m \<longrightarrow> 2 \<le> hm_len part \<longrightarrow>
        rs_wrapper_decode Default_Array sorted_list_of_fmap parity_wrapper part
          = Ok (Data [1, 2, 3, 4, 5, 6, 7, 8]))"
  using any_sufficient_part_decodes [OF parity_crate, of Default_Array "Data [1, 2, 3, 4, 5, 6, 7, 8]"]
  by (auto simp: wf_data_def data_len_eq)

text \<open>A wrapper reports the settings it was made from, also where the subtraction of the counts wraps
  around.\<close>

lemma rs_wrapper_new_settings:
  assumes "rs_wrapper_new oc lib s = Ok w"
  shows "rs_wrapper_settings w = s"
proof -
  have "(of_nat (unat a + unat (b - a)) :: u64) = b" for a b
    by simp
  then show ?thesis
    using assms by (auto simp: rs_wrapper_new_def rs_wrapper_settings_def total_shard_count_def Let_def
        split: if_splits sum.splits)
qed

text \<open>A shard whose index is not below the total makes decoding fail with the wrong-shard-id
  error, whatever the other shards are, and no panic occurs.\<close>

lemma decode_wrong_index:
  assumes "hash_ordered ord" and "fmlookup shards i = Some s"
    and "total_shard_count w \<le> unat (sid_raw i)"
  shows "rs_wrapper_decode ft ord w shards = Err WrongShardId"
proof -
  have "fill_shards v xs = None" if "(i, s) \<in> set xs" "length v \<le> unat (sid_raw i)" for v xs
    using that
  proof (induction xs arbitrary: v)
    case (Cons x xs)
    then show ?case by (cases x) (auto simp: Let_def)
  qed simp
  moreover have "(i, s) \<in> set (ord shards)"
    using hash_iteration.ord_mem [OF hash_iteration.intro [OF assms(1)]] assms(2) by simp
  ultimately show ?thesis using assms(3) by (simp add: rs_wrapper_decode_def)
qed

text \<open>The mock encoding round-trips every data unit of the default build, and in the other two
  builds it panics on every data unit, because its piece size is fixed.\<close>

lemma mock_encoding_default_only:
  assumes "wf_data ft d" and "mock_data_shards_total s = 2" and "hash_ordered ord"
  shows "case mock_encode ft s d of
      Ok m \<Rightarrow> ft = Default_Array \<and> mock_decode ft ord m = Ok d
    | Err e \<Rightarrow> False
    | Panic \<Rightarrow> ft \<noteq> Default_Array"
proof (cases "ft = Default_Array")
  case True
  then obtain a b where ab: "as_inner_data d = a @ b" "length a = 4" "length b = 4"
    "chunks_exact 4 (as_inner_data d) = [a, b]"
    using mock_slices assms(1) by blast
  with True mock_encode_eq [OF ab assms(2)] mock_decode_pair [OF assms(3) ab(2,3)] show ?thesis
    by (cases d) simp
next
  case False
  obtain n where n: "length (as_inner_data d) = 4 * Suc n" and l: "shard_len ft \<noteq> 4"
  proof -
    have "length (as_inner_data d) = 4 * Suc 31 \<or> length (as_inner_data d) = 4 * Suc 8191"
      using assms(1) False by (cases ft) (simp_all add: wf_data_def data_len_eq)
    moreover have "shard_len ft \<noteq> 4" using False by (cases ft) simp_all
    ultimately show thesis using that by blast
  qed
  from chunks_props [OF _ n] obtain c cs where "chunks_exact 4 (as_inner_data d) = c # cs" "length c = 4"
    by (cases "chunks 4 (as_inner_data d)") (auto simp: chunks_exact_def)
  with l False show ?thesis by (simp add: mock_encode_def shard_try_from_def)
qed

end
