(* ===== verification/Swarm_Processor.thy ===== *)
theory Swarm_Processor
  imports Swarm_Program Swarm_Module Swarm_Encoding
begin

text \<open>
  Program execution: the shard processor of \<open>processor/single_threaded.rs\<close>, which reads and
  writes shards through the memory bus, and the mock processor of \<open>processor/mock.rs\<close>, which
  runs the same program on whole data. The locale \<open>memory_bus\<close> states what the processor needs
  of the memory; under it execution with prefetching refines a direct interpreter.
\<close>

subsection \<open>The memory bus, processor side\<close>

datatype ProcError =
    DataRequestChannelClosed
  | DataWriteChannelClosed
  | ResponseChannelClosed
  | EncodingError MockEncodingError
  | NoShardsAssigned

text \<open>
  The other half of the bus, as the processor sees it. A read request is refused when the
  channel is closed, stays unanswered when the response handle is dropped, or is answered; a
  write is accepted into the write channel or refused. \<open>'m\<close> is the state behind the bus.
\<close>

datatype bus_reply = RequestRefused | ResponseDropped | Response "Shard option"

record 'm MemoryBus =
  bus_request :: "Vid \<Rightarrow> 'm \<Rightarrow> bus_reply \<times> 'm"
  bus_store :: "Vid \<Rightarrow> Shard \<Rightarrow> 'm \<Rightarrow> bool \<times> 'm"

definition retrieve_local_shard ::
  "'m MemoryBus \<Rightarrow> Vid \<Rightarrow> 'm \<Rightarrow> (ProcError + Shard option) \<times> 'm" where
  "retrieve_local_shard bus data_id m =
     (case bus_request bus data_id m of
        (RequestRefused, m) \<Rightarrow> (Inl DataRequestChannelClosed, m)
      | (ResponseDropped, m) \<Rightarrow> (Inl ResponseChannelClosed, m)
      | (Response shard, m) \<Rightarrow> (Inr shard, m))"

definition store_local_shard ::
  "'m MemoryBus \<Rightarrow> Vid \<Rightarrow> Shard \<Rightarrow> 'm \<Rightarrow> (ProcError + unit) \<times> 'm" where
  "store_local_shard bus data_id shard m =
     (case bus_store bus data_id shard m of
        (True, m) \<Rightarrow> (Inr (), m)
      | (False, m) \<Rightarrow> (Inl DataWriteChannelClosed, m))"

subsection \<open>Calculation\<close>

text \<open>\<open>map_zip\<close>: a copy of \<open>a\<close> whose elements are overwritten along the zip with \<open>b\<close>.\<close>

fun map_zip :: "'a list \<Rightarrow> 'a list \<Rightarrow> ('a \<Rightarrow> 'a \<Rightarrow> 'a) \<Rightarrow> 'a list" where
  "map_zip [] bs f = []"
| "map_zip (a # as) [] f = a # as"
| "map_zip (a # as) (b # bs) f = f a b # map_zip as bs f"

definition nand_byte :: "u8 \<Rightarrow> u8 \<Rightarrow> u8" where
  "nand_byte a b = (if \<not> (a \<noteq> 0 \<and> b \<noteq> 0) then 1 else 0)"

definition nor_byte :: "u8 \<Rightarrow> u8 \<Rightarrow> u8" where
  "nor_byte a b = (if \<not> (a \<noteq> 0 \<or> b \<noteq> 0) then 1 else 0)"

definition calculate :: "rs_library \<Rightarrow> Shard Operation \<Rightarrow> Shard" where
  "calculate lib op =
     Shard (case op of
        Sub b \<Rightarrow> map_zip (as_inner_shard (first b)) (as_inner_shard (second b)) (galois_add lib)
      | Plus b \<Rightarrow> map_zip (as_inner_shard (first b)) (as_inner_shard (second b)) (galois_add lib)
      | Inv u \<Rightarrow> map (\<lambda>n. n) (as_inner_shard (operand u))
      | Nand b \<Rightarrow> map_zip (as_inner_shard (first b)) (as_inner_shard (second b)) nand_byte
      | Nor b \<Rightarrow> map_zip (as_inner_shard (first b)) (as_inner_shard (second b)) nor_byte)"

subsection \<open>Retrieval of operands\<close>

definition retrieve_operand ::
  "'m MemoryBus \<Rightarrow> Vid \<Rightarrow> Shard option \<Rightarrow> 'm \<Rightarrow> (ProcError + Shard option) \<times> 'm" where
  "retrieve_operand bus oper operand_context m =
     (case operand_context of
        Some s \<Rightarrow> (Inr (Some s), m)
      | None \<Rightarrow> retrieve_local_shard bus oper m)"

text \<open>With both operands missing the two requests are joined: both are made, in this order,
  and the first error wins.\<close>

fun retrieve_binary ::
  "'m MemoryBus \<Rightarrow> Vid BinaryOp \<Rightarrow> (Vid, Shard) HashMap \<Rightarrow> 'm
   \<Rightarrow> (ProcError + Shard BinaryOp option) \<times> 'm" where
  "retrieve_binary bus (BinaryOp a b) ctx m =
     (case (fmlookup ctx a, fmlookup ctx b) of
        (Some x, Some y) \<Rightarrow> (Inr (Some (BinaryOp x y)), m)
      | (Some x, None) \<Rightarrow>
          (case retrieve_operand bus b None m of
             (Inl e, m) \<Rightarrow> (Inl e, m)
           | (Inr None, m) \<Rightarrow> (Inr None, m)
           | (Inr (Some y), m) \<Rightarrow> (Inr (Some (BinaryOp x y)), m))
      | (None, Some y) \<Rightarrow>
          (case retrieve_operand bus a None m of
             (Inl e, m) \<Rightarrow> (Inl e, m)
           | (Inr None, m) \<Rightarrow> (Inr None, m)
           | (Inr (Some x), m) \<Rightarrow> (Inr (Some (BinaryOp x y)), m))
      | (None, None) \<Rightarrow>
          (let (ra, m) = retrieve_operand bus a None m;
               (rb, m) = retrieve_operand bus b None m
           in case ra of
                Inl e \<Rightarrow> (Inl e, m)
              | Inr oa \<Rightarrow>
                  (case rb of
                     Inl e \<Rightarrow> (Inl e, m)
                   | Inr ob \<Rightarrow>
                       (case (oa, ob) of
                          (Some x, Some y) \<Rightarrow> (Inr (Some (BinaryOp x y)), m)
                        | _ \<Rightarrow> (Inr None, m)))))"

fun retrieve_unary ::
  "'m MemoryBus \<Rightarrow> Vid UnaryOp \<Rightarrow> (Vid, Shard) HashMap \<Rightarrow> 'm
   \<Rightarrow> (ProcError + Shard UnaryOp option) \<times> 'm" where
  "retrieve_unary bus (UnaryOp a) ctx m =
     (case retrieve_operand bus a (fmlookup ctx a) m of
        (Inl e, m) \<Rightarrow> (Inl e, m)
      | (Inr None, m) \<Rightarrow> (Inr None, m)
      | (Inr (Some x), m) \<Rightarrow> (Inr (Some (UnaryOp x)), m))"

text \<open>\<open>.await?.ok_or(Error::NoShardsAssigned)?\<close> around a constructor.\<close>

fun ok_or_no_shards :: "('a \<Rightarrow> 'b) \<Rightarrow> (ProcError + 'a option) \<times> 'm \<Rightarrow> (ProcError + 'b) \<times> 'm" where
  "ok_or_no_shards c (Inl e, m) = (Inl e, m)"
| "ok_or_no_shards c (Inr None, m) = (Inl NoShardsAssigned, m)"
| "ok_or_no_shards c (Inr (Some x), m) = (Inr (c x), m)"

fun retrieve_operands ::
  "'m MemoryBus \<Rightarrow> Vid Operation \<Rightarrow> (Vid, Shard) HashMap \<Rightarrow> 'm
   \<Rightarrow> (ProcError + Shard Operation) \<times> 'm" where
  "retrieve_operands bus (Sub b) ctx m = ok_or_no_shards Sub (retrieve_binary bus b ctx m)"
| "retrieve_operands bus (Plus b) ctx m = ok_or_no_shards Plus (retrieve_binary bus b ctx m)"
| "retrieve_operands bus (Inv u) ctx m = ok_or_no_shards Inv (retrieve_unary bus u ctx m)"
| "retrieve_operands bus (Nand b) ctx m = ok_or_no_shards Nand (retrieve_binary bus b ctx m)"
| "retrieve_operands bus (Nor b) ctx m = ok_or_no_shards Nor (retrieve_binary bus b ctx m)"

subsection \<open>Execution\<close>

text \<open>The set of needed ids and the context are hash containers; their iteration orders are
  arguments.\<close>

record exec_orders =
  ids_order :: "Vid fset \<Rightarrow> Vid list"
  ctx_order :: "(Vid, Shard) hash_order"

definition exec_ordered :: "exec_orders \<Rightarrow> bool" where
  "exec_ordered o' \<longleftrightarrow> hash_ordered (ctx_order o')
     \<and> (\<forall>S. distinct (ids_order o' S) \<and> set (ids_order o' S) = fset S)"

definition needed_ids :: "Instructions \<Rightarrow> Vid fset" where
  "needed_ids program = fset_of_list (concat (map (\<lambda>ins. args_as_list (operation ins)) program))"

fun prefetch ::
  "'m MemoryBus \<Rightarrow> Vid list \<Rightarrow> (Vid, Shard) HashMap \<Rightarrow> 'm \<Rightarrow> (Vid, Shard) HashMap \<times> 'm" where
  "prefetch bus [] ctx m = (ctx, m)"
| "prefetch bus (vid # ids) ctx m =
     (case retrieve_operand bus vid None m of
        (Inr (Some val), m) \<Rightarrow> prefetch bus ids (fmupd vid val ctx) m
      | (_, m) \<Rightarrow> prefetch bus ids ctx m)"

definition prepare_context ::
  "exec_orders \<Rightarrow> 'm MemoryBus \<Rightarrow> Instructions \<Rightarrow> 'm \<Rightarrow> (Vid, Shard) HashMap \<times> 'm" where
  "prepare_context o' bus program m = prefetch bus (ids_order o' (needed_ids program)) fmempty m"

fun execute_instructions ::
  "rs_library \<Rightarrow> 'm MemoryBus \<Rightarrow> Instructions \<Rightarrow> (Vid, Shard) HashMap \<Rightarrow> 'm
   \<Rightarrow> (ProcError + Vid) list \<times> (Vid, Shard) HashMap \<times> 'm" where
  "execute_instructions lib bus [] ctx m = ([], ctx, m)"
| "execute_instructions lib bus (ins # program) ctx m =
     (case retrieve_operands bus (operation ins) ctx m of
        (Inl e, m) \<Rightarrow>
          (let (results, ctx, m) = execute_instructions lib bus program ctx m
           in (Inl e # results, ctx, m))
      | (Inr op, m) \<Rightarrow>
          (let out = calculate lib op;
               (results, ctx, m) = execute_instructions lib bus program (fmupd (result ins) out ctx) m
           in (Inr (result ins) # results, ctx, m)))"

fun save_results ::
  "'m MemoryBus \<Rightarrow> (Vid \<times> Shard) list \<Rightarrow> 'm \<Rightarrow> (ProcError + Vid) list \<times> 'm" where
  "save_results bus [] m = ([], m)"
| "save_results bus ((result_id, out) # rest) m =
     (case store_local_shard bus result_id out m of
        (Inl e, m) \<Rightarrow> (let (errs, m) = save_results bus rest m in (Inl e # errs, m))
      | (Inr _, m) \<Rightarrow> save_results bus rest m)"

definition execute ::
  "rs_library \<Rightarrow> exec_orders \<Rightarrow> 'm MemoryBus \<Rightarrow> Instructions \<Rightarrow> 'm
   \<Rightarrow> (ProcError + Vid) list \<times> 'm" where
  "execute lib o' bus program m =
     (let (ctx, m) = prepare_context o' bus program m;
          (results, ctx, m) = execute_instructions lib bus program ctx m;
          (errs, m) = save_results bus (ctx_order o' ctx) m
      in (results @ errs, m))"

subsection \<open>The processor task\<close>

datatype ProcModuleState = Ready_State | Executing_State

fun proc_accepts_input :: "ProcModuleState \<Rightarrow> bool" where
  "proc_accepts_input Ready_State = True"
| "proc_accepts_input Executing_State = False"

datatype ProcInEvent = Execute Program

datatype ProcOutEvent = FinishedExecution ProgramIdentifier "(ProcError + Vid) list"

text \<open>
  One iteration of \<open>run\<close> on a received input (\<open>None\<close>: the input channel is closed) or on the
  cancel signal. \<open>lk1\<close> and \<open>lk2\<close> say whether the two \<open>set_state\<close> calls time out on the state
  lock. The result says whether the loop goes on.
\<close>

record 'm ShardProcessor =
  memory_access :: "'m MemoryBus"
  module_state :: "ProcModuleState option"

datatype proc_select = Input "ProcInEvent option" | Cancelled

fun proc_run_step ::
  "rs_library \<Rightarrow> exec_orders \<Rightarrow> bool \<times> bool \<Rightarrow> proc_select
   \<Rightarrow> 'm ShardProcessor \<times> 'm \<times> ProcOutEvent sink
   \<Rightarrow> bool \<times> 'm ShardProcessor \<times> 'm \<times> ProcOutEvent sink" where
  "proc_run_step lib o' lks (Input None) (sp, m, c) = (False, sp, m, c)"
| "proc_run_step lib o' lks Cancelled (sp, m, c) = (False, sp, m, c)"
| "proc_run_step lib o' (lk1, lk2) (Input (Some (Execute program))) (sp, m, c) =
     (let sp = sp\<lparr>module_state := set_state lk1 Executing_State (module_state sp)\<rparr>;
          (ins, program_id) = program_into_parts program;
          (results, m) = execute lib o' (memory_access sp) ins m;
          (ok, c) = sink_send (FinishedExecution program_id results) c
      in if \<not> ok then (False, sp, m, c)
         else (True, sp\<lparr>module_state := set_state lk2 Ready_State (module_state sp)\<rparr>, m, c))"

subsection \<open>\<open>processor/mock.rs\<close>\<close>

datatype MockError = DataNotFound

definition mock_calculate :: "rs_library \<Rightarrow> Data Operation \<Rightarrow> Data" where
  "mock_calculate lib op =
     Data (case op of
        Sub b \<Rightarrow> map_zip (as_inner_data (first b)) (as_inner_data (second b)) (galois_add lib)
      | Plus b \<Rightarrow> map_zip (as_inner_data (first b)) (as_inner_data (second b)) (galois_add lib)
      | Inv u \<Rightarrow> map (\<lambda>n. n) (as_inner_data (operand u))
      | Nand b \<Rightarrow> map_zip (as_inner_data (first b)) (as_inner_data (second b))
                    (\<lambda>a b. if a = 0 \<or> b = 0 then 1 else 0)
      | Nor b \<Rightarrow> map_zip (as_inner_data (first b)) (as_inner_data (second b))
                    (\<lambda>a b. if a = 0 \<and> b = 0 then 1 else 0))"

definition mock_retrieve_operand :: "Vid \<Rightarrow> (Vid, Data) HashMap \<Rightarrow> MockError + Data" where
  "mock_retrieve_operand oper storage =
     (case fmlookup storage oper of None \<Rightarrow> Inl DataNotFound | Some d \<Rightarrow> Inr d)"

fun mock_retrieve_binary ::
  "Vid BinaryOp \<Rightarrow> (Vid, Data) HashMap \<Rightarrow> MockError + Data BinaryOp" where
  "mock_retrieve_binary (BinaryOp a b) storage =
     (case mock_retrieve_operand a storage of
        Inl e \<Rightarrow> Inl e
      | Inr x \<Rightarrow> (case mock_retrieve_operand b storage of
                    Inl e \<Rightarrow> Inl e
                  | Inr y \<Rightarrow> Inr (BinaryOp x y)))"

fun mock_retrieve_unary ::
  "Vid UnaryOp \<Rightarrow> (Vid, Data) HashMap \<Rightarrow> MockError + Data UnaryOp" where
  "mock_retrieve_unary (UnaryOp a) storage =
     (case mock_retrieve_operand a storage of Inl e \<Rightarrow> Inl e | Inr x \<Rightarrow> Inr (UnaryOp x))"

fun mock_retrieve_operands ::
  "Vid Operation \<Rightarrow> (Vid, Data) HashMap \<Rightarrow> MockError + Data Operation" where
  "mock_retrieve_operands (Sub b) storage = map_sum id Sub (mock_retrieve_binary b storage)"
| "mock_retrieve_operands (Plus b) storage = map_sum id Plus (mock_retrieve_binary b storage)"
| "mock_retrieve_operands (Inv u) storage = map_sum id Inv (mock_retrieve_unary u storage)"
| "mock_retrieve_operands (Nand b) storage = map_sum id Nand (mock_retrieve_binary b storage)"
| "mock_retrieve_operands (Nor b) storage = map_sum id Nor (mock_retrieve_binary b storage)"

text \<open>The storage is mutated in place: on an error the effects of the earlier instructions
  stay.\<close>

fun mock_run ::
  "rs_library \<Rightarrow> Instructions \<Rightarrow> (Vid, Data) HashMap \<Rightarrow> (MockError + unit) \<times> (Vid, Data) HashMap" where
  "mock_run lib [] storage = (Inr (), storage)"
| "mock_run lib (ins # program) storage =
     (case mock_retrieve_operands (operation ins) storage of
        Inl e \<Rightarrow> (Inl e, storage)
      | Inr op \<Rightarrow> mock_run lib program (fmupd (result ins) (mock_calculate lib op) storage))"

definition mock_execute_on ::
  "rs_library \<Rightarrow> Program \<Rightarrow> (Vid, Data) HashMap \<Rightarrow> (MockError + unit) \<times> (Vid, Data) HashMap" where
  "mock_execute_on lib program storage = mock_run lib (instructions program) storage"

subsection \<open>The reference interpreter\<close>

text \<open>
  A direct reading of a program on the shards a peer holds: an instruction with all operands
  present assigns its result, any other is skipped and reported.
\<close>

fun direct_run ::
  "rs_library \<Rightarrow> Instructions \<Rightarrow> (Vid \<Rightarrow> Shard option)
   \<Rightarrow> (ProcError + Vid) list \<times> (Vid \<Rightarrow> Shard option)" where
  "direct_run lib [] \<sigma> = ([], \<sigma>)"
| "direct_run lib (ins # program) \<sigma> =
     (case transpose_operation (map_operands \<sigma> ins) of
        None \<Rightarrow> (let (results, \<sigma>') = direct_run lib program \<sigma> in (Inl NoShardsAssigned # results, \<sigma>'))
      | Some ins' \<Rightarrow>
          (let (results, \<sigma>') =
                 direct_run lib program (\<sigma>(result ins \<mapsto> calculate lib (operation ins')))
           in (Inr (result ins) # results, \<sigma>')))"

subsection \<open>What the processor needs of the memory\<close>

text \<open>
  \<open>view m\<close> is the content that the memory behind the bus has once every accepted write is
  applied. A memory with no write under way (\<open>idle\<close>) answers reads from it; a memory with open
  channels (\<open>up\<close>) accepts every write.
\<close>

locale memory_bus =
  fixes bus :: "'m MemoryBus"
    and view :: "'m \<Rightarrow> Vid \<Rightarrow> Shard option"
    and idle up :: "'m \<Rightarrow> bool"
  assumes read_idle:
      "idle m \<Longrightarrow> \<exists>m'. bus_request bus v m = (Response (view m v), m') \<and> idle m' \<and> view m' = view m"
    and store_up:
      "up m \<Longrightarrow> \<exists>m'. bus_store bus v s m = (True, m') \<and> up m' \<and> view m' = (view m)(v \<mapsto> s)"
    and idle_up: "idle m \<Longrightarrow> up m"
begin

lemma retrieve_local_shard_idle:
  assumes "idle m"
  obtains m' where "retrieve_local_shard bus v m = (Inr (view m v), m')" "idle m'" "view m' = view m"
  using read_idle [OF assms, of v] by (auto simp: retrieve_local_shard_def)

text \<open>The operand a context and the memory give together.\<close>

lemma retrieve_operand_idle:
  assumes "idle m"
  obtains m' where
    "retrieve_operand bus v c m = (Inr (case c of Some s \<Rightarrow> Some s | None \<Rightarrow> view m v), m')"
    "idle m'" "view m' = view m"
  using assms
  by (cases c) (auto simp: retrieve_operand_def elim: retrieve_local_shard_idle [of m v])

lemma retrieve_binary_idle:
  assumes "idle m"
  obtains m' where
    "retrieve_binary bus b ctx m =
       (Inr (transpose_binary (BinaryOp ((view m ++ fmlookup ctx) (first b))
                                        ((view m ++ fmlookup ctx) (second b)))), m')"
    "idle m'" "view m' = view m"
proof -
  obtain x y where b: "b = BinaryOp x y" by (cases b)
  obtain m1 where m1: "retrieve_operand bus x None m = (Inr (view m x), m1)" "idle m1" "view m1 = view m"
    using retrieve_operand_idle [OF assms, of x None] by auto
  obtain m2 where m2: "retrieve_operand bus y None m1 = (Inr (view m y), m2)" "idle m2" "view m2 = view m"
    using retrieve_operand_idle [OF m1(2), of y None] m1(3) by auto
  obtain m3 where m3: "retrieve_operand bus y None m = (Inr (view m y), m3)" "idle m3" "view m3 = view m"
    using retrieve_operand_idle [OF assms, of y None] by auto
  show ?thesis
    using that m1 m2 m3 assms
    by (cases "fmlookup ctx x"; cases "fmlookup ctx y"; cases "view m x"; cases "view m y")
      (auto simp: b map_add_def)
qed

lemma retrieve_unary_idle:
  assumes "idle m"
  obtains m' where
    "retrieve_unary bus u ctx m =
       (Inr (transpose_unary (UnaryOp ((view m ++ fmlookup ctx) (operand u)))), m')"
    "idle m'" "view m' = view m"
proof -
  obtain x where u: "u = UnaryOp x" by (cases u)
  obtain m1 where
    "retrieve_operand bus x (fmlookup ctx x) m
       = (Inr (case fmlookup ctx x of Some s \<Rightarrow> Some s | None \<Rightarrow> view m x), m1)"
    "idle m1" "view m1 = view m"
    using retrieve_operand_idle [OF assms] by blast
  then show ?thesis
    using that [of m1] by (cases "fmlookup ctx x"; cases "view m x") (auto simp: u map_add_def)
qed

lemma retrieve_operands_idle:
  fixes ins :: "(Vid, Vid) Instruction"
  assumes "idle m"
  obtains m' where
    "retrieve_operands bus (operation ins) ctx m =
       (case transpose_operation (map_operands (view m ++ fmlookup ctx) ins) of
          None \<Rightarrow> Inl NoShardsAssigned | Some ins' \<Rightarrow> Inr (operation ins'), m')"
    "idle m'" "view m' = view m"
proof -
  let ?\<sigma> = "view m ++ fmlookup ctx"
  have bin: thesis
    if ret: "retrieve_operands bus (operation ins) ctx m = ok_or_no_shards D (retrieve_binary bus b ctx m)"
      and tr: "transpose_operation (map_operands ?\<sigma> ins)
        = map_option (\<lambda>b. \<lparr>operation = D b, result = result ins\<rparr>)
          (transpose_binary (BinaryOp (?\<sigma> (first b)) (?\<sigma> (second b))))" for D b
  proof -
    obtain m' where "retrieve_binary bus b ctx m
        = (Inr (transpose_binary (BinaryOp (?\<sigma> (first b)) (?\<sigma> (second b)))), m')"
      "idle m'" "view m' = view m" by (rule retrieve_binary_idle [OF assms])
    then show thesis
      using \<open>\<And>m'. _ \<Longrightarrow> idle m' \<Longrightarrow> _ \<Longrightarrow> thesis\<close> [of m'] ret tr
      by (cases "transpose_binary (BinaryOp (?\<sigma> (first b)) (?\<sigma> (second b)))") simp_all
  qed
  have un: thesis if op: "operation ins = Inv u" for u
  proof -
    obtain m' where "retrieve_unary bus u ctx m
        = (Inr (transpose_unary (UnaryOp (?\<sigma> (operand u)))), m')"
      "idle m'" "view m' = view m" by (rule retrieve_unary_idle [OF assms])
    then show thesis
      using \<open>\<And>m'. _ \<Longrightarrow> idle m' \<Longrightarrow> _ \<Longrightarrow> thesis\<close> [of m']
      by (cases "?\<sigma> (operand u)") (simp_all add: op transpose_operation_def map_operands_def)
  qed
  show thesis
  proof (cases "operation ins")
    case (Sub b)
    then show ?thesis by (intro bin [of Sub b]) (simp_all add: transpose_operation_def map_operands_def)
  next
    case (Plus b)
    then show ?thesis by (intro bin [of Plus b]) (simp_all add: transpose_operation_def map_operands_def)
  next
    case (Inv u)
    then show ?thesis by (rule un)
  next
    case (Nand b)
    then show ?thesis by (intro bin [of Nand b]) (simp_all add: transpose_operation_def map_operands_def)
  next
    case (Nor b)
    then show ?thesis by (intro bin [of Nor b]) (simp_all add: transpose_operation_def map_operands_def)
  qed
qed

text \<open>The loop over the instructions keeps the memory as it is and collects in the context what
  the direct interpreter assigns.\<close>

lemma execute_instructions_refines:
  assumes "idle m"
  obtains rs ctx' m' where "execute_instructions lib bus program ctx m = (rs, ctx', m')"
    "idle m'" "view m' = view m"
    "direct_run lib program (view m ++ fmlookup ctx) = (rs, view m ++ fmlookup ctx')"
  using assms
proof (induction program arbitrary: ctx m thesis)
  case Nil
  then show ?case by simp
next
  case (Cons ins program)
  let ?\<sigma> = "view m ++ fmlookup ctx"
  obtain m1 where m1: "retrieve_operands bus (operation ins) ctx m =
       (case transpose_operation (map_operands ?\<sigma> ins) of
          None \<Rightarrow> Inl NoShardsAssigned | Some ins' \<Rightarrow> Inr (operation ins'), m1)"
    "idle m1" "view m1 = view m" by (rule retrieve_operands_idle [OF Cons.prems(2)])
  show ?case
  proof (cases "transpose_operation (map_operands ?\<sigma> ins)")
    case None
    obtain rs ctx' m' where "execute_instructions lib bus program ctx m1 = (rs, ctx', m')"
      "idle m'" "view m' = view m1"
      "direct_run lib program (view m1 ++ fmlookup ctx) = (rs, view m1 ++ fmlookup ctx')"
      by (rule Cons.IH [OF _ m1(2)])
    with m1 None show ?thesis by (intro Cons.prems(1) [of "Inl NoShardsAssigned # rs" ctx' m']) simp_all
  next
    case (Some ins')
    let ?ctx = "fmupd (result ins) (calculate lib (operation ins')) ctx"
    obtain rs ctx' m' where "execute_instructions lib bus program ?ctx m1 = (rs, ctx', m')"
      "idle m'" "view m' = view m1"
      "direct_run lib program (view m1 ++ fmlookup ?ctx) = (rs, view m1 ++ fmlookup ctx')"
      by (rule Cons.IH [OF _ m1(2)])
    moreover have "view m1 ++ fmlookup ?ctx = ?\<sigma>(result ins \<mapsto> calculate lib (operation ins'))"
      by (auto simp: m1(3) fun_eq_iff map_add_def)
    ultimately show ?thesis
      using m1 Some by (intro Cons.prems(1) [of "Inr (result ins) # rs" ctx' m']) simp_all
  qed
qed

lemma prefetch_idle:
  assumes "idle m" and "\<And>v s. fmlookup ctx v = Some s \<Longrightarrow> view m v = Some s"
  obtains ctx' m' where "prefetch bus ids ctx m = (ctx', m')" "idle m'" "view m' = view m"
    "\<And>v s. fmlookup ctx' v = Some s \<Longrightarrow> view m v = Some s"
  using assms
proof (induction ids arbitrary: ctx m thesis)
  case Nil
  then show ?case by simp
next
  case (Cons vid ids)
  obtain m1 where m1: "retrieve_operand bus vid None m = (Inr (view m vid), m1)"
    "idle m1" "view m1 = view m"
    using retrieve_operand_idle [OF Cons.prems(2), of vid None] by auto
  define ctx1 where "ctx1 = (case view m vid of None \<Rightarrow> ctx | Some val \<Rightarrow> fmupd vid val ctx)"
  have step: "prefetch bus (vid # ids) ctx m = prefetch bus ids ctx1 m1"
    by (simp add: m1 ctx1_def split: option.splits)
  have "view m1 v = Some s" if "fmlookup ctx1 v = Some s" for v s
    using that Cons.prems(3) by (auto simp: m1 ctx1_def split: option.splits if_splits)
  from Cons.IH [OF _ m1(2) this] obtain ctx' m' where "prefetch bus ids ctx1 m1 = (ctx', m')"
    "idle m'" "view m' = view m1" "\<And>v s. fmlookup ctx' v = Some s \<Longrightarrow> view m1 v = Some s"
    by blast
  with step m1(3) show ?case by (intro Cons.prems(1) [of ctx' m']) auto
qed

lemma save_results_up:
  assumes "up m"
  obtains m' where "save_results bus xs m = ([], m')" "up m'" "view m' = view m ++ map_of (rev xs)"
  using assms
proof (induction xs arbitrary: m thesis)
  case Nil
  then show ?case by simp
next
  case (Cons x xs)
  obtain v s where x: "x = (v, s)" by force
  obtain m1 where m1: "bus_store bus v s m = (True, m1)" "up m1" "view m1 = (view m)(v \<mapsto> s)"
    using store_up [OF Cons.prems(2)] by blast
  obtain m' where "save_results bus xs m1 = ([], m')" "up m'" "view m' = view m1 ++ map_of (rev xs)"
    by (rule Cons.IH [OF _ m1(2)])
  with m1 show ?case
    by (intro Cons.prems(1) [of m'])
      (auto simp: x store_local_shard_def map_add_def fun_eq_iff split: option.splits)
qed

text \<open>Executing a program with prefetched operands and one write-back at the end has the results
  and the final memory of the direct interpreter, for every iteration order.\<close>

lemma execute_refines:
  assumes "exec_ordered o'" and "idle m"
  obtains rs m' where "execute lib o' bus program m = (rs, m')" "up m'"
    "direct_run lib program (view m) = (rs, view m')"
proof -
  obtain ctx m1 where pc: "prefetch bus (ids_order o' (needed_ids program)) fmempty m = (ctx, m1)"
    "idle m1" "view m1 = view m" "\<And>v s. fmlookup ctx v = Some s \<Longrightarrow> view m v = Some s"
    using prefetch_idle [OF assms(2), of fmempty "ids_order o' (needed_ids program)"] by auto
  obtain rs ctx' m2 where ex: "execute_instructions lib bus program ctx m1 = (rs, ctx', m2)"
    "idle m2" "view m2 = view m1"
    "direct_run lib program (view m1 ++ fmlookup ctx) = (rs, view m1 ++ fmlookup ctx')"
    by (rule execute_instructions_refines [OF pc(2)])
  obtain m3 where sv: "save_results bus (ctx_order o' ctx') m2 = ([], m3)" "up m3"
    "view m3 = view m2 ++ map_of (rev (ctx_order o' ctx'))"
    by (rule save_results_up [OF idle_up [OF ex(2)]])
  have "hash_iteration (ctx_order o')"
    using assms(1) by (intro hash_iteration.intro) (simp add: exec_ordered_def)
  then have "map_of (rev (ctx_order o' ctx')) = fmlookup ctx'"
    by (simp add: map_of_eqI_rev hash_iteration.ord_distinct hash_iteration.ord_lookup)
  moreover have "view m ++ fmlookup ctx = view m"
    using pc(4) by (auto simp: fun_eq_iff map_add_def split: option.splits)
  ultimately show ?thesis
    using pc ex sv by (intro that [of rs m3]) (simp_all add: execute_def prepare_context_def)
qed

end

subsection \<open>Shard-wise execution against execution on whole data\<close>

text \<open>Operations that commute with the code: every one of them on a data shard, the linear ones
  on a parity shard too.\<close>

fun linear_op :: "'o Operation \<Rightarrow> bool" where
  "linear_op (Sub _) = True"
| "linear_op (Plus _) = True"
| "linear_op (Inv _) = True"
| "linear_op (Nand _) = False"
| "linear_op (Nor _) = False"

definition commutes_at :: "Sid \<Rightarrow> 'o Operation \<Rightarrow> bool" where
  "commutes_at i op \<longleftrightarrow> linear_op op \<or> unat (sid_raw i) < 2"

text \<open>The shard with index \<open>i\<close> of a data unit, and the shards a peer with that index holds of a
  store of whole data.\<close>

definition shard_of :: "array_feature \<Rightarrow> ReedSolomonWrapper \<Rightarrow> Sid \<Rightarrow> Data \<Rightarrow> Shard option" where
  "shard_of ft w i d = (case rs_wrapper_encode ft w d of Ok m \<Rightarrow> fmlookup m i | _ \<Rightarrow> None)"

definition shard_view ::
  "array_feature \<Rightarrow> ReedSolomonWrapper \<Rightarrow> Sid \<Rightarrow> (Vid, Data) HashMap \<Rightarrow> Vid \<Rightarrow> Shard option" where
  "shard_view ft w i store v = Option.bind (fmlookup store v) (shard_of ft w i)"

definition wf_store :: "array_feature \<Rightarrow> (Vid, Data) HashMap \<Rightarrow> bool" where
  "wf_store ft store \<longleftrightarrow> (\<forall>v d. fmlookup store v = Some d \<longrightarrow> wf_data ft d)"

lemma map_zip_map2: "length as = length bs \<Longrightarrow> map_zip as bs f = map2 f as bs"
  by (induction as bs rule: list_induct2) simp_all

lemma map_zip_length [simp]: "length (map_zip as bs f) = length as"
  by (induction as bs f rule: map_zip.induct) simp_all

text \<open>The two processors write NAND and NOR differently; they compute the same byte.\<close>

lemma mock_byte_ops:
  "nand_byte a b = (if a = 0 \<or> b = 0 then 1 else 0)"
  "nor_byte a b = (if a = 0 \<and> b = 0 then 1 else 0)"
  by (auto simp: nand_byte_def nor_byte_def)

lemma calculate_wf:
  "(\<And>s. s \<in> set (args_as_list op) \<Longrightarrow> wf_shard ft s) \<Longrightarrow> wf_shard ft (calculate lib op)"
  by (cases op rule: args_as_list.cases) (simp_all add: calculate_def wf_shard_def)

lemma mock_calculate_wf:
  "(\<And>d. d \<in> set (args_as_list op) \<Longrightarrow> wf_data ft d) \<Longrightarrow> wf_data ft (mock_calculate lib op)"
  by (cases op rule: args_as_list.cases) (simp_all add: mock_calculate_def wf_data_def)

lemma mock_retrieve_transpose:
  fixes ins :: "(Vid, Vid) Instruction"
  shows "mock_retrieve_operands (operation ins) store =
     (case transpose_operation (map_operands (fmlookup store) ins) of
        None \<Rightarrow> Inl DataNotFound | Some ins' \<Rightarrow> Inr (operation ins'))"
proof -
  have b: "mock_retrieve_binary b store =
      (case transpose_binary (BinaryOp (fmlookup store (first b)) (fmlookup store (second b))) of
         None \<Rightarrow> Inl DataNotFound | Some c \<Rightarrow> Inr c)" for b
    by (cases b) (auto simp: mock_retrieve_operand_def split: option.splits)
  have u: "mock_retrieve_unary u store =
      (case transpose_unary (UnaryOp (fmlookup store (operand u))) of
         None \<Rightarrow> Inl DataNotFound | Some c \<Rightarrow> Inr c)" for u
    by (cases u) (auto simp: mock_retrieve_operand_def split: option.splits)
  show ?thesis
    by (cases "operation ins")
      (auto simp: b u transpose_operation_def map_operands_def split: option.splits)
qed

lemma transpose_args:
  assumes "transpose_operation (map_operands \<sigma> ins) = Some ins'"
  shows "map \<sigma> (args_as_list (operation ins)) = map Some (args_as_list (operation ins'))"
  using assms by (metis args_map_operands transpose_operation_Some)

text \<open>Every operation is the identity on one argument or a byte operation along two.\<close>

fun byte_op :: "rs_library \<Rightarrow> 'o Operation \<Rightarrow> u8 \<Rightarrow> u8 \<Rightarrow> u8" where
  "byte_op lib (Sub _) = galois_add lib"
| "byte_op lib (Plus _) = galois_add lib"
| "byte_op lib (Inv _) = (\<lambda>a b. a)"
| "byte_op lib (Nand _) = nand_byte"
| "byte_op lib (Nor _) = nor_byte"

lemma args_cases:
  obtains u where "args_as_list op = [u]" | u v where "args_as_list op = [u, v]"
  by (cases op rule: args_as_list.cases) auto

lemma calculate_args:
  assumes "\<And>x y. x \<in> set (args_as_list op) \<Longrightarrow> y \<in> set (args_as_list op)
    \<Longrightarrow> length (as_inner_shard x) = length (as_inner_shard y)"
  shows "calculate lib op =
    (case args_as_list op of [x] \<Rightarrow> x | [x, y] \<Rightarrow> shard_zip (byte_op lib op) x y)"
  using assms
  by (cases op rule: args_as_list.cases) (simp_all add: calculate_def shard_zip_def map_zip_map2)

lemma mock_calculate_args:
  assumes "\<And>x y. x \<in> set (args_as_list op) \<Longrightarrow> y \<in> set (args_as_list op)
    \<Longrightarrow> length (as_inner_data x) = length (as_inner_data y)"
  shows "mock_calculate lib op =
    (case args_as_list op of [x] \<Rightarrow> x | [x, y] \<Rightarrow> data_zip (byte_op lib op) x y)"
  using assms
  by (cases op rule: args_as_list.cases)
    (simp_all add: mock_calculate_def data_zip_def map_zip_map2 mock_byte_ops cong: map_cong)

lemma transpose_operation_None:
  "transpose_operation (map_operands \<sigma> ins) = None
     \<longleftrightarrow> (\<exists>v\<in>set (args_as_list (operation ins)). \<sigma> v = None)"
  by (cases "operation ins" rule: args_as_list.cases; cases "\<sigma> (hd (args_as_list (operation ins)))";
      cases "\<sigma> (last (args_as_list (operation ins)))")
    (simp_all add: transpose_operation_def map_operands_def)

lemma transpose_byte_op:
  assumes "transpose_operation (map_operands \<sigma> ins) = Some ins'"
  shows "byte_op lib (operation ins') = byte_op lib (operation ins)"
  using assms
  by (cases "operation ins") (auto simp: transpose_operation_def map_operands_def)

context rs_wrapper
begin

lemma shard_of_index:
  assumes "wf_data ft d"
  shows "shard_of ft w i d \<noteq> None \<longleftrightarrow> unat (sid_raw i) < total_shard_count w"
proof -
  obtain out where "length out = total_shard_count w"
    and enc: "rs_wrapper_encode ft w d = Ok (hm_collect (number_shards (map Shard out)))"
    by (rule encode_rows_out [OF assms])
  then show ?thesis
    using encoded_lookup [of out "sid_raw i"] by (simp add: shard_of_def split: if_splits)
qed

lemma shard_of_zip:
  assumes wf: "wf_data ft a" "wf_data ft b"
    and xy: "shard_of ft w i a = Some x" "shard_of ft w i b = Some y"
    and f: "f = galois_add (inner w) \<or> unat (sid_raw i) < 2"
  shows "shard_of ft w i (data_zip f a b) = Some (shard_zip f x y)"
proof -
  obtain ma mb where m: "rs_wrapper_encode ft w a = Ok ma" "rs_wrapper_encode ft w b = Ok mb"
    "fmlookup ma i = Some x" "fmlookup mb i = Some y"
    using xy by (auto simp: shard_of_def split: outcome.splits)
  from f show ?thesis
  proof
    assume f: "f = galois_add (inner w)"
    obtain mc where "rs_wrapper_encode ft w (data_zip f a b) = Ok mc"
      "\<And>i. fmlookup mc i = (case (fmlookup ma i, fmlookup mb i) of
          (Some x, Some y) \<Rightarrow> Some (shard_zip f x y) | _ \<Rightarrow> None)"
      using encode_zip_linear [OF wf m(1,2)] f by blast
    with m show ?thesis by (simp add: shard_of_def)
  next
    assume i: "unat (sid_raw i) < 2"
    have wfc: "wf_data ft (data_zip f a b)"
      using wf by (simp add: wf_data_def data_zip_def)
    then obtain mc where mc: "rs_wrapper_encode ft w (data_zip f a b) = Ok mc"
      using wrapper.enc_total by blast
    from encode_zip_data_shard [OF wf m(1,2) mc i] m(3,4) mc show ?thesis
      by (auto simp: shard_of_def)
  qed
qed

lemma shard_of_wf:
  assumes "wf_data ft d" and "shard_of ft w i d = Some x"
  shows "wf_shard ft x"
proof -
  obtain out where out: "length out = total_shard_count w" "\<forall>r\<in>set out. length r = shard_len ft"
    and enc: "rs_wrapper_encode ft w d = Ok (hm_collect (number_shards (map Shard out)))"
    by (rule encode_rows_out [OF assms(1)])
  then show ?thesis
    using assms(2) encoded_lookup [OF out(1), of "sid_raw i"]
    by (auto simp: shard_of_def wf_shard_def split: if_splits)
qed

lemma shard_view_Some:
  assumes "wf_store ft store" and "unat (sid_raw i) < total_shard_count w"
    and "fmlookup store v = Some a"
  obtains x where "shard_of ft w i a = Some x" "shard_view ft w i store v = Some x"
    "wf_data ft a" "wf_shard ft x"
  using assms shard_of_index [of a i] shard_of_wf [of a i]
  by (auto simp: shard_view_def wf_store_def)

lemma transpose_shard_view:
  assumes wf: "wf_store ft store" and i: "unat (sid_raw i) < total_shard_count w"
    and d: "transpose_operation (map_operands (fmlookup store) ins) = Some insD"
  obtains insS where "transpose_operation (map_operands (shard_view ft w i store) ins) = Some insS"
    "list_all2 (\<lambda>a x. shard_of ft w i a = Some x \<and> wf_data ft a \<and> wf_shard ft x)
       (args_as_list (operation insD)) (args_as_list (operation insS))"
proof -
  let ?\<sigma> = "shard_view ft w i store"
  have argsD: "map (fmlookup store) (args_as_list (operation ins))
      = map Some (args_as_list (operation insD))" by (rule transpose_args [OF d])
  have "?\<sigma> v \<noteq> None" if v: "v \<in> set (args_as_list (operation ins))" for v
  proof -
    have "fmlookup store v \<in> set (map Some (args_as_list (operation insD)))"
      using v unfolding argsD [symmetric] by auto
    then obtain a where "fmlookup store v = Some a" by auto
    then show ?thesis by (rule shard_view_Some [OF wf i]) simp
  qed
  then obtain insS where S: "transpose_operation (map_operands ?\<sigma> ins) = Some insS"
    using transpose_operation_None [of ?\<sigma> ins] by fastforce
  have argsS: "map ?\<sigma> (args_as_list (operation ins)) = map Some (args_as_list (operation insS))"
    by (rule transpose_args [OF S])
  have "list_all2 (\<lambda>a x. shard_of ft w i a = Some x \<and> wf_data ft a \<and> wf_shard ft x)
       (args_as_list (operation insD)) (args_as_list (operation insS))"
  proof (rule list_all2_all_nthI)
    show "length (args_as_list (operation insD)) = length (args_as_list (operation insS))"
      using argsD argsS by (metis length_map)
    fix n assume "n < length (args_as_list (operation insD))"
    then have "fmlookup store (args_as_list (operation ins) ! n) = Some (args_as_list (operation insD) ! n)"
      and "?\<sigma> (args_as_list (operation ins) ! n) = Some (args_as_list (operation insS) ! n)"
      using argsD argsS by (metis length_map nth_map)+
    then show "shard_of ft w i (args_as_list (operation insD) ! n) = Some (args_as_list (operation insS) ! n)
        \<and> wf_data ft (args_as_list (operation insD) ! n) \<and> wf_shard ft (args_as_list (operation insS) ! n)"
      using shard_view_Some [OF wf i] by (metis option.inject)
  qed
  with S show ?thesis by (rule that)
qed

lemma calculate_commutes:
  assumes com: "commutes_at i (operation ins)" and wf: "wf_store ft store"
    and i: "unat (sid_raw i) < total_shard_count w"
    and d: "transpose_operation (map_operands (fmlookup store) ins) = Some insD"
  obtains insS where "transpose_operation (map_operands (shard_view ft w i store) ins) = Some insS"
    "shard_of ft w i (mock_calculate (inner w) (operation insD))
       = Some (calculate (inner w) (operation insS))"
    "wf_data ft (mock_calculate (inner w) (operation insD))"
proof -
  obtain insS where S: "transpose_operation (map_operands (shard_view ft w i store) ins) = Some insS"
    and args: "list_all2 (\<lambda>a x. shard_of ft w i a = Some x \<and> wf_data ft a \<and> wf_shard ft x)
       (args_as_list (operation insD)) (args_as_list (operation insS))"
    by (rule transpose_shard_view [OF wf i d])
  note bytes = transpose_byte_op [OF d] transpose_byte_op [OF S]
  have wfs: "\<And>a. a \<in> set (args_as_list (operation insD)) \<Longrightarrow> wf_data ft a"
    "\<And>x. x \<in> set (args_as_list (operation insS)) \<Longrightarrow> wf_shard ft x"
    using args by (auto simp: list_all2_conv_all_nth in_set_conv_nth)
  have cD: "mock_calculate (inner w) (operation insD) = (case args_as_list (operation insD) of
      [a] \<Rightarrow> a | [a, b] \<Rightarrow> data_zip (byte_op (inner w) (operation ins)) a b)"
    unfolding bytes(1) [symmetric] by (rule mock_calculate_args) (simp add: wfs(1) [unfolded wf_data_def])
  have cS: "calculate (inner w) (operation insS) = (case args_as_list (operation insS) of
      [x] \<Rightarrow> x | [x, y] \<Rightarrow> shard_zip (byte_op (inner w) (operation ins)) x y)"
    unfolding bytes(2) [symmetric] by (rule calculate_args) (simp add: wfs(2) [unfolded wf_shard_def])
  have "shard_of ft w i (mock_calculate (inner w) (operation insD))
       = Some (calculate (inner w) (operation insS))"
  proof (cases "operation insD" rule: args_cases)
    case (1 a)
    with args cD cS show ?thesis by (auto simp: list_all2_Cons1)
  next
    case (2 a b)
    have "byte_op (inner w) (operation ins) = galois_add (inner w) \<or> unat (sid_raw i) < 2"
      using com 2 transpose_args [OF d] by (cases "operation ins" rule: args_as_list.cases)
        (auto simp: commutes_at_def)
    with args cD cS 2 show ?thesis by (auto simp: list_all2_Cons1 intro: shard_of_zip)
  qed
  moreover have "wf_data ft (mock_calculate (inner w) (operation insD))"
    by (rule mock_calculate_wf [OF wfs(1)])
  ultimately show ?thesis using S that by blast
qed

text \<open>A program that succeeds on whole data succeeds on the shards of index \<open>i\<close>, with the shards
  of the resulting data as its result.\<close>

lemma direct_run_commutes:
  assumes "\<And>ins. ins \<in> set program \<Longrightarrow> commutes_at i (operation ins)" and "wf_store ft store"
    and "unat (sid_raw i) < total_shard_count w"
    and "mock_run (inner w) program store = (Inr (), store')"
  shows "direct_run (inner w) program (shard_view ft w i store)
    = (map (\<lambda>ins. Inr (result ins)) program, shard_view ft w i store') \<and> wf_store ft store'"
  using assms
proof (induction program arbitrary: store)
  case Nil
  then show ?case by simp
next
  case (Cons ins program)
  obtain insD where D: "transpose_operation (map_operands (fmlookup store) ins) = Some insD"
    using Cons.prems(4) by (auto simp: mock_retrieve_transpose split: option.splits)
  obtain insS where S: "transpose_operation (map_operands (shard_view ft w i store) ins) = Some insS"
    "shard_of ft w i (mock_calculate (inner w) (operation insD))
       = Some (calculate (inner w) (operation insS))"
    "wf_data ft (mock_calculate (inner w) (operation insD))"
    using calculate_commutes [OF _ Cons.prems(2,3) D] Cons.prems(1) by auto
  let ?store = "fmupd (result ins) (mock_calculate (inner w) (operation insD)) store"
  have "shard_view ft w i ?store
      = (shard_view ft w i store)(result ins \<mapsto> calculate (inner w) (operation insS))"
    by (simp add: fun_eq_iff shard_view_def S(2))
  moreover have "direct_run (inner w) program (shard_view ft w i ?store)
      = (map (\<lambda>ins. Inr (result ins)) program, shard_view ft w i store') \<and> wf_store ft store'"
    using Cons.prems S(3) D
    by (intro Cons.IH) (auto simp: wf_store_def mock_retrieve_transpose)
  ultimately show ?case by (simp add: S(1))
qed

text \<open>Two shards determine the data, and are two shards of some data whatever they are, when one is a data shard.\<close>

lemma decode_two:
  assumes "wf_data ft d" and "i \<noteq> j" and "shard_of ft w i d = Some x" and "shard_of ft w j d = Some y"
  shows "rs_wrapper_decode ft ord w (fmap_of_list [(i, x), (j, y)]) = Ok d"
proof -
  obtain m where m: "rs_wrapper_encode ft w d = Ok m" "fmlookup m i = Some x" "fmlookup m j = Some y"
    using assms(3,4) by (auto simp: shard_of_def split: outcome.splits)
  with assms(2) show ?thesis
    by (intro decode_part [OF assms(1) m(1)]) (auto simp: fmsubset_alt_def hm_len_upd fmpred_iff)
qed

lemma shard_of_row:
  assumes "length a = shard_len ft" and "length b = shard_len ft"
  shows "shard_of ft w (Sid 0) (Data (a @ b)) = Some (Shard a)" "shard_of ft w (Sid 1) (Data (a @ b)) = Some (Shard b)"
proof -
  have d: "wf_data ft (Data (a @ b))" using assms by (simp add: wf_data_def data_len_eq)
  have "a \<noteq> []" "b \<noteq> []" using assms shard_len_pos [of ft] by (metis less_irrefl list.size(3))+
  then have "chunks (shard_len ft) (a @ b) = [a, b]" using assms by (simp add: chunks.simps)
  then obtain out where out: "length out = total_shard_count w" "take 2 out = [a, b]"
      "rs_wrapper_encode ft w (Data (a @ b)) = Ok (hm_collect (number_shards (map Shard out)))"
    using encode_rows_out [OF d] by auto
  have "out ! 0 = take 2 out ! 0" "out ! 1 = take 2 out ! 1" by simp_all
  then have "out ! 0 = a" "out ! 1 = b" unfolding out(2) by simp_all
  then show "shard_of ft w (Sid 0) (Data (a @ b)) = Some (Shard a)" "shard_of ft w (Sid 1) (Data (a @ b)) = Some (Shard b)"
    using encoded_lookup [OF out(1), of 0] encoded_lookup [OF out(1), of 1] out(3) two_data
    by (simp_all add: shard_of_def total_shard_count_def)
qed

lemma completing_row:
  fixes D :: "u8 list \<Rightarrow> Data"
  assumes D: "\<And>v. length v = shard_len ft \<Longrightarrow> wf_data ft (D v) \<and> shard_of ft w j (D v) = Some z" "inj_on D {v. length v = shard_len ft}"
    and i: "i \<noteq> j" "unat (sid_raw i) < total_shard_count w" and q: "length q = shard_len ft"
  shows "\<exists>v. length v = shard_len ft \<and> shard_of ft w i (D v) = Some (Shard q)"
proof -
  let ?V = "{v :: u8 list. length v = shard_len ft}"
  let ?f = "\<lambda>v. as_inner_shard (the (shard_of ft w i (D v)))"
  have f: "shard_of ft w i (D v) = Some (Shard (?f v)) \<and> length (?f v) = shard_len ft" if "v \<in> ?V" for v
    using shard_of_index [of "D v" i] shard_of_wf [of "D v" i] D(1) [of v] that i(2) by (auto simp: wf_shard_def)
  have "inj_on ?f ?V"
  proof (rule inj_onI)
    fix v v' assume v: "v \<in> ?V" "v' \<in> ?V" "?f v = ?f v'"
    have "rs_wrapper_decode ft ord w (fmap_of_list [(i, Shard (?f v)), (j, z)]) = Ok (D v)" if "v \<in> ?V" for v
      by (rule decode_two [OF _ i(1)]) (use f [OF that] D(1) [of v] that in simp_all)
    from this [OF v(1)] this [OF v(2)] v(3) have "D v = D v'" by simp
    with v D(2) show "v = v'" by (auto dest: inj_onD)
  qed
  moreover have "finite ?V" using finite_lists_length_eq [of "UNIV :: u8 set"] by simp
  moreover have "?f ` ?V \<subseteq> ?V" using f by blast
  ultimately have "?f ` ?V = ?V" by (intro endo_inj_surj)
  with q obtain v where "v \<in> ?V" "?f v = q" by (metis (mono_tags, lifting) imageE mem_Collect_eq)
  with f show ?thesis by blast
qed

lemma data_with_shards:
  assumes i: "2 \<le> unat (sid_raw i)" "unat (sid_raw i) < total_shard_count w" and len: "length z = shard_len ft" "length q = shard_len ft"
  shows "\<exists>v. length v = shard_len ft \<and> shard_of ft w i (Data (z @ v)) = Some (Shard q)"
    and "\<exists>v. length v = shard_len ft \<and> shard_of ft w i (Data (v @ z)) = Some (Shard q)"
proof -
  have ne: "i \<noteq> Sid 0" "i \<noteq> Sid 1" using i(1) by auto
  show "\<exists>v. length v = shard_len ft \<and> shard_of ft w i (Data (z @ v)) = Some (Shard q)"
    by (rule completing_row [OF _ _ ne(1) i(2) len(2)])
      (use len shard_of_row in \<open>auto simp: inj_on_def wf_data_def data_len_eq\<close>)
  show "\<exists>v. length v = shard_len ft \<and> shard_of ft w i (Data (v @ z)) = Some (Shard q)"
    by (rule completing_row [OF _ _ ne(2) i(2) len(2)])
      (use len shard_of_row in \<open>auto simp: inj_on_def wf_data_def data_len_eq\<close>)
qed

text \<open>The parity shards of zeros are zeros.\<close>

lemma zero_data_shard:
  assumes "unat (sid_raw i) < total_shard_count w"
  shows "shard_of ft w i (Data (replicate (data_len ft) 0)) = Some (Shard (replicate (shard_len ft) 0))"
proof -
  let ?o = "Data (replicate (data_len ft) 0)"
  have o: "wf_data ft ?o" by (simp add: wf_data_def)
  then obtain x where x: "shard_of ft w i ?o = Some x" "wf_shard ft x"
    using shard_of_index [OF o, of i] shard_of_wf [OF o, of i] assms by auto
  have self: "map2 (galois_add (inner w)) xs xs = replicate (length xs) 0" for xs
    by (induction xs) (simp_all add: add_self)
  have "data_zip (galois_add (inner w)) ?o ?o = ?o" by (simp add: data_zip_def add_self)
  with shard_of_zip [OF o o x(1) x(1), of "galois_add (inner w)"] x(2) show ?thesis
    by (simp add: shard_zip_def self wf_shard_def)
qed

lemma nand_with_zeros:
  "length xs = n \<Longrightarrow> map2 nand_byte (replicate n 0) xs = replicate n 1"
  "length xs = n \<Longrightarrow> map2 nand_byte xs (replicate n 0) = replicate n 1"
  by (induction n arbitrary: xs; auto simp: mock_byte_ops length_Suc_conv)+

text \<open>Data whose NAND is all ones, and whose parity shards are all ones.\<close>

lemma crossed_data:
  assumes i: "2 \<le> unat (sid_raw i)" "unat (sid_raw i) < total_shard_count w"
  obtains a b where "wf_data ft a" "wf_data ft b" "shard_of ft w i a = Some (Shard (replicate (shard_len ft) 1))"
    "shard_of ft w i b = Some (Shard (replicate (shard_len ft) 1))"
    "data_zip nand_byte a b = Data (replicate (data_len ft) 1)"
proof -
  let ?n = "shard_len ft"
  obtain u where u: "length u = ?n" "shard_of ft w i (Data (u @ replicate ?n 0)) = Some (Shard (replicate ?n 1))"
    using data_with_shards(2) [OF i, of "replicate ?n 0" "replicate ?n 1"] by auto
  obtain v where v: "length v = ?n" "shard_of ft w i (Data (replicate ?n 0 @ v)) = Some (Shard (replicate ?n 1))"
    using data_with_shards(1) [OF i, of "replicate ?n 0" "replicate ?n 1"] by auto
  have "data_zip nand_byte (Data (u @ replicate ?n 0)) (Data (replicate ?n 0 @ v)) = Data (replicate (data_len ft) 1)"
    using u(1) v(1) by (simp add: data_zip_def nand_with_zeros data_len_eq replicate_add [symmetric] mult_2)
  from that [OF _ _ u(2) v(2) this] show ?thesis by (simp add: wf_data_def data_len_eq u(1) v(1))
qed

text \<open>All ones with another parity shard than their own decode to other data.\<close>

lemma ones_with_parity:
  assumes i: "2 \<le> unat (sid_raw i)" "unat (sid_raw i) < total_shard_count w"
    and q: "length q = shard_len ft" "shard_of ft w i (Data (replicate (data_len ft) 1)) \<noteq> Some (Shard q)"
  shows "\<exists>d. rs_wrapper_decode ft ord w (fmap_of_list [(Sid 0, Shard (replicate (shard_len ft) 1)), (i, Shard q)]) = Ok d
    \<and> d \<noteq> Data (replicate (data_len ft) 1)"
proof -
  let ?one = "replicate (shard_len ft) (1 :: u8)"
  obtain v where v: "length v = shard_len ft" "shard_of ft w i (Data (?one @ v)) = Some (Shard q)"
    using data_with_shards(1) [OF i, of ?one q] q(1) by auto
  have "rs_wrapper_decode ft ord w (fmap_of_list [(Sid 0, Shard ?one), (i, Shard q)]) = Ok (Data (?one @ v))"
    by (rule decode_two [OF _ _ _ v(2)]) (use i(1) v(1) shard_of_row(1) in \<open>auto simp: wf_data_def data_len_eq\<close>)
  moreover have "Data (?one @ v) \<noteq> Data (replicate (data_len ft) 1)" using v(2) q(2) by metis
  ultimately show ?thesis by blast
qed

end

subsection \<open>Properties\<close>

text \<open>C40: the logical operations do not pass to parity shards, whatever the code: for every code with the laws of the
  crate and every parity shard there are two data units for which the first data shard of their NAND and the NAND of their
  parity shards, which the peers compute without error, decode to wrong data.\<close>

theorem nand_breaks_parity:
  assumes "rs_wrapper w ord" and "2 \<le> unat (sid_raw i)" and "unat (sid_raw i) < total_shard_count w"
  shows "\<exists>a b x y z d. wf_data ft a \<and> wf_data ft b \<and> shard_of ft w i a = Some x \<and> shard_of ft w i b = Some y
    \<and> shard_of ft w (Sid 0) (mock_calculate (inner w) (Nand (BinaryOp a b))) = Some z
    \<and> rs_wrapper_decode ft ord w (fmap_of_list [(Sid 0, z), (i, calculate (inner w) (Nand (BinaryOp x y)))]) = Ok d
    \<and> d \<noteq> mock_calculate (inner w) (Nand (BinaryOp a b))"
proof -
  let ?n = "shard_len ft" and ?o = "Data (replicate (data_len ft) 1)" and ?z = "Data (replicate (data_len ft) 0)"
  let ?one = "replicate ?n (1 :: u8)" and ?zero = "replicate ?n (0 :: u8)"
  have o: "?o = Data (?one @ ?one)" by (simp add: data_len_eq replicate_add [symmetric] mult_2)
  have z: "shard_of ft w (Sid 0) ?o = Some (Shard ?one)"
    unfolding o using rs_wrapper.shard_of_row(1) [OF assms(1)] by simp
  have dec: "\<exists>d. rs_wrapper_decode ft ord w (fmap_of_list [(Sid 0, Shard ?one), (i, Shard q)]) = Ok d \<and> d \<noteq> ?o"
    if "length q = ?n" "shard_of ft w i ?o \<noteq> Some (Shard q)" for q
    by (rule rs_wrapper.ones_with_parity [OF assms that])
  have nand: "mock_calculate (inner w) (Nand (BinaryOp a b)) = data_zip nand_byte a b"
    if "wf_data ft a" "wf_data ft b" for a b
    using that by (subst mock_calculate_args) (auto simp: wf_data_def)
  have snand: "calculate (inner w) (Nand (BinaryOp (Shard x) (Shard y))) = Shard (map2 nand_byte x y)"
    if "length x = ?n" "length y = ?n" for x y
    using that by (subst calculate_args) (auto simp: shard_zip_def)
  show ?thesis
  proof (cases "shard_of ft w i ?o = Some (Shard ?one)")
    case True
    obtain a b where ab: "wf_data ft a" "wf_data ft b" "shard_of ft w i a = Some (Shard ?one)"
        "shard_of ft w i b = Some (Shard ?one)" "data_zip nand_byte a b = ?o"
      by (rule rs_wrapper.crossed_data [OF assms])
    have "map2 nand_byte ?one ?one = ?zero" by (simp add: zip_replicate mock_byte_ops)
    moreover obtain d where "rs_wrapper_decode ft ord w (fmap_of_list [(Sid 0, Shard ?one), (i, Shard ?zero)]) = Ok d" "d \<noteq> ?o"
      using dec [of ?zero] True by auto
    ultimately show ?thesis using ab z nand [OF ab(1,2)] snand [of ?one ?one]
      by (intro exI [of _ a] exI [of _ b] exI [of _ "Shard ?one"] exI [of _ "Shard ?one"] exI [of _ "Shard ?one"] exI [of _ d]) simp
  next
    case False
    have wz: "wf_data ft ?z" by (simp add: wf_data_def)
    have "data_zip nand_byte ?z ?z = ?o" "map2 nand_byte ?zero ?zero = ?one"
      by (simp_all add: data_zip_def zip_replicate mock_byte_ops)
    moreover obtain d where "rs_wrapper_decode ft ord w (fmap_of_list [(Sid 0, Shard ?one), (i, Shard ?one)]) = Ok d" "d \<noteq> ?o"
      using dec [of ?one] False by auto
    ultimately show ?thesis
      using z nand [OF wz wz] snand [of ?zero ?zero] wz rs_wrapper.zero_data_shard [OF assms(1,3), of ft]
      by (intro exI [of _ ?z] exI [of _ ?z] exI [of _ "Shard ?zero"] exI [of _ "Shard ?zero"] exI [of _ "Shard ?one"] exI [of _ d]) simp
  qed
qed

theorem nand_breaks_parity_witness:
  "\<exists>a b x y z d. wf_data Default_Array a \<and> wf_data Default_Array b
    \<and> shard_of Default_Array parity_wrapper (Sid 2) a = Some x \<and> shard_of Default_Array parity_wrapper (Sid 2) b = Some y
    \<and> shard_of Default_Array parity_wrapper (Sid 0) (mock_calculate (inner parity_wrapper) (Nand (BinaryOp a b))) = Some z
    \<and> rs_wrapper_decode Default_Array sorted_list_of_fmap parity_wrapper
        (fmap_of_list [(Sid 0, z), (Sid 2, calculate (inner parity_wrapper) (Nand (BinaryOp x y)))]) = Ok d
    \<and> d \<noteq> mock_calculate (inner parity_wrapper) (Nand (BinaryOp a b))"
  by (rule nand_breaks_parity [OF parity_crate]) (simp_all add: total_shard_count_def)

text \<open>C14: a program that succeeds on whole data units succeeds on the shards with index \<open>i\<close> of the
  same data, every instruction reporting its result, and ends with the shards of the resulting
  data; linear operations for every shard index, all operations for the two data shards.\<close>

theorem shardwise_execution:
  assumes "rs_wrapper w ord" and "\<And>ins. ins \<in> set program \<Longrightarrow> commutes_at i (operation ins)"
    and "wf_store ft store" and "unat (sid_raw i) < total_shard_count w"
    and "mock_run (inner w) program store = (Inr (), store')"
  shows "direct_run (inner w) program (shard_view ft w i store)
    = (map (\<lambda>ins. Inr (result ins)) program, shard_view ft w i store') \<and> wf_store ft store'"
  by (rule rs_wrapper.direct_run_commutes [OF assms])

theorem shardwise_execution_witness:
  "wf_store Default_Array (snd (mock_run parity_library [instr_nand (Vid 1) (Vid 1) (Vid 2)]
     (fmap_of_list [(Vid 1, Data [1, 2, 3, 4, 0, 6, 7, 8])])))"
proof (rule shardwise_execution [where i = "Sid 1", OF parity_crate, THEN conjunct2])
  let ?p = "[instr_nand (Vid 1) (Vid 1) (Vid 2)]" and ?s = "fmap_of_list [(Vid 1, Data [1, 2, 3, 4, 0, 6, 7, 8])]"
  have "fst (mock_run parity_library ?p ?s) = Inr ()" by code_simp
  then show "mock_run (inner parity_wrapper) ?p ?s = (Inr (), snd (mock_run parity_library ?p ?s))"
    by (metis prod.collapse ReedSolomonWrapper.select_convs(1))
qed (auto simp: commutes_at_def total_shard_count_def wf_store_def wf_data_def data_len_eq split: if_splits)

end
