(* ===== verification/Swarm_Data_Memory.thy ===== *)
theory Swarm_Data_Memory
  imports Swarm_Processor
begin

text \<open>
  The data memory of \<open>data_memory/mod.rs\<close>: distribution of freshly encoded shards, storage of
  the assigned shards, tracking of confirmed locations, and recollection of data. Every branch
  of the event loops is a definition; sends may fail, and the results of the steps say how the
  task goes on. What is proved of it is in \<open>Swarm_Recollection\<close> and \<open>Swarm_Distribution\<close>.
\<close>

subsection \<open>Events\<close>

type_synonym FullShardId = "Vid \<times> Sid"

datatype RecollectionError = UnkonwnDataId | RecollectNotEnoughShards

datatype DmOutEvent =
    DmInitialized
  | PreparedServiceResponse Vid
  | OutServeShardRequest FullShardId PeerId
  | OutServeShardResponse FullShardId "Shard option"
  | AssignedStoreSuccess FullShardId
  | DistributionSufficient Vid
  | DistributionFull Vid
  | OutAssignedResponse FullShardId "Shard option"
  | OutAssignedRequest FullShardId PeerId
  | OutListDistributed "(Vid \<times> (Sid, PeerId) HashMap) list"
  | RecollectResponse "RecollectionError + Vid \<times> Data"

datatype DmInEvent =
    Initialize "(PeerId \<times> Sid) list"
  | PrepareServiceRequest Vid Data
  | StorageRequestTx Vid PeerId
  | InServeShardResponse FullShardId "Shard option"
  | InServeShardRequest FullShardId
  | StoreConfirmed FullShardId PeerId
  | InAssignedRequest FullShardId
  | InAssignedResponse FullShardId "Shard option"
  | InListDistributed
  | RecollectRequest Vid
  | PeerShardsActualized PeerId "Vid list"

text \<open>The build, and the iteration orders of the hash maps that are iterated.\<close>

record dm_env =
  feature :: array_feature
  shards_order :: "(Sid, Shard) hash_order"
  locations_order :: "(Sid, PeerId) hash_order"
  known_order :: "(Vid, (Sid, PeerId) HashMap) hash_order"

definition env_ordered :: "dm_env \<Rightarrow> bool" where
  "env_ordered env \<longleftrightarrow> hash_ordered (shards_order env) \<and> hash_ordered (locations_order env)
     \<and> hash_ordered (known_order env)"

subsection \<open>State\<close>

text \<open>The memory bus is a pair of channels; what they deliver are the inputs of the steps below.\<close>

record UninitializedDataMemory =
  un_encoding :: ReedSolomonWrapper
  un_local_id :: PeerId

record InitializedDataMemory =
  local_storage :: "(Vid, (Sid, Shard) HashMap) HashMap"
  to_distribute :: "(Vid, (Sid, Shard) HashMap) HashMap"
  currently_assembled :: "(Vid, (Sid, Shard) HashMap) HashMap"
  distribution :: "(PeerId, Sid) HashMap"
  data_known_locations :: "(Vid, (Sid, PeerId) HashMap) HashMap"
  local_id :: PeerId
  encoding :: ReedSolomonWrapper

definition UninitializedDataMemory_new ::
  "bool \<Rightarrow> rs_library \<Rightarrow> PeerId \<Rightarrow> Settings \<Rightarrow> (RsError, UninitializedDataMemory) outcome" where
  "UninitializedDataMemory_new oc lib this_id encoding_settings =
     bind_outcome (rs_wrapper_new oc lib encoding_settings)
       (\<lambda>enc. Ok \<lparr>un_encoding = enc, un_local_id = this_id\<rparr>)"

definition verify_distribution :: "UninitializedDataMemory \<Rightarrow> (PeerId, Sid) HashMap \<Rightarrow> bool" where
  "verify_distribution un distr =
     (let shard_ids = fmran distr;
          expected_ids = fset_of_list (map (\<lambda>i. Sid (of_nat i))
            [0..<unat (data_shards_total (rs_wrapper_settings (un_encoding un)))])
      in shard_ids = expected_ids)"

definition initialize ::
  "UninitializedDataMemory \<Rightarrow> (PeerId, Sid) HashMap \<Rightarrow> InitializedDataMemory" where
  "initialize un distr =
     \<lparr>local_storage = fmempty, to_distribute = fmempty, currently_assembled = fmempty,
      distribution = distr, data_known_locations = fmempty,
      local_id = un_local_id un, encoding = un_encoding un\<rparr>"

subsection \<open>Operations on the state\<close>

definition assigned_shard_id :: "InitializedDataMemory \<Rightarrow> Sid option" where
  "assigned_shard_id dm = fmlookup (distribution dm) (local_id dm)"

definition get_shard :: "FullShardId \<Rightarrow> InitializedDataMemory \<Rightarrow> Shard option" where
  "get_shard full_shard_id dm = hm_get2 (local_storage dm) (fst full_shard_id) (snd full_shard_id)"

definition store_shard ::
  "FullShardId \<Rightarrow> Shard \<Rightarrow> InitializedDataMemory \<Rightarrow> Shard option \<times> InitializedDataMemory" where
  "store_shard full_shard_id data dm =
     (hm_get2 (local_storage dm) (fst full_shard_id) (snd full_shard_id),
      dm\<lparr>local_storage := hm_insert2 (fst full_shard_id) (snd full_shard_id) data (local_storage dm)\<rparr>)"

definition remove_shard ::
  "FullShardId \<Rightarrow> InitializedDataMemory \<Rightarrow> Shard option \<times> InitializedDataMemory" where
  "remove_shard full_shard_id dm =
     (case fmlookup (local_storage dm) (fst full_shard_id) of
        None \<Rightarrow> (None, dm)
      | Some shards \<Rightarrow>
          (fmlookup shards (snd full_shard_id),
           dm\<lparr>local_storage := fmupd (fst full_shard_id) (fmdrop (snd full_shard_id) shards)
                 (local_storage dm)\<rparr>))"

text \<open>A location other than the expected one is only logged.\<close>

definition observe_new_location ::
  "FullShardId \<Rightarrow> PeerId \<Rightarrow> InitializedDataMemory \<Rightarrow> InitializedDataMemory" where
  "observe_new_location full_shard_id location dm =
     (let dm = (case fmlookup (to_distribute dm) (fst full_shard_id) of
                  None \<Rightarrow> dm
                | Some distributed_shards \<Rightarrow>
                    dm\<lparr>to_distribute := fmupd (fst full_shard_id)
                         (fmdrop (snd full_shard_id) distributed_shards) (to_distribute dm)\<rparr>)
      in dm\<lparr>data_known_locations :=
               hm_insert2 (fst full_shard_id) (snd full_shard_id) location (data_known_locations dm)\<rparr>)"

definition prepare_to_serve_shards ::
  "Vid \<Rightarrow> (Sid, Shard) HashMap \<Rightarrow> InitializedDataMemory \<Rightarrow> InitializedDataMemory" where
  "prepare_to_serve_shards data_id shards dm =
     dm\<lparr>to_distribute := fmupd data_id shards (to_distribute dm)\<rparr>"

definition serve_shard :: "FullShardId \<Rightarrow> InitializedDataMemory \<Rightarrow> Shard option" where
  "serve_shard full_shard_id dm = hm_get2 (to_distribute dm) (fst full_shard_id) (snd full_shard_id)"

subsection \<open>Handlers\<close>

text \<open>How a handler ends: \<open>HandleResult\<close> of the source, and the panic of an \<open>expect\<close> or
  \<open>unwrap\<close> below it.\<close>

datatype HandleResult = HandleOk | HandleAbort | HandlePanic

type_synonym dm_conf = "InitializedDataMemory \<times> DmOutEvent sink"

fun handle_serve_shard_response ::
  "FullShardId \<Rightarrow> Shard option \<Rightarrow> dm_conf \<Rightarrow> HandleResult \<times> dm_conf" where
  "handle_serve_shard_response full_shard_id None (dm, c) = (HandleOk, dm, c)"
| "handle_serve_shard_response full_shard_id (Some shard) (dm, c) =
     (let (_, dm) = store_shard full_shard_id shard dm;
          (ok, c) = sink_send (AssignedStoreSuccess full_shard_id) c
      in (if ok then HandleOk else HandleAbort, dm, c))"

definition sufficient_shards_n :: "InitializedDataMemory \<Rightarrow> nat" where
  "sufficient_shards_n dm = unat (data_shards_sufficient (rs_wrapper_settings (encoding dm)))"

definition total_shards_n :: "InitializedDataMemory \<Rightarrow> nat" where
  "total_shards_n dm = unat (data_shards_total (rs_wrapper_settings (encoding dm)))"

fun handle_assigned_response ::
  "dm_env \<Rightarrow> FullShardId \<Rightarrow> Shard option \<Rightarrow> dm_conf \<Rightarrow> HandleResult \<times> dm_conf" where
  "handle_assigned_response env full_shard_id None (dm, c) = (HandleOk, dm, c)"
| "handle_assigned_response env (vid, sid) (Some shard) (dm, c) =
     (case fmlookup (currently_assembled dm) vid of
        None \<Rightarrow> (HandleOk, dm, c)
      | Some received_shards \<Rightarrow>
          (case fmlookup received_shards sid of
             Some _ \<Rightarrow> (HandleOk, dm, c)
           | None \<Rightarrow>
               (let shards = fmupd sid shard received_shards in
                if hm_len shards \<ge> sufficient_shards_n dm then
                  (let dm = dm\<lparr>currently_assembled := fmdrop vid (currently_assembled dm)\<rparr> in
                   case rs_wrapper_decode (feature env) (shards_order env) (encoding dm) shards of
                     Panic \<Rightarrow> (HandlePanic, dm, c)
                   | Err _ \<Rightarrow> (HandleOk, dm, c)
                   | Ok data \<Rightarrow>
                       (let (ok, c) = sink_send (RecollectResponse (Inr (vid, data))) c
                        in (if ok then HandleOk else HandleAbort, dm, c)))
                else (HandleOk, dm\<lparr>currently_assembled :=
                        fmupd vid shards (currently_assembled dm)\<rparr>, c))))"

subsection \<open>The event loop\<close>

text \<open>How an iteration ends: go on, leave the loop, cancel the shared shutdown token and leave
  it, or panic.\<close>

datatype dm_ctl = Dm_Continue | Dm_Return | Dm_Cancel | Dm_Panic

fun handled :: "HandleResult \<times> dm_conf \<Rightarrow> dm_ctl \<times> dm_conf" where
  "handled (HandleOk, s) = (Dm_Continue, s)"
| "handled (HandleAbort, s) = (Dm_Cancel, s)"
| "handled (HandlePanic, s) = (Dm_Panic, s)"

text \<open>\<open>if connection.output.send(e).await.is_err() { return; }\<close>\<close>

fun send_or_return :: "DmOutEvent \<Rightarrow> dm_conf \<Rightarrow> dm_ctl \<times> dm_conf" where
  "send_or_return e (dm, c) =
     (let (ok, c) = sink_send e c in (if ok then Dm_Continue else Dm_Return, dm, c))"

fun on_prepare_service :: "dm_env \<Rightarrow> Vid \<Rightarrow> Data \<Rightarrow> dm_conf \<Rightarrow> dm_ctl \<times> dm_conf" where
  "on_prepare_service env data_id data (dm, c) =
     (case rs_wrapper_encode (feature env) (encoding dm) data of
        Ok shards \<Rightarrow>
          send_or_return (PreparedServiceResponse data_id) (prepare_to_serve_shards data_id shards dm, c)
      | _ \<Rightarrow> (Dm_Panic, dm, c))"

fun on_storage_request_tx :: "Vid \<Rightarrow> PeerId \<Rightarrow> dm_conf \<Rightarrow> dm_ctl \<times> dm_conf" where
  "on_storage_request_tx data_id author (dm, c) =
     (case assigned_shard_id dm of
        None \<Rightarrow> (Dm_Continue, dm, c)
      | Some assigned_sid \<Rightarrow>
          if author = local_id dm then
            handled (handle_serve_shard_response (data_id, assigned_sid)
              (serve_shard (data_id, assigned_sid) dm) (dm, c))
          else send_or_return (OutServeShardRequest (data_id, assigned_sid) author) (dm, c))"

fun on_store_confirmed :: "FullShardId \<Rightarrow> PeerId \<Rightarrow> dm_conf \<Rightarrow> dm_ctl \<times> dm_conf" where
  "on_store_confirmed full_shard_id location (dm, c) =
     (let dm = observe_new_location full_shard_id location dm in
      case fmlookup (data_known_locations dm) (fst full_shard_id) of
        None \<Rightarrow> (Dm_Continue, dm, c)
      | Some this_data_locations \<Rightarrow>
          (let (ok, c) = (if hm_len this_data_locations = sufficient_shards_n dm
                          then sink_send (DistributionSufficient (fst full_shard_id)) c
                          else (True, c))
           in if \<not> ok then (Dm_Return, dm, c)
              else if hm_len this_data_locations = total_shards_n dm
              then send_or_return (DistributionFull (fst full_shard_id))
                     (dm\<lparr>to_distribute := fmdrop (fst full_shard_id) (to_distribute dm)\<rparr>, c)
              else (Dm_Continue, dm, c)))"

fun on_list_distributed :: "dm_env \<Rightarrow> dm_conf \<Rightarrow> dm_ctl \<times> dm_conf" where
  "on_list_distributed env (dm, c) =
     send_or_return (OutListDistributed (filter (\<lambda>(_, locations). hm_len locations \<ge> sufficient_shards_n dm)
       (known_order env (data_known_locations dm)))) (dm, c)"

text \<open>The loop over the known locations: a shard of its own the peer handles at once, the others
  it requests.\<close>

fun request_shards ::
  "dm_env \<Rightarrow> Vid \<Rightarrow> (Sid \<times> PeerId) list \<Rightarrow> dm_conf \<Rightarrow> dm_ctl \<times> dm_conf" where
  "request_shards env data_id [] s = (Dm_Continue, s)"
| "request_shards env data_id ((shard_id, owner) # rest) (dm, c) =
     (case (if owner = local_id dm
            then handled (handle_assigned_response env (data_id, shard_id)
                   (get_shard (data_id, shard_id) dm) (dm, c))
            else send_or_return (OutAssignedRequest (data_id, shard_id) owner) (dm, c)) of
        (Dm_Continue, s) \<Rightarrow> request_shards env data_id rest s
      | stop \<Rightarrow> stop)"

fun on_recollect_request :: "dm_env \<Rightarrow> Vid \<Rightarrow> dm_conf \<Rightarrow> dm_ctl \<times> dm_conf" where
  "on_recollect_request env data_id (dm, c) =
     (case fmlookup (data_known_locations dm) data_id of
        None \<Rightarrow> send_or_return (RecollectResponse (Inl UnkonwnDataId)) (dm, c)
      | Some known_locations \<Rightarrow>
          if hm_len known_locations < sufficient_shards_n dm
          then send_or_return (RecollectResponse (Inl RecollectNotEnoughShards)) (dm, c)
          else (case fmlookup (currently_assembled dm) data_id of
                  Some _ \<Rightarrow> (Dm_Continue, dm, c)
                | None \<Rightarrow>
                    request_shards env data_id (locations_order env known_locations)
                      (dm\<lparr>currently_assembled := fmupd data_id fmempty (currently_assembled dm)\<rparr>, c)))"

fun on_peer_shards_actualized :: "PeerId \<Rightarrow> Vid list \<Rightarrow> dm_conf \<Rightarrow> dm_ctl \<times> dm_conf" where
  "on_peer_shards_actualized peer updated_data_ids (dm, c) =
     (case fmlookup (distribution dm) peer of
        None \<Rightarrow> (Dm_Return, dm, c)
      | Some expected_shard_id \<Rightarrow>
          (Dm_Continue,
           dm\<lparr>data_known_locations :=
                fold (\<lambda>data_id m. hm_insert2 data_id expected_shard_id peer m) updated_data_ids
                  (data_known_locations dm)\<rparr>, c))"

fun dm_event :: "dm_env \<Rightarrow> DmInEvent \<Rightarrow> dm_conf \<Rightarrow> dm_ctl \<times> dm_conf" where
  "dm_event env (Initialize _) s = (Dm_Continue, s)"
| "dm_event env (PrepareServiceRequest data_id data) s = on_prepare_service env data_id data s"
| "dm_event env (StorageRequestTx data_id author) s = on_storage_request_tx data_id author s"
| "dm_event env (InServeShardRequest full_shard_id) s =
     send_or_return (OutServeShardResponse full_shard_id (serve_shard full_shard_id (fst s))) s"
| "dm_event env (InServeShardResponse full_shard_id shard) s =
     handled (handle_serve_shard_response full_shard_id shard s)"
| "dm_event env (StoreConfirmed full_shard_id location) s =
     on_store_confirmed full_shard_id location s"
| "dm_event env (InAssignedRequest full_shard_id) s =
     send_or_return (OutAssignedResponse full_shard_id (get_shard full_shard_id (fst s))) s"
| "dm_event env InListDistributed s = on_list_distributed env s"
| "dm_event env (RecollectRequest data_id) s = on_recollect_request env data_id s"
| "dm_event env (InAssignedResponse full_shard_id shard) s =
     handled (handle_assigned_response env full_shard_id shard s)"
| "dm_event env (PeerShardsActualized peer updated_data_ids) s =
     on_peer_shards_actualized peer updated_data_ids s"

text \<open>The two bus branches. A read is answered with the first of the shards stored under the id;
  a write goes to the assigned shard, if there is one.\<close>

definition bus_read :: "dm_env \<Rightarrow> Vid \<Rightarrow> InitializedDataMemory \<Rightarrow> Shard option" where
  "bus_read env data_id dm =
     (let shards = (case fmlookup (local_storage dm) data_id of
                      None \<Rightarrow> [] | Some mapping \<Rightarrow> map snd (shards_order env mapping))
      in case shards of [] \<Rightarrow> None | shard # _ \<Rightarrow> Some shard)"

definition bus_write :: "Vid \<times> Shard \<Rightarrow> InitializedDataMemory \<Rightarrow> InitializedDataMemory" where
  "bus_write write_request dm =
     (case assigned_shard_id dm of
        None \<Rightarrow> dm
      | Some assigned_sid \<Rightarrow> snd (store_shard (fst write_request, assigned_sid) (snd write_request) dm))"

text \<open>An iteration of \<open>run\<close> on the branch that \<open>select!\<close> takes; \<open>None\<close> is a closed channel. The
  third component collects the answers to bus reads.\<close>

datatype dm_select =
    DmInput "DmInEvent option"
  | BusRead "Vid option"
  | BusWrite "(Vid \<times> Shard) option"

type_synonym bus_answers = "(Vid \<times> Shard option) list"

fun dm_run_step ::
  "dm_env \<Rightarrow> dm_select \<Rightarrow> dm_conf \<times> bus_answers \<Rightarrow> dm_ctl \<times> dm_conf \<times> bus_answers" where
  "dm_run_step env (DmInput None) (s, answers) = (Dm_Return, s, answers)"
| "dm_run_step env (DmInput (Some e)) (s, answers) =
     (let (ctl, s) = dm_event env e s in (ctl, s, answers))"
| "dm_run_step env (BusRead None) (s, answers) = (Dm_Return, s, answers)"
| "dm_run_step env (BusRead (Some data_id)) ((dm, c), answers) =
     (Dm_Continue, (dm, c), answers @ [(data_id, bus_read env data_id dm)])"
| "dm_run_step env (BusWrite None) (s, answers) = (Dm_Return, s, answers)"
| "dm_run_step env (BusWrite (Some write_request)) ((dm, c), answers) =
     (Dm_Continue, (bus_write write_request dm, c), answers)"

fun dm_run ::
  "dm_env \<Rightarrow> dm_select list \<Rightarrow> dm_conf \<times> bus_answers \<Rightarrow> dm_ctl \<times> dm_conf \<times> bus_answers" where
  "dm_run env [] s = (Dm_Continue, s)"
| "dm_run env (x # xs) s =
     (case dm_run_step env x s of (Dm_Continue, s) \<Rightarrow> dm_run env xs s | stop \<Rightarrow> stop)"

subsection \<open>Before initialization\<close>

datatype un_result = UnContinue | UnClosed | UnInit InitializedDataMemory

fun un_run_step ::
  "dm_select \<Rightarrow> UninitializedDataMemory \<Rightarrow> DmOutEvent sink \<Rightarrow> un_result \<times> DmOutEvent sink" where
  "un_run_step (DmInput (Some (Initialize distr))) un c =
     (let distr = hm_collect distr in
      if \<not> verify_distribution un distr then (UnContinue, c)
      else (case sink_send DmInitialized c of
              (False, c) \<Rightarrow> (UnClosed, c)
            | (True, c) \<Rightarrow> (UnInit (initialize un distr), c)))"
| "un_run_step (DmInput None) un c = (UnClosed, c)"
| "un_run_step (BusRead None) un c = (UnClosed, c)"
| "un_run_step (BusWrite None) un c = (UnClosed, c)"
| "un_run_step _ un c = (UnContinue, c)"

text \<open>\<open>DistributedDataMemory::run\<close>: the uninitialized loop, then the initialized one. Reads are
  answered only by the second; before, the response handles are dropped. The shutdown token
  ends both.\<close>

fun ddm_run ::
  "dm_env \<Rightarrow> dm_select option list \<Rightarrow> UninitializedDataMemory \<Rightarrow> DmOutEvent sink
   \<Rightarrow> (dm_ctl \<times> dm_conf \<times> bus_answers) option \<times> DmOutEvent sink" where
  "ddm_run env [] un c = (None, c)"
| "ddm_run env (None # _) un c = (None, c)"
| "ddm_run env (Some x # xs) un c =
     (case un_run_step x un c of
        (UnContinue, c) \<Rightarrow> ddm_run env xs un c
      | (UnClosed, c) \<Rightarrow> (None, c)
      | (UnInit dm, c) \<Rightarrow>
          (let r = dm_run env (map the (takeWhile (\<lambda>x. x \<noteq> None) xs)) ((dm, c), [])
           in (Some r, snd (fst (snd r)))))"

end
