(* ===== verification/Swarm_Recollection.thy ===== *)
theory Swarm_Recollection
  imports Swarm_Data_Memory
begin

text \<open>
  What the data memory holds and returns, against the content of the system: the contract
  \<open>content_memory\<close>, kept by every event. Recollection gives only true data, and gives it exactly once
  when enough shards have come in.
\<close>

subsection \<open>What a data memory holds and says, against the content of the system\<close>

text \<open>
  \<open>content\<close> gives the data unit each id stands for. A shard under an id is faithful when it is
  the corresponding shard of that data unit.
\<close>

definition faithful_shard ::
  "array_feature \<Rightarrow> ReedSolomonWrapper \<Rightarrow> (Vid \<Rightarrow> Data option) \<Rightarrow> FullShardId \<Rightarrow> Shard \<Rightarrow> bool" where
  "faithful_shard ft w content fid s \<longleftrightarrow>
     (case content (fst fid) of None \<Rightarrow> False | Some d \<Rightarrow> shard_of ft w (snd fid) d = Some s)"

definition faithful_map ::
  "array_feature \<Rightarrow> ReedSolomonWrapper \<Rightarrow> (Vid \<Rightarrow> Data option)
   \<Rightarrow> (Vid, (Sid, Shard) HashMap) HashMap \<Rightarrow> bool" where
  "faithful_map ft w content m \<longleftrightarrow>
     (\<forall>v i s. hm_get2 m v i = Some s \<longrightarrow> faithful_shard ft w content (v, i) s)"

definition dm_faithful ::
  "array_feature \<Rightarrow> (Vid \<Rightarrow> Data option) \<Rightarrow> InitializedDataMemory \<Rightarrow> bool" where
  "dm_faithful ft content dm \<longleftrightarrow>
     faithful_map ft (encoding dm) content (local_storage dm)
     \<and> faithful_map ft (encoding dm) content (to_distribute dm)
     \<and> faithful_map ft (encoding dm) content (currently_assembled dm)
     \<and> (\<forall>v m. fmlookup (currently_assembled dm) v = Some m \<longrightarrow> hm_len m < sufficient_shards_n dm)"

text \<open>Inputs that are true to the content, and outputs that are.\<close>

fun faithful_in ::
  "array_feature \<Rightarrow> ReedSolomonWrapper \<Rightarrow> (Vid \<Rightarrow> Data option) \<Rightarrow> DmInEvent \<Rightarrow> bool" where
  "faithful_in ft w content (PrepareServiceRequest v d) \<longleftrightarrow> content v = Some d"
| "faithful_in ft w content (InServeShardResponse fid (Some s)) \<longleftrightarrow> faithful_shard ft w content fid s"
| "faithful_in ft w content (InAssignedResponse fid (Some s)) \<longleftrightarrow> faithful_shard ft w content fid s"
| "faithful_in ft w content _ \<longleftrightarrow> True"

fun faithful_out ::
  "array_feature \<Rightarrow> ReedSolomonWrapper \<Rightarrow> (Vid \<Rightarrow> Data option) \<Rightarrow> DmOutEvent \<Rightarrow> bool" where
  "faithful_out ft w content (OutServeShardResponse fid (Some s)) \<longleftrightarrow> faithful_shard ft w content fid s"
| "faithful_out ft w content (OutAssignedResponse fid (Some s)) \<longleftrightarrow> faithful_shard ft w content fid s"
| "faithful_out ft w content (RecollectResponse (Inr (v, d))) \<longleftrightarrow> content v = Some d"
| "faithful_out ft w content _ \<longleftrightarrow> True"

fun faithful_select ::
  "array_feature \<Rightarrow> (Vid \<Rightarrow> Data option) \<Rightarrow> InitializedDataMemory \<Rightarrow> dm_select \<Rightarrow> bool" where
  "faithful_select ft content dm (DmInput (Some e)) \<longleftrightarrow> faithful_in ft (encoding dm) content e"
| "faithful_select ft content dm (BusWrite (Some (v, s))) \<longleftrightarrow>
     (case assigned_shard_id dm of None \<Rightarrow> True | Some i \<Rightarrow> faithful_shard ft (encoding dm) content (v, i) s)"
| "faithful_select ft content dm _ \<longleftrightarrow> True"

fun conf_faithful :: "array_feature \<Rightarrow> (Vid \<Rightarrow> Data option) \<Rightarrow> dm_conf \<Rightarrow> bool" where
  "conf_faithful ft content (dm, c) \<longleftrightarrow>
     dm_faithful ft content dm \<and> list_all (faithful_out ft (encoding dm) content) (sent c)"

text \<open>The parts of the state that are fixed at initialization.\<close>

definition dm_fixed :: "InitializedDataMemory \<Rightarrow> (PeerId, Sid) HashMap \<times> PeerId \<times> ReedSolomonWrapper" where
  "dm_fixed dm = (distribution dm, local_id dm, encoding dm)"

named_theorems dm_simps \<open>updates of the data memory\<close>

lemma dm_fixed_upd [dm_simps]:
  "dm_fixed (dm\<lparr>local_storage := a\<rparr>) = dm_fixed dm"
  "dm_fixed (dm\<lparr>to_distribute := a\<rparr>) = dm_fixed dm"
  "dm_fixed (dm\<lparr>currently_assembled := a\<rparr>) = dm_fixed dm"
  "dm_fixed (dm\<lparr>data_known_locations := b\<rparr>) = dm_fixed dm"
  by (simp_all add: dm_fixed_def)

lemma dm_fixed_sel:
  "dm_fixed dm' = dm_fixed dm \<Longrightarrow> distribution dm' = distribution dm \<and> local_id dm' = local_id dm
     \<and> encoding dm' = encoding dm \<and> sufficient_shards_n dm' = sufficient_shards_n dm
     \<and> total_shards_n dm' = total_shards_n dm \<and> assigned_shard_id dm' = assigned_shard_id dm"
  by (simp add: dm_fixed_def sufficient_shards_n_def total_shards_n_def assigned_shard_id_def)

lemma send_or_return_conf:
  "send_or_return e (dm, c) = (ctl, dm', c') \<Longrightarrow>
     dm' = dm \<and> ctl \<in> {Dm_Continue, Dm_Return}
     \<and> sent c' = sent c @ (if ctl = Dm_Continue then [e] else [])"
  by (auto simp: Let_def split: prod.splits if_splits dest: sink_send_sent)

lemma observe_new_location_fixed [dm_simps]:
  "dm_fixed (observe_new_location fid p dm) = dm_fixed dm"
  "local_storage (observe_new_location fid p dm) = local_storage dm"
  "currently_assembled (observe_new_location fid p dm) = currently_assembled dm"
  "data_known_locations (observe_new_location fid p dm)
     = hm_insert2 (fst fid) (snd fid) p (data_known_locations dm)"
  by (auto simp: observe_new_location_def Let_def dm_simps split: option.splits)

lemma observe_new_location_served [dm_simps]:
  "hm_get2 (to_distribute (observe_new_location fid p dm)) v i
     = (if (v, i) = fid then None else hm_get2 (to_distribute dm) v i)"
  by (cases fid) (auto simp: observe_new_location_def Let_def hm_get2_def split: option.splits)

text \<open>The fixed part never changes, whatever the events.\<close>

lemma handle_serve_shard_response_fixed:
  "handle_serve_shard_response fid x (dm, c) = (r, dm', c') \<Longrightarrow> dm_fixed dm' = dm_fixed dm"
  by (cases x) (auto simp: store_shard_def dm_simps Let_def split: prod.splits)

lemma handle_assigned_response_fixed:
  "handle_assigned_response env fid x (dm, c) = (r, dm', c') \<Longrightarrow> dm_fixed dm' = dm_fixed dm"
  by (cases x; cases fid)
    (auto simp: dm_simps Let_def split: prod.splits option.splits outcome.splits if_splits)

lemma handled_conf: "handled (r, s) = (ctl, s') \<Longrightarrow> s' = s"
  by (cases r) auto

lemma handled_eq: "handled r = (ctl, s) \<longleftrightarrow> (\<exists>h. r = (h, s) \<and> ctl =
    (case h of HandleOk \<Rightarrow> Dm_Continue | HandleAbort \<Rightarrow> Dm_Cancel | HandlePanic \<Rightarrow> Dm_Panic))"
  by (cases r; cases "fst r") auto

lemma request_shards_fixed:
  "request_shards env v xs (dm, c) = (ctl, dm', c') \<Longrightarrow> dm_fixed dm' = dm_fixed dm"
proof (induction env v xs "(dm, c)" arbitrary: dm c rule: request_shards.induct)
  case (2 env v i owner rest dm c)
  obtain ctl1 dm1 c1 where s1: "(if owner = local_id dm
            then handled (handle_assigned_response env (v, i) (get_shard (v, i) dm) (dm, c))
            else send_or_return (OutAssignedRequest (v, i) owner) (dm, c)) = (ctl1, dm1, c1)"
    by (metis prod_cases3)
  then have "dm_fixed dm1 = dm_fixed dm"
    by (auto simp: handled_eq split: if_splits
        dest: handle_assigned_response_fixed send_or_return_conf simp del: send_or_return.simps)
  with 2 s1 show ?case by (auto split: dm_ctl.splits)
qed simp

lemma dm_event_fixed:
  assumes "dm_event env e (dm, c) = (ctl, dm', c')"
  shows "dm_fixed dm' = dm_fixed dm"
proof (cases e)
  case (StoreConfirmed fid p)
  with assms show ?thesis
    by (auto simp: Let_def dm_simps split: option.splits prod.splits if_splits)
next
  case (RecollectRequest v)
  with assms show ?thesis
    by (auto simp: dm_simps split: option.splits if_splits dest: send_or_return_conf request_shards_fixed
        simp del: send_or_return.simps)
qed (use assms in \<open>auto simp: handled_eq dm_simps prepare_to_serve_shards_def
      split: option.splits outcome.splits if_splits simp del: send_or_return.simps
      dest: send_or_return_conf handle_serve_shard_response_fixed handle_assigned_response_fixed\<close>)

lemma faithful_map_insert2:
  "faithful_map ft w content m \<Longrightarrow> faithful_shard ft w content (v, i) s
     \<Longrightarrow> faithful_map ft w content (hm_insert2 v i s m)"
  by (auto simp: faithful_map_def hm_get2_insert2)

lemma faithful_map_upd:
  "faithful_map ft w content m \<Longrightarrow> (\<And>i s. fmlookup x i = Some s \<Longrightarrow> faithful_shard ft w content (v, i) s)
     \<Longrightarrow> faithful_map ft w content (fmupd v x m)"
  by (auto simp: faithful_map_def hm_get2_def)

lemma faithful_map_drop: "faithful_map ft w content m \<Longrightarrow> faithful_map ft w content (fmdrop v m)"
  by (auto simp: faithful_map_def hm_get2_def split: if_splits)

lemma faithful_map_lookup:
  "faithful_map ft w content m \<Longrightarrow> fmlookup m v = Some x \<Longrightarrow> fmlookup x i = Some s
     \<Longrightarrow> faithful_shard ft w content (v, i) s"
  by (auto simp: faithful_map_def hm_get2_def)

lemma handled_cases:
  "handled r = (ctl, s) \<Longrightarrow> \<exists>h. r = (h, s) \<and> (ctl = Dm_Panic \<longleftrightarrow> h = HandlePanic)"
  by (cases r; cases "fst r") auto

lemma conf_faithful_send:
  assumes "conf_faithful ft content (dm, c)" and "sink_send e c = (ok, c')"
    and "faithful_out ft (encoding dm) content e"
  shows "conf_faithful ft content (dm, c')"
  using assms sink_send_sent [OF assms(2)] by auto

lemma send_or_return_faithful:
  assumes "conf_faithful ft content s" and "faithful_out ft (encoding (fst s)) content e"
    and "send_or_return e s = (ctl, s')"
  shows "conf_faithful ft content s' \<and> ctl \<noteq> Dm_Panic"
  using assms
  by (cases s) (auto simp: Let_def list_all_iff split: prod.splits if_splits dest: sink_send_sent)

lemma handle_serve_shard_response_faithful:
  assumes "conf_faithful ft content (dm, c)"
    and "x = None \<or> (\<exists>s. x = Some s \<and> faithful_shard ft (encoding dm) content fid s)"
    and "handle_serve_shard_response fid x (dm, c) = (r, s')"
  shows "conf_faithful ft content s' \<and> r \<noteq> HandlePanic"
proof (cases x)
  case (Some s)
  let ?dm = "snd (store_shard fid s dm)"
  have "conf_faithful ft content (?dm, c)"
    using assms(1,2) Some
    by (cases fid) (auto simp: dm_faithful_def store_shard_def faithful_map_insert2 sufficient_shards_n_def)
  then show ?thesis
    using assms(3) Some
    by (auto simp: Let_def split: prod.splits if_splits simp del: conf_faithful.simps
        intro: conf_faithful_send simp: store_shard_def)
qed (use assms in auto)

context rs_wrapper
begin

lemma faithful_part:
  assumes "wf_data ft d" and "\<And>i s. fmlookup part i = Some s \<Longrightarrow> shard_of ft w i d = Some s"
    and "2 \<le> hm_len part"
  shows "rs_wrapper_decode ft ord w part = Ok d"
proof -
  obtain m where m: "rs_wrapper_encode ft w d = Ok m"
    using wrapper.enc_total [OF assms(1)] by blast
  then have "part \<subseteq>\<^sub>f m"
    using assms(2) by (auto simp: fmsubset_alt_def fmpred_iff shard_of_def)
  then show ?thesis by (rule decode_part [OF assms(1) m _ assms(3)])
qed

lemma sufficient_two: "encoding dm = w \<Longrightarrow> sufficient_shards_n dm = 2"
  by (simp add: sufficient_shards_n_def rs_wrapper_settings_def two_data)

lemma handle_assigned_response_faithful:
  assumes dm: "encoding dm = w" and env: "feature env = ft" "shards_order env = ord"
    and content: "\<And>v d. content v = Some d \<Longrightarrow> wf_data ft d"
    and conf: "conf_faithful ft content (dm, c)"
    and x: "x = None \<or> (\<exists>s. x = Some s \<and> faithful_shard ft w content fid s)"
    and h: "handle_assigned_response env fid x (dm, c) = (r, s')"
  shows "conf_faithful ft content s' \<and> r \<noteq> HandlePanic"
proof -
  obtain v i where fid: "fid = (v, i)" by force
  show ?thesis
  proof (cases "\<exists>s received. x = Some s \<and> fmlookup (currently_assembled dm) v = Some received
      \<and> fmlookup received i = None")
    case False
    with h conf show ?thesis
      by (cases x) (auto simp: fid split: option.splits)
  next
    case True
    then obtain s received where s: "x = Some s"
      "fmlookup (currently_assembled dm) v = Some received" "fmlookup received i = None" by blast
    let ?shards = "fmupd i s received"
    obtain d where d: "content v = Some d" and i: "shard_of ft w i d = Some s"
      using x s(1) by (auto simp: fid faithful_shard_def split: option.splits)
    have shards: "shard_of ft w j d = Some t" if "fmlookup ?shards j = Some t" for j t
      using that conf s(2) i d dm
        faithful_map_lookup [of ft w content "currently_assembled dm" v received j t]
      by (auto simp: dm_faithful_def faithful_shard_def split: if_splits)
    show ?thesis
    proof (cases "2 \<le> hm_len ?shards")
      case True
      let ?dm = "dm\<lparr>currently_assembled := fmdrop v (currently_assembled dm)\<rparr>"
      have "rs_wrapper_decode ft ord w ?shards = Ok d"
        using faithful_part [OF content [OF d] shards True] by simp
      moreover have "conf_faithful ft content (?dm, c)"
        using conf by (auto simp: dm_faithful_def faithful_map_drop sufficient_shards_n_def split: if_splits)
      ultimately show ?thesis
        using h True d conf_faithful_send [of ft content ?dm c]
        by (auto simp: fid s env dm sufficient_two Let_def split: prod.splits if_splits
            simp del: conf_faithful.simps)
    next
      case False
      have fs: "faithful_shard ft w content (v, j) t" if "fmlookup ?shards j = Some t" for j t
        using shards [OF that] by (simp add: faithful_shard_def d)
      have "faithful_map ft w content (fmupd v ?shards (currently_assembled dm))"
        using conf dm fs by (intro faithful_map_upd) (auto simp: dm_faithful_def)
      then show ?thesis
        using h False conf
        by (auto simp: fid s dm sufficient_two Let_def dm_faithful_def split: if_splits)
    qed
  qed
qed

end

text \<open>A memory over a lawful code, in an environment that fits it, and a content of well-formed
  data units.\<close>

lemma faithful_select_fixed:
  "dm_fixed dm' = dm_fixed dm \<Longrightarrow> faithful_select ft content dm' x = faithful_select ft content dm x"
  by (drule dm_fixed_sel, cases "(ft, content, dm, x)" rule: faithful_select.cases)
    (auto split: option.splits)

locale content_memory = rs_wrapper w "feature env" "shards_order env" for w and env :: dm_env +
  fixes content :: "Vid \<Rightarrow> Data option"
  assumes content_wf: "content v = Some d \<Longrightarrow> wf_data (feature env) d"
begin

abbreviation ok :: "dm_conf \<Rightarrow> bool" where
  "ok \<equiv> conf_faithful (feature env) content"

lemma assigned_ok:
  assumes "encoding dm = w" and "ok (dm, c)"
    and "x = None \<or> (\<exists>s. x = Some s \<and> faithful_shard (feature env) w content fid s)"
    and "handled (handle_assigned_response env fid x (dm, c)) = (ctl, s')"
  shows "ok s' \<and> ctl \<noteq> Dm_Panic \<and> encoding (fst s') = w"
proof -
  obtain h where h: "handle_assigned_response env fid x (dm, c) = (h, fst s', snd s')"
    and ctl: "ctl = Dm_Panic \<longleftrightarrow> h = HandlePanic"
    using handled_cases [OF assms(4)] by auto
  have "ok (fst s', snd s') \<and> h \<noteq> HandlePanic"
    by (rule handle_assigned_response_faithful [OF assms(1) refl refl _ assms(2,3) h])
      (rule content_wf)
  then show ?thesis
    using ctl dm_fixed_sel [OF handle_assigned_response_fixed [OF h]] assms(1) by simp
qed

lemma serve_ok:
  assumes "encoding dm = w" and "ok (dm, c)"
    and "x = None \<or> (\<exists>s. x = Some s \<and> faithful_shard (feature env) w content fid s)"
    and "handled (handle_serve_shard_response fid x (dm, c)) = (ctl, s')"
  shows "ok s' \<and> ctl \<noteq> Dm_Panic"
proof -
  obtain h where "handle_serve_shard_response fid x (dm, c) = (h, s')"
    and "ctl = Dm_Panic \<longleftrightarrow> h = HandlePanic"
    using handled_cases [OF assms(4)] by auto
  then show ?thesis
    using handle_serve_shard_response_faithful [OF assms(2)] assms(1,3) by blast
qed

lemma request_shards_faithful:
  "encoding dm = w \<Longrightarrow> ok (dm, c) \<Longrightarrow> request_shards env v xs (dm, c) = (ctl, s')
     \<Longrightarrow> ok s' \<and> ctl \<noteq> Dm_Panic"
proof (induction xs arbitrary: dm c)
  case Nil
  then show ?case by auto
next
  case (Cons x xs)
  obtain i owner where x: "x = (i, owner)" by force
  obtain ctl1 dm1 c1 where s1: "(if owner = local_id dm
            then handled (handle_assigned_response env (v, i) (get_shard (v, i) dm) (dm, c))
            else send_or_return (OutAssignedRequest (v, i) owner) (dm, c)) = (ctl1, dm1, c1)"
    by (metis prod_cases3)
  have local: "get_shard (v, i) dm = None
      \<or> (\<exists>s. get_shard (v, i) dm = Some s \<and> faithful_shard (feature env) w content (v, i) s)"
    using Cons.prems(1,2) by (cases "get_shard (v, i) dm") (auto simp: get_shard_def dm_faithful_def faithful_map_def)
  have "ok (dm1, c1) \<and> ctl1 \<noteq> Dm_Panic \<and> encoding dm1 = w"
  proof (cases "owner = local_id dm")
    case True
    then show ?thesis
      using assigned_ok [OF Cons.prems(1,2) local, of ctl1 "(dm1, c1)"] s1
      by (simp del: conf_faithful.simps)
  next
    case False
    then have sr: "send_or_return (OutAssignedRequest (v, i) owner) (dm, c) = (ctl1, dm1, c1)"
      using s1 by simp
    then show ?thesis
      using send_or_return_faithful [OF Cons.prems(2) _ sr] send_or_return_conf [OF sr] Cons.prems(1)
      by simp
  qed
  then show ?case
    using Cons.prems(3) s1 Cons.IH [of dm1 c1] by (auto simp: x split: dm_ctl.splits simp del: conf_faithful.simps)
qed

lemma on_store_confirmed_faithful:
  assumes "encoding dm = w" and "ok (dm, c)" and "on_store_confirmed fid p (dm, c) = (ctl, s')"
  shows "ok s' \<and> ctl \<noteq> Dm_Panic"
proof -
  let ?dm = "observe_new_location fid p dm"
  have "faithful_map (feature env) w content (to_distribute ?dm)"
    using assms(1,2) by (auto simp: faithful_map_def dm_simps dm_faithful_def split: if_splits)
  moreover have "encoding ?dm = w" "sufficient_shards_n ?dm = sufficient_shards_n dm"
    using dm_fixed_sel [OF observe_new_location_fixed(1)] assms(1) by auto
  ultimately have dm: "ok (?dm, c)"
    using assms(1,2) by (simp add: dm_faithful_def dm_simps)
  let ?dm2 = "?dm\<lparr>to_distribute := fmdrop (fst fid) (to_distribute ?dm)\<rparr>"
  have dm2: "ok (?dm2, c')" if "ok (?dm, c')" for c'
    using that by (simp add: dm_faithful_def faithful_map_drop sufficient_shards_n_def)
  obtain locs b c1 where s: "fmlookup (data_known_locations ?dm) (fst fid) = Some locs"
    "(if hm_len locs = sufficient_shards_n ?dm then sink_send (DistributionSufficient (fst fid)) c
      else (True, c)) = (b, c1)"
    by (metis hm_insert2_lookup observe_new_location_fixed(4) prod.exhaust)
  then have c1: "ok (?dm, c1)"
    using conf_faithful_send [OF dm, of "DistributionSufficient (fst fid)" b c1] dm
    by (auto split: if_splits simp del: conf_faithful.simps)
  then show ?thesis
    using assms(3) s send_or_return_faithful [OF dm2 [OF c1], of "DistributionFull (fst fid)"]
    by (auto simp: Let_def split: if_splits simp del: conf_faithful.simps send_or_return.simps)
qed

lemma on_prepare_service_faithful:
  assumes w: "encoding dm = w" and conf: "ok (dm, c)" and d: "content v = Some d"
    and step: "on_prepare_service env v d (dm, c) = (ctl, s')"
  shows "ok s' \<and> ctl \<noteq> Dm_Panic"
proof -
  obtain m where m: "rs_wrapper_encode (feature env) w d = Ok m"
    using wrapper.enc_total content_wf [OF d] by blast
  then have "faithful_shard (feature env) w content (v, i) s" if "fmlookup m i = Some s" for i s
    using that d by (simp add: faithful_shard_def shard_of_def)
  then have "ok (prepare_to_serve_shards v m dm, c)"
    using conf w by (simp add: prepare_to_serve_shards_def dm_faithful_def faithful_map_upd
        sufficient_shards_n_def)
  from send_or_return_faithful [OF this, of "PreparedServiceResponse v" ctl s'] step m w
  show ?thesis by (simp del: conf_faithful.simps send_or_return.simps)
qed

lemma on_recollect_request_faithful:
  assumes w: "encoding dm = w" and conf: "ok (dm, c)"
    and step: "on_recollect_request env v (dm, c) = (ctl, s')"
  shows "ok s' \<and> ctl \<noteq> Dm_Panic"
proof -
  let ?dm = "dm\<lparr>currently_assembled := fmupd v fmempty (currently_assembled dm)\<rparr>"
  have "ok (?dm, c)"
    using conf w by (auto simp: dm_faithful_def faithful_map_def hm_get2_def sufficient_two split: if_splits)
  then show ?thesis
    using step conf request_shards_faithful [of ?dm c v] w
      send_or_return_faithful [OF conf, of "RecollectResponse (Inl UnkonwnDataId)"]
      send_or_return_faithful [OF conf, of "RecollectResponse (Inl RecollectNotEnoughShards)"]
    by (auto split: option.splits if_splits simp del: conf_faithful.simps send_or_return.simps)
qed

text \<open>True inputs keep a faithful memory faithful, make it say only true things, and never let it
  panic.\<close>

lemma held_shards_faithful:
  assumes "encoding dm = w" and "ok (dm, c)"
  shows "serve_shard fid dm = None \<or> (\<exists>s. serve_shard fid dm = Some s \<and> faithful_shard (feature env) w content fid s)"
    and "get_shard fid dm = None \<or> (\<exists>s. get_shard fid dm = Some s \<and> faithful_shard (feature env) w content fid s)"
  using assms by (cases "serve_shard fid dm"; cases "get_shard fid dm"; cases fid;
    auto simp: serve_shard_def get_shard_def dm_faithful_def faithful_map_def)+

lemma storage_request_faithful:
  assumes w: "encoding dm = w" and conf: "ok (dm, c)" and step: "on_storage_request_tx v a (dm, c) = (ctl, s')"
  shows "ok s' \<and> ctl \<noteq> Dm_Panic"
proof (cases "assigned_shard_id dm")
  case (Some i)
  with step serve_ok [OF w conf held_shards_faithful(1) [OF w conf], of "(v, i)"]
    send_or_return_faithful [OF conf, of "OutServeShardRequest (v, i) a"] w
  show ?thesis by (auto split: if_splits simp del: conf_faithful.simps send_or_return.simps)
qed (use step conf in \<open>auto simp del: conf_faithful.simps\<close>)

lemma dm_event_faithful:
  assumes w: "encoding dm = w" and conf: "ok (dm, c)"
    and e: "faithful_in (feature env) w content e" and step: "dm_event env e (dm, c) = (ctl, s')"
  shows "ok s' \<and> ctl \<noteq> Dm_Panic"
proof -
  note served = held_shards_faithful(1) [OF w conf] and stored = held_shards_faithful(2) [OF w conf]
  have send: "send_or_return o' (dm, c) = (ctl, s') \<Longrightarrow> faithful_out (feature env) w content o'
      \<Longrightarrow> ok s' \<and> ctl \<noteq> Dm_Panic" for o'
    using send_or_return_faithful [OF conf] w by simp
  note del = conf_faithful.simps send_or_return.simps
  show ?thesis
  proof (cases e)
    case (StorageRequestTx v a)
    with step storage_request_faithful [OF w conf] show ?thesis by (simp del: del)
  next
    case (InServeShardResponse fid x)
    with step e serve_ok [OF w conf, of x fid ctl s'] show ?thesis by (cases x) (auto simp del: del)
  next
    case (InServeShardRequest fid)
    with step send served [of fid] show ?thesis
      by (cases "serve_shard fid dm") (fastforce simp del: del)+
  next
    case (InAssignedRequest fid)
    with step send stored [of fid] show ?thesis
      by (cases "get_shard fid dm") (fastforce simp del: del)+
  next
    case (InAssignedResponse fid x)
    with step e assigned_ok [OF w conf, of x fid ctl s'] show ?thesis
      by (cases x) (auto simp del: del)
  next
    case InListDistributed
    with step send show ?thesis by (fastforce simp del: del)
  next
    case (PeerShardsActualized p ids)
    with step conf show ?thesis
      by (auto simp: dm_faithful_def sufficient_shards_n_def split: option.splits)
  next
    case (PrepareServiceRequest v d)
    with step e on_prepare_service_faithful [OF w conf] show ?thesis by (simp del: del)
  next
    case (StoreConfirmed fid p)
    with step on_store_confirmed_faithful [OF w conf] show ?thesis by (simp del: del)
  next
    case (RecollectRequest v)
    with step on_recollect_request_faithful [OF w conf] show ?thesis by (simp del: del)
  qed (use step conf in \<open>simp del: del\<close>)
qed

text \<open>The same for the whole loop, bus included.\<close>

lemma bus_write_faithful:
  assumes "encoding dm = w" and "ok (dm, c)"
    and "faithful_select (feature env) content dm (BusWrite (Some x))"
  shows "ok (bus_write x dm, c) \<and> dm_fixed (bus_write x dm) = dm_fixed dm"
proof (cases "assigned_shard_id dm")
  case (Some i)
  with assms show ?thesis
    by (cases x) (auto simp: bus_write_def store_shard_def dm_simps dm_faithful_def
        faithful_map_insert2 sufficient_shards_n_def)
qed (use assms in \<open>simp add: bus_write_def\<close>)

lemma dm_run_step_faithful:
  assumes "encoding dm = w" and "ok (dm, c)" and "faithful_select (feature env) content dm x"
    and "dm_run_step env x ((dm, c), a) = (ctl, (dm', c'), a')"
  shows "ok (dm', c') \<and> ctl \<noteq> Dm_Panic \<and> dm_fixed dm' = dm_fixed dm"
proof (cases x)
  case (DmInput e)
  with assms dm_event_faithful [OF assms(1,2)] dm_event_fixed show ?thesis
    by (cases e) (auto simp del: conf_faithful.simps split: prod.splits)
next
  case (BusRead v)
  with assms show ?thesis by (cases v) auto
next
  case (BusWrite y)
  with assms bus_write_faithful [OF assms(1,2)] show ?thesis
    by (cases y) (auto simp del: conf_faithful.simps faithful_select.simps)
qed

lemma dm_run_faithful:
  "encoding dm = w \<Longrightarrow> ok (dm, c) \<Longrightarrow> list_all (faithful_select (feature env) content dm) xs \<Longrightarrow>
   dm_run env xs ((dm, c), a) = (ctl, s', a') \<Longrightarrow> ok s' \<and> ctl \<noteq> Dm_Panic"
proof (induction xs arbitrary: dm c a)
  case (Cons x xs)
  obtain ctl1 dm1 c1 a1 where s1: "dm_run_step env x ((dm, c), a) = (ctl1, (dm1, c1), a1)"
    by (metis surj_pair)
  have x: "faithful_select (feature env) content dm x" using Cons.prems(3) by simp
  note step = dm_run_step_faithful [OF Cons.prems(1,2) x s1]
  then have "encoding dm1 = w"
    using dm_fixed_sel [of dm1 dm] Cons.prems(1) by auto
  moreover have "faithful_select (feature env) content dm1 y = faithful_select (feature env) content dm y" for y
    using step by (intro faithful_select_fixed) simp
  ultimately show ?case using Cons step s1
    by (auto simp del: conf_faithful.simps split: dm_ctl.splits)
qed (simp del: conf_faithful.simps)

end

text \<open>The content of a store, with the code of the exclusive or and sorted iteration.\<close>

abbreviation sorted_env :: "array_feature \<Rightarrow> dm_env" where
  "sorted_env ft \<equiv>
     \<lparr>feature = ft, shards_order = sorted_list_of_fmap, locations_order = sorted_list_of_fmap,
      known_order = sorted_list_of_fmap\<rparr>"

interpretation parity_content: content_memory parity_wrapper "sorted_env ft"
  "\<lambda>v. Option.bind (fmlookup store v) (\<lambda>d. if wf_data ft d then Some d else None)" for ft store
proof (intro content_memory.intro content_memory_axioms.intro)
  show "rs_wrapper parity_wrapper (shards_order (sorted_env ft))"
    using parity_code.rs_wrapper_axioms by simp
qed (auto simp: bind_eq_Some_conv split: if_splits)

subsection \<open>Runs over a channel that stays open\<close>

lemma handle_assigned_response_open:
  assumes "closes_after c = None" and "handle_assigned_response env fid x (dm, c) = (h, dm', c')"
  shows "closes_after c' = None \<and> h \<noteq> HandleAbort"
  using assms
  by (cases x; cases fid)
    (auto simp: Let_def sink_simps split: option.splits outcome.splits if_splits)

lemma handled_serve_open:
  assumes "closes_after c = None"
    and "handled (handle_serve_shard_response fid x (dm, c)) = (ctl, dm', c')"
  shows "closes_after c' = None \<and> ctl = Dm_Continue"
  using assms by (cases x) (auto simp: sink_simps split: prod.splits)

lemma handled_assigned_open:
  assumes "closes_after c = None"
    and "handled (handle_assigned_response env fid x (dm, c)) = (ctl, dm', c')"
  shows "closes_after c' = None \<and> ctl \<in> {Dm_Continue, Dm_Panic}"
proof -
  obtain h where h: "handle_assigned_response env fid x (dm, c) = (h, dm', c')"
    "ctl = (case h of HandleOk \<Rightarrow> Dm_Continue | HandleAbort \<Rightarrow> Dm_Cancel | HandlePanic \<Rightarrow> Dm_Panic)"
    using assms(2) by (auto simp: handled_eq)
  with handle_assigned_response_open [OF assms(1) h(1)] show ?thesis by (cases h) simp_all
qed

lemma request_shards_open:
  "closes_after c = None \<Longrightarrow> request_shards env v xs (dm, c) = (ctl, dm', c')
     \<Longrightarrow> closes_after c' = None \<and> ctl \<in> {Dm_Continue, Dm_Panic}"
proof (induction xs arbitrary: dm c)
  case (Cons x xs)
  obtain i owner where x: "x = (i, owner)" by force
  obtain ctl1 dm1 c1 where s1: "(if owner = local_id dm
            then handled (handle_assigned_response env (v, i) (get_shard (v, i) dm) (dm, c))
            else send_or_return (OutAssignedRequest (v, i) owner) (dm, c)) = (ctl1, dm1, c1)"
    by (metis prod_cases3)
  have "closes_after c1 = None \<and> ctl1 \<in> {Dm_Continue, Dm_Panic}"
  proof (cases "owner = local_id dm")
    case True
    with s1 handled_assigned_open [OF Cons.prems(1)] show ?thesis by (metis (full_types))
  qed (use s1 Cons.prems(1) in \<open>auto simp: sink_simps\<close>)
  with Cons s1 show ?case by (auto simp: x split: dm_ctl.splits)
qed auto

lemma dm_event_open:
  assumes "closes_after c = None" and step: "dm_event env e (dm, c) = (ctl, dm', c')"
  shows "closes_after c' = None \<and> ctl \<noteq> Dm_Cancel
    \<and> (ctl = Dm_Return \<longleftrightarrow> (\<exists>p ids. e = PeerShardsActualized p ids \<and> fmlookup (distribution dm) p = None))"
proof (cases e)
  case (RecollectRequest v)
  with assms show ?thesis
    by (auto simp: sink_simps split: option.splits if_splits dest: request_shards_open)
next
  case (InAssignedResponse fid x)
  then have "handled (handle_assigned_response env fid x (dm, c)) = (ctl, dm', c')"
    using step by simp
  from handled_assigned_open [OF assms(1) this] InAssignedResponse show ?thesis by auto
next
  case (InServeShardResponse fid x)
  with step handled_serve_open [OF assms(1), of fid x dm ctl dm' c'] show ?thesis by simp
next
  case (StorageRequestTx v a)
  show ?thesis
  proof (cases "assigned_shard_id dm")
    case (Some i)
    with StorageRequestTx step assms(1)
      handled_serve_open [OF assms(1), of "(v, i)" "serve_shard (v, i) dm" dm ctl dm' c']
    show ?thesis by (auto simp: sink_simps split: if_splits)
  qed (use StorageRequestTx step assms(1) in auto)
qed (use assms in \<open>auto simp: sink_simps Let_def split: option.splits outcome.splits if_splits\<close>)

subsection \<open>Recollection\<close>

text \<open>The events that bring in shards of one data unit.\<close>

definition responses :: "Vid \<Rightarrow> (Sid \<times> Shard) list \<Rightarrow> dm_select list" where
  "responses v xs = map (\<lambda>(i, s). DmInput (Some (InAssignedResponse (v, i) (Some s)))) xs"

lemma responses_simps [simp]:
  "responses v [] = []"
  "responses v ((i, s) # xs) = DmInput (Some (InAssignedResponse (v, i) (Some s))) # responses v xs"
  by (simp_all add: responses_def)

lemma responses_ignored:
  "fmlookup (currently_assembled dm) v = None
     \<Longrightarrow> dm_run env (responses v xs) ((dm, c), a) = (Dm_Continue, (dm, c), a)"
  by (induction xs) (auto simp: responses_def)

context rs_wrapper
begin

text \<open>Any order, any repetition: the data comes out with the response that completes a sufficient
  set of distinct shards, and nothing after it.\<close>

lemma recollect_run:
  assumes "encoding dm = w" and "feature env = ft" "shards_order env = ord" and "wf_data ft d"
    and "closes_after c = None" and "fmlookup (currently_assembled dm) v = Some m" and "hm_len m < 2"
    and "\<And>i s. fmlookup m i = Some s \<Longrightarrow> shard_of ft w i d = Some s"
    and "\<And>i s. (i, s) \<in> set xs \<Longrightarrow> shard_of ft w i d = Some s"
  shows "\<exists>dm'. dm_run env (responses v xs) ((dm, c), a) =
      (Dm_Continue,
       (dm', c\<lparr>sent := sent c @ (if 2 \<le> card (fmdom' m \<union> fst ` set xs)
                              then [RecollectResponse (Inr (v, d))] else [])\<rparr>), a)"
  using assms
proof (induction xs arbitrary: dm m)
  case Nil
  then have "card (fmdom' m) < 2" by (simp add: hm_len_def fcard.rep_eq fmdom'_alt_def)
  then show ?case by simp
next
  case (Cons x xs)
  obtain i s where x: "x = (i, s)" by force
  note suff = sufficient_two [OF Cons.prems(1)]
  show ?case
  proof (cases "fmlookup m i")
    case (Some t)
    then have "i \<in> fmdom' m" by (auto simp: fmlookup_dom'_iff)
    then have "fmdom' m \<union> fst ` set (x # xs) = fmdom' m \<union> fst ` set xs" by (auto simp: x)
    with Cons.IH [OF Cons.prems(1-8)] Cons.prems(6,9) Some show ?thesis by (simp add: x)
  next
    case None
    let ?m = "fmupd i s m"
    have dom: "fmdom' m \<union> fst ` set (x # xs) = fmdom' ?m \<union> fst ` set xs" by (auto simp: x)
    have m: "shard_of ft w j d = Some t" if "fmlookup ?m j = Some t" for j t
      using that Cons.prems(8,9) by (auto simp: x split: if_splits)
    have len: "hm_len ?m = card (fmdom' ?m)" by (simp add: hm_len_def fcard.rep_eq fmdom'_alt_def)
    show ?thesis
    proof (cases "2 \<le> hm_len ?m")
      case True
      let ?dm = "dm\<lparr>currently_assembled := fmdrop v (currently_assembled dm)\<rparr>"
      have "rs_wrapper_decode ft ord w ?m = Ok d"
        by (rule faithful_part [OF Cons.prems(4) m True])
      moreover have "2 \<le> card (fmdom' ?m \<union> fst ` set xs)"
        using True len card_mono [of "fmdom' ?m \<union> fst ` set xs" "fmdom' ?m"] by fastforce
      ultimately show ?thesis
        using Cons.prems None True
        unfolding dom by (auto simp: x suff sink_simps responses_ignored)
    next
      case False
      let ?dm = "dm\<lparr>currently_assembled := fmupd v ?m (currently_assembled dm)\<rparr>"
      have "dm_run env (responses v (x # xs)) ((dm, c), a) = dm_run env (responses v xs) ((?dm, c), a)"
        using Cons.prems None False by (simp add: x suff)
      with Cons.IH [of ?dm ?m] Cons.prems m False show ?thesis unfolding dom by simp
    qed
  qed
qed

end

text \<open>A request with no location at the peer itself asks every known holder once.\<close>

lemma request_shards_remote:
  "closes_after c = None \<Longrightarrow> local_id dm \<notin> snd ` set xs \<Longrightarrow>
   request_shards env v xs (dm, c) =
     (Dm_Continue, dm, c\<lparr>sent := sent c @ map (\<lambda>(i, p). OutAssignedRequest (v, i) p) xs\<rparr>)"
  by (induction xs arbitrary: c) (auto simp: sink_simps)

subsection \<open>Properties\<close>

text \<open>A memory of the exclusive-or code with three peers, for examples.\<close>

abbreviation example_memory :: "PeerId \<Rightarrow> InitializedDataMemory" where
  "example_memory p \<equiv> initialize \<lparr>un_encoding = parity_wrapper, un_local_id = p\<rparr>
     (fmap_of_list [(1, Sid 0), (2, Sid 1), (3, Sid 2)])"

abbreviation example_data :: Data where
  "example_data \<equiv> Data [1, 2, 3, 4, 5, 6, 7, 8]"

abbreviation example_content :: "Vid \<Rightarrow> Data option" where
  "example_content \<equiv> (\<lambda>v. if v = Vid 7 then Some example_data else None)"

abbreviation example_events :: "dm_select list" where
  "example_events \<equiv>
    [DmInput (Some (PrepareServiceRequest (Vid 7) example_data)),
     DmInput (Some (StorageRequestTx (Vid 7) 1)),
     DmInput (Some (StoreConfirmed (Vid 7, Sid 0) 1)),
     DmInput (Some (StoreConfirmed (Vid 7, Sid 2) 3)),
     DmInput (Some (RecollectRequest (Vid 7))),
     DmInput (Some (InAssignedResponse (Vid 7, Sid 2) (Some (Shard [4, 4, 4, 12]))))]"

lemma dm_faithful_initialize: "dm_faithful ft content (initialize un distr)"
  by (simp add: dm_faithful_def initialize_def faithful_map_def)

lemma dm_run_step_fixed:
  "dm_run_step env x ((dm, c), a) = (ctl, (dm', c'), a') \<Longrightarrow> dm_fixed dm' = dm_fixed dm"
  by (cases "(env, x, (dm, c), a)" rule: dm_run_step.cases)
    (auto split: prod.splits dest: dm_event_fixed simp: bus_write_def store_shard_def dm_simps
      split: option.splits)

lemma dm_run_fixed:
  "dm_run env xs ((dm, c), a) = (ctl, (dm', c'), a') \<Longrightarrow> dm_fixed dm' = dm_fixed dm"
proof (induction xs arbitrary: dm c a)
  case (Cons x xs)
  obtain ctl1 dm1 c1 a1 where "dm_run_step env x ((dm, c), a) = (ctl1, (dm1, c1), a1)"
    by (metis surj_pair)
  with Cons dm_run_step_fixed [OF this] show ?case by (auto split: dm_ctl.splits)
qed simp

text \<open>C8: a memory that is fed only true shards (every shard that comes in under an id is the
  corresponding shard of the data unit this id stands for) never panics, answers every shard
  request truly, and whatever data it assembles and returns for an id is the data unit of that
  id; over all interleavings of events, bus traffic and a receiver that may close.\<close>

theorem recollection_safe:
  assumes "rs_wrapper (un_encoding un) (shards_order env)"
    and "\<And>v d. content v = Some d \<Longrightarrow> wf_data (feature env) d"
    and "list_all (faithful_select (feature env) content (initialize un distr)) xs"
    and "sent c = []"
    and "dm_run env xs ((initialize un distr, c), []) = (ctl, (dm', c'), answers)"
  shows "ctl \<noteq> Dm_Panic
    \<and> (\<forall>v d. RecollectResponse (Inr (v, d)) \<in> set (sent c') \<longrightarrow> content v = Some d)
    \<and> (\<forall>fid s. OutAssignedResponse fid (Some s) \<in> set (sent c') \<or>
          OutServeShardResponse fid (Some s) \<in> set (sent c')
          \<longrightarrow> faithful_shard (feature env) (un_encoding un) content fid s)"
proof -
  let ?dm = "initialize un distr"
  have mem: "content_memory (encoding ?dm) env content"
    using assms(1,2) by (simp add: content_memory_def content_memory_axioms_def initialize_def)
  have "conf_faithful (feature env) content (?dm, c)"
    using assms(4) by (simp add: dm_faithful_initialize)
  from content_memory.dm_run_faithful [OF mem refl this assms(3,5)]
  have "ctl \<noteq> Dm_Panic" and out: "list_all (faithful_out (feature env) (encoding dm') content) (sent c')"
    by simp_all
  moreover have "encoding dm' = un_encoding un"
    using dm_fixed_sel [OF dm_run_fixed [OF assms(5)]] by (simp add: initialize_def)
  ultimately show ?thesis by (fastforce simp: list_all_iff)
qed

theorem recollection_safe_witness:
  "fst (dm_run (sorted_env Default_Array) example_events ((example_memory 1, open_sink), [])) \<noteq> Dm_Panic"
proof -
  obtain ctl dm' c' answers where run: "dm_run (sorted_env Default_Array) example_events
      ((example_memory 1, open_sink), []) = (ctl, (dm', c'), answers)"
    by (metis surj_pair)
  have "ctl \<noteq> Dm_Panic"
  proof (rule recollection_safe [THEN conjunct1, OF _ _ _ _ run])
    show "rs_wrapper (un_encoding \<lparr>un_encoding = parity_wrapper, un_local_id = 1\<rparr>)
        (shards_order (sorted_env Default_Array))"
      using parity_crate by simp
    show "\<And>v d. example_content v = Some d \<Longrightarrow> wf_data (feature (sorted_env Default_Array)) d"
      by (auto simp: wf_data_def data_len_eq split: if_splits)
    show "list_all (faithful_select (feature (sorted_env Default_Array)) example_content
        (example_memory 1)) example_events" by code_simp
  qed simp
  then show ?thesis unfolding run by simp
qed

text \<open>C9: once a recollection is under way, true shards arriving in any order and with any
  repetition make the memory return the original data exactly once, with the shard that makes
  the collected ones sufficient, and never before.\<close>

theorem recollect_exactly_once:
  assumes "rs_wrapper (encoding dm) (shards_order env)" and "wf_data (feature env) d"
    and "closes_after c = None" and "fmlookup (currently_assembled dm) v = Some m" and "hm_len m < 2"
    and "\<And>i s. fmlookup m i = Some s \<Longrightarrow> shard_of (feature env) (encoding dm) i d = Some s"
    and "\<And>i s. (i, s) \<in> set xs \<Longrightarrow> shard_of (feature env) (encoding dm) i d = Some s"
  shows "\<exists>dm'. dm_run env (responses v xs) ((dm, c), a) =
      (Dm_Continue,
       (dm', c\<lparr>sent := sent c @ (if 2 \<le> card (fmdom' m \<union> fst ` set xs)
                              then [RecollectResponse (Inr (v, d))] else [])\<rparr>), a)"
  by (rule rs_wrapper.recollect_run [OF assms(1) refl refl refl assms(2-7)])

theorem recollect_exactly_once_witness:
  "\<exists>dm'. dm_run (sorted_env Default_Array)
      (responses (Vid 7) [(Sid 2, Shard [4, 4, 4, 12]), (Sid 2, Shard [4, 4, 4, 12]), (Sid 1, Shard [5, 6, 7, 8])])
      (((example_memory 1)\<lparr>currently_assembled := fmupd (Vid 7) fmempty fmempty\<rparr>, open_sink), []) =
      (Dm_Continue, (dm', \<lparr>sent = [RecollectResponse (Inr (Vid 7, example_data))], closes_after = None\<rparr>), [])"
proof -
  let ?xs = "[(Sid 2, Shard [4, 4, 4, 12]), (Sid 2, Shard [4, 4, 4, 12]), (Sid 1, Shard [5, 6, 7, 8])]"
    and ?dm = "(example_memory 1)\<lparr>currently_assembled := fmupd (Vid 7) fmempty fmempty\<rparr>"
  have "\<exists>dm'. dm_run (sorted_env Default_Array) (responses (Vid 7) ?xs) ((?dm, open_sink), []) =
      (Dm_Continue, (dm', open_sink\<lparr>sent := sent open_sink @
        (if 2 \<le> card (fmdom' (fmempty :: (Sid, Shard) fmap) \<union> fst ` set ?xs)
         then [RecollectResponse (Inr (Vid 7, example_data))] else [])\<rparr>), [])"
  proof (rule recollect_exactly_once)
    show "rs_wrapper (encoding ?dm) (shards_order (sorted_env Default_Array))"
      using parity_crate by (simp add: initialize_def)
    have "list_all (\<lambda>(i, s). shard_of Default_Array parity_wrapper i example_data = Some s) ?xs"
      by code_simp
    then show "\<And>i s. (i, s) \<in> set ?xs \<Longrightarrow>
        shard_of (feature (sorted_env Default_Array)) (encoding ?dm) i example_data = Some s"
      by (auto simp: initialize_def)
  qed (simp_all add: wf_data_def data_len_eq)
  then show ?thesis by simp
qed

text \<open>The answer to a recollection request on every branch: an unknown id and an id with too
  few known locations are refused with their own errors and leave the memory as it is; a request
  for an id that is already being recollected is dropped; otherwise, when no shard is held
  locally, every known holder is asked for its shard once and the recollection starts empty.\<close>

lemma recollect_request_branches:
  assumes "closes_after c = None"
  shows "dm_event env (RecollectRequest v) (dm, c) =
    (case fmlookup (data_known_locations dm) v of
       None \<Rightarrow> (Dm_Continue, dm, c\<lparr>sent := sent c @ [RecollectResponse (Inl UnkonwnDataId)]\<rparr>)
     | Some locs \<Rightarrow>
         if hm_len locs < sufficient_shards_n dm
         then (Dm_Continue, dm, c\<lparr>sent := sent c @ [RecollectResponse (Inl RecollectNotEnoughShards)]\<rparr>)
         else if fmlookup (currently_assembled dm) v \<noteq> None then (Dm_Continue, dm, c)
         else if local_id dm \<notin> snd ` set (locations_order env locs)
         then (Dm_Continue, dm\<lparr>currently_assembled := fmupd v fmempty (currently_assembled dm)\<rparr>,
               c\<lparr>sent := sent c @ map (\<lambda>(i, p). OutAssignedRequest (v, i) p) (locations_order env locs)\<rparr>)
         else request_shards env v (locations_order env locs)
               (dm\<lparr>currently_assembled := fmupd v fmempty (currently_assembled dm)\<rparr>, c))"
  using assms by (auto simp: sink_simps request_shards_remote split: option.splits)

end
