(* ===== verification/Swarm_Distribution.thy ===== *)
theory Swarm_Distribution
  imports Swarm_Recollection
begin

text \<open>
  How the data memory distributes: what it serves, how it counts confirmations, when it reports, which
  distributions of shards over peers it accepts, and what makes it stop.
\<close>

subsection \<open>Counting confirmations\<close>

definition confirmations :: "Vid \<Rightarrow> (Sid \<times> PeerId) list \<Rightarrow> dm_select list" where
  "confirmations v cs = map (\<lambda>(i, p). DmInput (Some (StoreConfirmed (v, i) p))) cs"

definition locations_known :: "InitializedDataMemory \<Rightarrow> Vid \<Rightarrow> (Sid, PeerId) HashMap" where
  "locations_known dm v = hm_or_default (data_known_locations dm) v"

text \<open>What the confirmation that brings the number of known shards to \<open>k\<close> reports.\<close>

definition milestones :: "InitializedDataMemory \<Rightarrow> Vid \<Rightarrow> nat \<Rightarrow> DmOutEvent list" where
  "milestones dm v k = (if k = sufficient_shards_n dm then [DistributionSufficient v] else [])
     @ (if k = total_shards_n dm then [DistributionFull v] else [])"

lemma on_store_confirmed_open:
  assumes "closes_after c = None"
  obtains dm' where "on_store_confirmed (v, i) p (dm, c) =
      (Dm_Continue, dm', c\<lparr>sent := sent c @ milestones dm v (hm_len (fmupd i p (locations_known dm v)))\<rparr>)"
    "locations_known dm' v = fmupd i p (locations_known dm v)" "dm_fixed dm' = dm_fixed dm"
    "hm_len (fmupd i p (locations_known dm v)) = total_shards_n dm \<Longrightarrow> fmlookup (to_distribute dm') v = None"
proof -
  let ?o = "observe_new_location (v, i) p dm" and ?l = "fmupd i p (locations_known dm v)"
  have fixed: "sufficient_shards_n ?o = sufficient_shards_n dm" "total_shards_n ?o = total_shards_n dm"
    using dm_fixed_sel [OF observe_new_location_fixed(1)] by blast+
  have lk: "fmlookup (data_known_locations ?o) v = Some ?l"
    by (simp add: dm_simps hm_insert2_lookup locations_known_def)
  show ?thesis
    by (rule that [of "if hm_len ?l = total_shards_n dm
          then ?o\<lparr>to_distribute := fmdrop v (to_distribute ?o)\<rparr> else ?o"])
      (use assms in \<open>auto simp: Let_def lk fixed milestones_def sink_simps dm_simps locations_known_def
        hm_or_default_def hm_insert2_lookup\<close>)
qed

lemma confirmations_run:
  assumes "closes_after c = None" and "distinct (map fst cs)"
    and "fst ` set cs \<inter> fmdom' (locations_known dm v) = {}"
  shows "\<exists>dm'. dm_run env (confirmations v cs) ((dm, c), a) =
      (Dm_Continue, (dm', c\<lparr>sent := sent c @ concat (map (milestones dm v)
         [Suc (hm_len (locations_known dm v)) ..< Suc (hm_len (locations_known dm v) + length cs)])\<rparr>), a)
      \<and> locations_known dm' v = fold (\<lambda>(i, p) m. fmupd i p m) cs (locations_known dm v)"
  using assms
proof (induction cs arbitrary: dm c)
  case Nil
  then show ?case by (simp add: confirmations_def)
next
  case (Cons x cs)
  obtain i p where x: "x = (i, p)" by force
  let ?l = "locations_known dm v" and ?l' = "fmupd i p (locations_known dm v)"
  have len: "hm_len ?l' = Suc (hm_len ?l)"
    using Cons.prems(3) by (auto simp: x hm_len_upd fmlookup_dom'_iff split: option.splits)
  obtain dm' where dm': "on_store_confirmed (v, i) p (dm, c) =
      (Dm_Continue, dm', c\<lparr>sent := sent c @ milestones dm v (hm_len ?l')\<rparr>)"
    "locations_known dm' v = ?l'" "dm_fixed dm' = dm_fixed dm"
    by (rule on_store_confirmed_open [OF Cons.prems(1)])
  then have ms: "milestones dm' v = milestones dm v"
    using dm_fixed_sel [of dm' dm] by (simp add: milestones_def fun_eq_iff)
  have "fst ` set cs \<inter> fmdom' (locations_known dm' v) = {}"
    using Cons.prems(2,3) dm'(2) by (auto simp: x)
  from Cons.IH [OF _ _ this, of "c\<lparr>sent := sent c @ milestones dm v (hm_len ?l')\<rparr>"]
    Cons.prems(1,2) obtain dm'' where
    "dm_run env (confirmations v cs)
      ((dm', c\<lparr>sent := sent c @ milestones dm v (hm_len ?l')\<rparr>), a) = (Dm_Continue, (dm'',
        c\<lparr>sent := sent c @ milestones dm v (Suc (hm_len ?l)) @ concat (map (milestones dm v)
           [Suc (Suc (hm_len ?l)) ..< Suc (Suc (hm_len ?l + length cs))])\<rparr>), a)"
    "locations_known dm'' v = fold (\<lambda>(i, p) m. fmupd i p m) cs ?l'"
    by (auto simp: x dm'(2) ms len)
  then show ?case
    using dm'(1) by (simp add: x confirmations_def len upt_conv_Cons del: upt_Suc)
qed

lemma milestones_concat:
  assumes "k < sufficient_shards_n dm" and "sufficient_shards_n dm \<le> total_shards_n dm"
  shows "concat (map (milestones dm v) [Suc k..<Suc (k + n)])
    = (if sufficient_shards_n dm \<le> k + n then [DistributionSufficient v] else [])
      @ (if total_shards_n dm \<le> k + n then [DistributionFull v] else [])"
proof (induction n)
  case (Suc n)
  have "[Suc k..<Suc (k + Suc n)] = [Suc k..<Suc (k + n)] @ [k + Suc n]" by simp
  with Suc assms show ?case by (auto simp: milestones_def)
qed (use assms in auto)

subsection \<open>What stops the memory\<close>

text \<open>When taking a shard or a recollection panics: only when a decoding of enough shards does.\<close>

definition decoding_panics :: "dm_env \<Rightarrow> InitializedDataMemory \<Rightarrow> bool" where
  "decoding_panics env dm \<longleftrightarrow> (\<exists>shards. sufficient_shards_n dm \<le> hm_len shards
     \<and> rs_wrapper_decode (feature env) (shards_order env) (encoding dm) shards = Panic)"

text \<open>The part of a data unit that is there when another of its shards arrives.\<close>

definition completed_by :: "FullShardId \<Rightarrow> Shard \<Rightarrow> InitializedDataMemory \<Rightarrow> (Sid, Shard) HashMap option" where
  "completed_by fid shard dm = Option.bind (fmlookup (currently_assembled dm) (fst fid)) (\<lambda>received.
     if fmlookup received (snd fid) = None \<and> sufficient_shards_n dm \<le> hm_len (fmupd (snd fid) shard received)
     then Some (fmupd (snd fid) shard received) else None)"

lemma handled_assigned_panics:
  "fst (handled (handle_assigned_response env fid x (dm, c))) = Dm_Panic \<longleftrightarrow>
     (\<exists>shard shards. x = Some shard \<and> completed_by fid shard dm = Some shards
        \<and> rs_wrapper_decode (feature env) (shards_order env) (encoding dm) shards = Panic)"
  by (cases "(env, fid, x, (dm, c))" rule: handle_assigned_response.cases)
    (auto simp: completed_by_def Let_def split: option.splits outcome.splits prod.splits)

lemma completed_by_enough: "completed_by fid shard dm = Some shards \<Longrightarrow> sufficient_shards_n dm \<le> hm_len shards"
  by (auto simp: completed_by_def Option.bind_eq_Some_conv split: if_splits)

lemma handled_assigned_fixed:
  "handled (handle_assigned_response env fid x (dm, c)) = (ctl, dm', c') \<Longrightarrow> dm_fixed dm' = dm_fixed dm"
  by (cases "(env, fid, x, (dm, c))" rule: handle_assigned_response.cases)
    (auto simp: dm_simps Let_def split: option.splits outcome.splits prod.splits if_splits)

lemma decoding_panics_fixed: "dm_fixed dm' = dm_fixed dm \<Longrightarrow> decoding_panics env dm' = decoding_panics env dm"
  using dm_fixed_sel [of dm' dm] by (simp add: decoding_panics_def)

lemma request_shards_panics:
  "request_shards env v xs (dm, c) = (Dm_Panic, s) \<Longrightarrow> decoding_panics env dm"
proof (induction xs arbitrary: dm c)
  case (Cons x xs)
  obtain i owner where x: "x = (i, owner)" by force
  obtain ctl dm1 c1 where s1: "(if owner = local_id dm
            then handled (handle_assigned_response env (v, i) (get_shard (v, i) dm) (dm, c))
            else send_or_return (OutAssignedRequest (v, i) owner) (dm, c)) = (ctl, dm1, c1)"
    by (metis prod_cases3)
  have fixed: "dm_fixed dm1 = dm_fixed dm"
    using s1 handled_assigned_fixed by (fastforce simp: Let_def split: if_splits prod.splits)
  show ?case
  proof (cases ctl)
    case Dm_Panic
    with s1 have "owner = local_id dm" by (auto simp: Let_def split: if_splits prod.splits)
    with s1 Dm_Panic handled_assigned_panics [of env "(v, i)" "get_shard (v, i) dm" dm c] show ?thesis
      using completed_by_enough by (fastforce simp: decoding_panics_def)
  qed (use Cons s1 decoding_panics_fixed [OF fixed, of env] in \<open>auto simp: x\<close>)
qed simp

lemma dm_event_panics:
  assumes "closes_after c = None" and "dm_event env e (dm, c) = (ctl, dm', c')"
  shows "case e of
      PrepareServiceRequest v d \<Rightarrow> ctl = Dm_Panic \<longleftrightarrow> (\<forall>m. rs_wrapper_encode (feature env) (encoding dm) d \<noteq> Ok m)
    | InAssignedResponse fid x \<Rightarrow> ctl = Dm_Panic \<longleftrightarrow>
        (\<exists>shard shards. x = Some shard \<and> completed_by fid shard dm = Some shards
           \<and> rs_wrapper_decode (feature env) (shards_order env) (encoding dm) shards = Panic)
    | RecollectRequest v \<Rightarrow> ctl = Dm_Panic \<longrightarrow> decoding_panics env dm
    | _ \<Rightarrow> ctl \<noteq> Dm_Panic"
proof (cases e)
  case (RecollectRequest v)
  with assms show ?thesis
    by (auto simp: sink_simps decoding_panics_fixed [of "dm\<lparr>currently_assembled := _\<rparr>" dm] dm_simps
        split: option.splits if_splits dest!: request_shards_panics)
next
  case (InAssignedResponse fid x)
  with assms(2) handled_assigned_panics [of env fid x dm c] show ?thesis by simp
next
  case (InServeShardResponse fid x)
  with assms handled_serve_open [OF assms(1), of fid x dm ctl dm' c'] show ?thesis by auto
next
  case (StorageRequestTx v p)
  with assms handled_serve_open [OF assms(1)] show ?thesis by (fastforce simp: sink_simps split: option.splits if_splits)
qed (use assms in \<open>auto simp: sink_simps Let_def split: option.splits outcome.splits if_splits prod.splits\<close>)

lemma dm_run_append:
  "dm_run env xs s = (Dm_Continue, s') \<Longrightarrow> dm_run env (xs @ ys) s = dm_run env ys s'"
  by (induction xs arbitrary: s) (auto split: prod.splits dm_ctl.splits)

subsection \<open>Distribution of a data unit\<close>

text \<open>The whole cycle of a distribution: the put, then a confirmation of every shard.\<close>

definition distribution_cycle :: "Vid \<Rightarrow> Data \<Rightarrow> (Sid \<times> PeerId) list \<Rightarrow> dm_select list" where
  "distribution_cycle v d cs = DmInput (Some (PrepareServiceRequest v d)) # confirmations v cs"

lemma distributed_run:
  assumes "closes_after c = None" and "fmlookup (data_known_locations dm) v = None" and "rs_wrapper (encoding dm) ord"
    and "wf_data (feature env) d" and "distinct (map fst cs)" and "length cs = total_shards_n dm"
  shows "\<exists>dm'. dm_run env (distribution_cycle v d cs) ((dm, c), a) = (Dm_Continue, (dm',
      c\<lparr>sent := sent c @ [PreparedServiceResponse v, DistributionSufficient v, DistributionFull v]\<rparr>), a)
      \<and> locations_known dm' v = fmap_of_list cs \<and> dm_fixed dm' = dm_fixed dm"
proof -
  let ?c = "c\<lparr>sent := sent c @ [PreparedServiceResponse v]\<rparr>"
  obtain m where m: "rs_wrapper_encode (feature env) (encoding dm) d = Ok m"
    using rs_wrapper.encode_rows_out [OF assms(3,4)] by blast
  let ?dm = "prepare_to_serve_shards v m dm"
  have fixed: "dm_fixed ?dm = dm_fixed dm" by (simp add: prepare_to_serve_shards_def dm_simps)
  have l: "locations_known ?dm v = fmempty"
    using assms(2) by (simp add: locations_known_def hm_or_default_def prepare_to_serve_shards_def)
  have "total_shards_n dm = total_shard_count (encoding dm)" "sufficient_shards_n dm = 2" "2 \<le> total_shard_count (encoding dm)"
    using rs_wrapper.two_data [OF assms(3)] rs_wrapper.few_shards [OF assms(3)]
    by (simp_all add: sufficient_shards_n_def total_shards_n_def rs_wrapper_settings_def unat_of_nat_u64 del: of_nat_add)
      (simp add: total_shard_count_def)
  then have n: "0 < sufficient_shards_n ?dm" "sufficient_shards_n ?dm \<le> total_shards_n ?dm" "total_shards_n ?dm = length cs"
    using assms(6) dm_fixed_sel [OF fixed] by simp_all
  have f: "fold (\<lambda>(i, p) m. fmupd i p m) cs fmempty = fmap_of_list cs"
    using hm_collect_distinct [OF assms(5)] by (intro fmap_ext) (simp add: hm_collect_def fmlookup_of_list)
  obtain dm' where run: "dm_run env (confirmations v cs) ((?dm, ?c), a) = (Dm_Continue, (dm',
      ?c\<lparr>sent := sent ?c @ [DistributionSufficient v, DistributionFull v]\<rparr>), a)" "locations_known dm' v = fmap_of_list cs"
    using confirmations_run [of ?c cs ?dm v env a] milestones_concat [of 0 ?dm v "length cs"] n assms(1,5) l f
    by (auto simp del: upt_Suc)
  have "dm_fixed dm' = dm_fixed dm" using dm_run_fixed [OF run(1)] fixed by simp
  with run m assms(1) show ?thesis by (simp add: distribution_cycle_def sink_simps)
qed

lemma hm_len_of_list:
  assumes "distinct (map fst xs)"
  shows "hm_len (fmap_of_list xs) = length xs"
proof -
  from assms have "card (fst ` set xs) = length xs" by (metis distinct_card length_map set_map)
  then show ?thesis by (simp add: hm_len_def fcard.rep_eq fset_of_list.rep_eq)
qed

lemma full_confirmation_drops:
  assumes "closes_after c = None" and "hm_len (locations_known dm v) = total_shards_n dm"
    and "i \<in> fmdom' (locations_known dm v)"
  shows "\<exists>dm' reports. dm_event env (StoreConfirmed (v, i) p) (dm, c) = (Dm_Continue, dm', c\<lparr>sent := sent c @ reports\<rparr>)
    \<and> DistributionFull v \<in> set reports \<and> (\<forall>j. serve_shard (v, j) dm' = None)"
proof -
  obtain dm' where "on_store_confirmed (v, i) p (dm, c) =
      (Dm_Continue, dm', c\<lparr>sent := sent c @ milestones dm v (hm_len (fmupd i p (locations_known dm v)))\<rparr>)"
    "hm_len (fmupd i p (locations_known dm v)) = total_shards_n dm \<Longrightarrow> fmlookup (to_distribute dm') v = None"
    using on_store_confirmed_open [OF assms(1), of v i p dm] by metis
  moreover have "hm_len (fmupd i p (locations_known dm v)) = total_shards_n dm"
    using assms(2,3) by (auto simp: hm_len_upd fmlookup_dom'_iff)
  ultimately show ?thesis by (auto simp: milestones_def serve_shard_def hm_get2_def)
qed

subsection \<open>Properties\<close>

text \<open>C16: confirmations of distinct shards of a data unit that was unknown before, in any order,
  are reported as a sufficient distribution exactly once, when their number reaches the sufficient
  one, and as a full one exactly once, when it reaches the total; never earlier.\<close>

theorem distribution_reported_once:
  assumes "closes_after c = None" and "fmlookup (data_known_locations dm) v = None"
    and "0 < sufficient_shards_n dm" and "sufficient_shards_n dm \<le> total_shards_n dm"
    and "distinct (map fst cs)"
  shows "\<exists>dm'. dm_run env (confirmations v cs) ((dm, c), a) = (Dm_Continue, (dm',
      c\<lparr>sent := sent c @ (if sufficient_shards_n dm \<le> length cs then [DistributionSufficient v] else [])
             @ (if total_shards_n dm \<le> length cs then [DistributionFull v] else [])\<rparr>), a)
      \<and> locations_known dm' v = fmap_of_list cs"
proof -
  have l: "locations_known dm v = fmempty"
    using assms(2) by (simp add: locations_known_def hm_or_default_def)
  have "fold (\<lambda>(i, p) m. fmupd i p m) cs fmempty = fmap_of_list cs"
    using hm_collect_distinct [OF assms(5)]
    by (intro fmap_ext) (simp add: hm_collect_def fmlookup_of_list)
  with confirmations_run [OF assms(1,5), of dm v env a] milestones_concat [of 0 dm v "length cs"] assms(3,4)
  show ?thesis by (simp add: l del: upt_Suc)
qed

theorem distribution_reported_once_witness:
  "\<exists>dm'. dm_run (sorted_env Default_Array)
      (confirmations (Vid 7) [(Sid 2, 3), (Sid 0, 1), (Sid 1, 2)]) ((example_memory 1, open_sink), []) =
      (Dm_Continue, (dm', \<lparr>sent = [DistributionSufficient (Vid 7), DistributionFull (Vid 7)],
         closes_after = None\<rparr>), [])
      \<and> locations_known dm' (Vid 7) = fmap_of_list [(Sid 2, 3), (Sid 0, 1), (Sid 1, 2)]"
  using distribution_reported_once [of open_sink "example_memory 1" "Vid 7" "[(Sid 2, 3), (Sid 0, 1), (Sid 1, 2)]"
      "sorted_env Default_Array" "[]"]
  by (simp add: initialize_def sufficient_shards_n_def total_shards_n_def rs_wrapper_settings_def
      total_shard_count_def)

text \<open>C30: while its output stays open, three kinds of events stop the memory. The notification that a
  peer without an assigned shard executed a program makes the whole task return, with the state
  unchanged. A put panics exactly if its data does not encode; a shard panics exactly if it completes a part whose
  decoding panics, and a recollection panics only if a decoding of enough shards can. Nothing else stops the memory, and
  nothing cancels the shutdown token.\<close>

theorem dm_event_stops:
  assumes "closes_after c = None" and "dm_event env e (dm, c) = (ctl, dm', c')"
  shows "closes_after c' = None \<and> ctl \<noteq> Dm_Cancel
    \<and> (ctl = Dm_Return \<longleftrightarrow>
         (\<exists>p ids. e = PeerShardsActualized p ids \<and> fmlookup (distribution dm) p = None \<and> dm' = dm))
    \<and> (case e of
         PrepareServiceRequest v d \<Rightarrow> ctl = Dm_Panic \<longleftrightarrow> (\<forall>m. rs_wrapper_encode (feature env) (encoding dm) d \<noteq> Ok m)
       | InAssignedResponse fid x \<Rightarrow> ctl = Dm_Panic \<longleftrightarrow>
           (\<exists>shard shards. x = Some shard \<and> completed_by fid shard dm = Some shards
              \<and> rs_wrapper_decode (feature env) (shards_order env) (encoding dm) shards = Panic)
       | RecollectRequest v \<Rightarrow> ctl = Dm_Panic \<longrightarrow> decoding_panics env dm
       | _ \<Rightarrow> ctl \<noteq> Dm_Panic)"
proof -
  have "closes_after c' = None \<and> ctl \<noteq> Dm_Cancel \<and> (ctl = Dm_Return \<longleftrightarrow>
         (\<exists>p ids. e = PeerShardsActualized p ids \<and> fmlookup (distribution dm) p = None \<and> dm' = dm))"
    using dm_event_open [OF assms] assms(2) by (cases e) (auto split: option.splits)
  with dm_event_panics [OF assms] show ?thesis by blast
qed

theorem dm_event_stops_witness:
  "fst (dm_event (sorted_env Default_Array) (PeerShardsActualized 9 [Vid 7]) (example_memory 1, open_sink))
     = Dm_Return"
proof -
  obtain ctl dm' c' where e: "dm_event (sorted_env Default_Array) (PeerShardsActualized 9 [Vid 7])
      (example_memory 1, open_sink) = (ctl, dm', c')" by (metis surj_pair)
  then have "dm' = example_memory 1" "fmlookup (distribution (example_memory 1)) 9 = None"
    by (auto simp: initialize_def split: option.splits)
  then show ?thesis using dm_event_stops [OF _ e] by (simp add: e)
qed

text \<open>After a data unit is prepared for distribution, each of its shards is served on request
  until the shard's storage is confirmed, and is not served afterwards.\<close>

lemma prepared_shards_served:
  assumes "rs_wrapper (encoding dm) ord" and "wf_data (feature env) d" and "closes_after c = None"
  shows "\<exists>dm'. dm_event env (PrepareServiceRequest v d) (dm, c)
        = (Dm_Continue, dm', c\<lparr>sent := sent c @ [PreparedServiceResponse v]\<rparr>)
    \<and> (\<forall>i. serve_shard (v, i) dm' = shard_of (feature env) (encoding dm) i d)
    \<and> (\<forall>i. serve_shard (v, i) dm' \<noteq> None \<longleftrightarrow> unat (sid_raw i) < total_shard_count (encoding dm))
    \<and> (\<forall>i j p. serve_shard (v, j) (observe_new_location (v, i) p dm')
           = (if j = i then None else serve_shard (v, j) dm'))"
proof -
  obtain m where m: "rs_wrapper_encode (feature env) (encoding dm) d = Ok m"
    using rs_wrapper.encode_rows_out [OF assms(1,2)] by blast
  let ?dm = "prepare_to_serve_shards v m dm"
  have "serve_shard (v, i) ?dm = shard_of (feature env) (encoding dm) i d" for i
    by (simp add: serve_shard_def prepare_to_serve_shards_def hm_get2_def shard_of_def m)
  moreover have "serve_shard (v, j) (observe_new_location (v, i) p ?dm)
      = (if j = i then None else serve_shard (v, j) ?dm)" for i j p
    by (simp add: serve_shard_def dm_simps)
  ultimately show ?thesis
    using m assms(3) rs_wrapper.shard_of_index [OF assms(1,2)]
    by (intro exI [of _ ?dm]) (simp add: sink_simps)
qed

lemma verify_distribution_iff:
  assumes "total_shard_count (un_encoding un) < 2 ^ 64"
  shows "verify_distribution un distr \<longleftrightarrow>
    fmran' distr = (\<lambda>i. Sid (of_nat i)) ` {..<total_shard_count (un_encoding un)}"
  using assms
  by (simp add: verify_distribution_def rs_wrapper_settings_def unat_of_nat_u64 fset_of_list.rep_eq
      lessThan_atLeast0 fmran'_alt_def flip: fset_inject)

text \<open>Before initialization the memory accepts exactly the distributions in which each shard id
  from \<open>0\<close> to the total has a peer and no other id occurs; it then announces itself once and starts
  empty. It ignores every other distribution and every other event.\<close>

lemma initialization:
  assumes "closes_after c = None" and "total_shard_count (un_encoding un) < 2 ^ 64"
  shows "un_run_step (DmInput (Some (Initialize distr))) un c =
    (if fmran' (hm_collect distr) = (\<lambda>i. Sid (of_nat i)) ` {..<total_shard_count (un_encoding un)}
     then (UnInit (initialize un (hm_collect distr)), c\<lparr>sent := sent c @ [DmInitialized]\<rparr>)
     else (UnContinue, c))"
  using assms(1) by (auto simp: sink_simps verify_distribution_iff [OF assms(2)])

text \<open>The list of distributed data holds exactly the ids with at least the sufficient number
  of known locations, each once and with its locations, whatever the iteration order.\<close>

lemma list_distributed_exact:
  assumes "hash_ordered (known_order env)" and "closes_after c = None"
  shows "\<exists>xs. dm_event env InListDistributed (dm, c)
        = (Dm_Continue, dm, c\<lparr>sent := sent c @ [OutListDistributed xs]\<rparr>)
    \<and> distinct (map fst xs)
    \<and> (\<forall>v locs. (v, locs) \<in> set xs \<longleftrightarrow> fmlookup (data_known_locations dm) v = Some locs
         \<and> sufficient_shards_n dm \<le> hm_len locs)"
proof -
  have ord: "hash_iteration (known_order env)" using assms(1) by (rule hash_iteration.intro)
  let ?xs = "filter (\<lambda>(_, locations). hm_len locations \<ge> sufficient_shards_n dm)
      (known_order env (data_known_locations dm))"
  have "distinct (map fst ?xs)"
    using hash_iteration.ord_distinct [OF ord] by (rule distinct_map_filter)
  with assms(2) hash_iteration.ord_mem [OF ord] show ?thesis
    by (intro exI [of _ ?xs]) (auto simp: sink_simps)
qed

text \<open>C38: a data unit is put under an id, and all its shards are stored and confirmed. Then other data is put under
  the same id: its shards are served, but the first confirmation of one of them reports the distribution as full, and
  from then on none of the others is served: they are lost.\<close>

theorem redistribution_dropped:
  assumes "closes_after c = None" and "fmlookup (data_known_locations dm) v = None" and "rs_wrapper (encoding dm) ord"
    and "wf_data (feature env) d" and "wf_data (feature env) d'"
    and "distinct (map fst cs)" and "length cs = total_shards_n dm" and "i \<in> fst ` set cs"
  shows "\<exists>dm1 dm2 c1 reports. dm_run env (distribution_cycle v d cs @ [DmInput (Some (PrepareServiceRequest v d'))]) ((dm, c), a) =
        (Dm_Continue, (dm1, c1), a)
    \<and> sent c1 = sent c @ [PreparedServiceResponse v, DistributionSufficient v, DistributionFull v, PreparedServiceResponse v]
    \<and> (\<forall>j. serve_shard (v, j) dm1 = shard_of (feature env) (encoding dm) j d')
    \<and> dm_event env (StoreConfirmed (v, i) p) (dm1, c1) = (Dm_Continue, dm2, c1\<lparr>sent := sent c1 @ reports\<rparr>)
    \<and> DistributionFull v \<in> set reports \<and> (\<forall>j. serve_shard (v, j) dm2 = None)"
proof -
  obtain dm0 where run: "dm_run env (distribution_cycle v d cs) ((dm, c), a) = (Dm_Continue, (dm0,
      c\<lparr>sent := sent c @ [PreparedServiceResponse v, DistributionSufficient v, DistributionFull v]\<rparr>), a)" (is "_ = (_, (_, ?c0), _)")
      "locations_known dm0 v = fmap_of_list cs" "dm_fixed dm0 = dm_fixed dm"
    using distributed_run [OF assms(1-4,6,7)] by blast
  have enc: "encoding dm0 = encoding dm" "total_shards_n dm0 = length cs"
    using dm_fixed_sel [OF run(3)] assms(7) by simp_all
  obtain m where m: "rs_wrapper_encode (feature env) (encoding dm) d' = Ok m"
    using rs_wrapper.encode_rows_out [OF assms(3,5)] by blast
  let ?dm1 = "prepare_to_serve_shards v m dm0" and ?c1 = "?c0\<lparr>sent := sent ?c0 @ [PreparedServiceResponse v]\<rparr>"
  have l: "locations_known ?dm1 v = fmap_of_list cs" "total_shards_n ?dm1 = length cs"
    using run(2) enc(2) by (simp_all add: locations_known_def prepare_to_serve_shards_def total_shards_n_def)
  obtain dm2 reports where "dm_event env (StoreConfirmed (v, i) p) (?dm1, ?c1) = (Dm_Continue, dm2, ?c1\<lparr>sent := sent ?c1 @ reports\<rparr>)"
      "DistributionFull v \<in> set reports" "\<forall>j. serve_shard (v, j) dm2 = None"
    using full_confirmation_drops [of ?c1 ?dm1 v i env p] assms(1,8) hm_len_of_list [OF assms(6)]
    by (auto simp: l fmdom'_alt_def fset_of_list.rep_eq)
  moreover have "dm_run env (distribution_cycle v d cs @ [DmInput (Some (PrepareServiceRequest v d'))]) ((dm, c), a) = (Dm_Continue, (?dm1, ?c1), a)"
    using dm_run_append [OF run(1)] m enc(1) assms(1) by (simp add: sink_simps)
  moreover have "\<forall>j. serve_shard (v, j) ?dm1 = shard_of (feature env) (encoding dm) j d'"
    by (simp add: serve_shard_def prepare_to_serve_shards_def hm_get2_def shard_of_def m)
  ultimately show ?thesis by (intro exI [of _ ?dm1] exI [of _ dm2] exI [of _ ?c1] exI [of _ reports]) simp
qed

theorem redistribution_dropped_witness:
  "\<exists>dm1 dm2 c1 reports. dm_run (sorted_env Default_Array) (distribution_cycle (Vid 7) example_data [(Sid 0, 1), (Sid 1, 2), (Sid 2, 3)]
        @ [DmInput (Some (PrepareServiceRequest (Vid 7) (Data [8, 7, 6, 5, 4, 3, 2, 1])))]) ((example_memory 1, open_sink), [])
      = (Dm_Continue, (dm1, c1), [])
    \<and> serve_shard (Vid 7, Sid 1) dm1 = Some (Shard [4, 3, 2, 1])
    \<and> dm_event (sorted_env Default_Array) (StoreConfirmed (Vid 7, Sid 0) 1) (dm1, c1) = (Dm_Continue, dm2, c1\<lparr>sent := sent c1 @ reports\<rparr>)
    \<and> serve_shard (Vid 7, Sid 1) dm2 = None"
proof -
  have "shard_of Default_Array parity_wrapper (Sid 1) (Data [8, 7, 6, 5, 4, 3, 2, 1]) = Some (Shard [4, 3, 2, 1])" by code_simp
  moreover have "encoding (example_memory 1) = parity_wrapper" by (simp add: initialize_def)
  moreover have "\<exists>dm1 dm2 c1 reports. dm_run (sorted_env Default_Array) (distribution_cycle (Vid 7) example_data [(Sid 0, 1), (Sid 1, 2), (Sid 2, 3)]
        @ [DmInput (Some (PrepareServiceRequest (Vid 7) (Data [8, 7, 6, 5, 4, 3, 2, 1])))]) ((example_memory 1, open_sink), [])
      = (Dm_Continue, (dm1, c1), []) 
    \<and> sent c1 = sent open_sink @ [PreparedServiceResponse (Vid 7), DistributionSufficient (Vid 7), DistributionFull (Vid 7),
        PreparedServiceResponse (Vid 7)]
    \<and> (\<forall>j. serve_shard (Vid 7, j) dm1 = shard_of (feature (sorted_env Default_Array)) (encoding (example_memory 1)) j (Data [8, 7, 6, 5, 4, 3, 2, 1]))
    \<and> dm_event (sorted_env Default_Array) (StoreConfirmed (Vid 7, Sid 0) 1) (dm1, c1) = (Dm_Continue, dm2, c1\<lparr>sent := sent c1 @ reports\<rparr>)
    \<and> DistributionFull (Vid 7) \<in> set reports \<and> (\<forall>j. serve_shard (Vid 7, j) dm2 = None)"
    by (rule redistribution_dropped [where ord = sorted_list_of_fmap])
      (simp_all add: parity_crate [simplified] wf_data_def data_len_def DATA_SHARDS_COUNT_def initialize_def
        total_shards_n_def rs_wrapper_settings_def total_shard_count_def)
  ultimately show ?thesis by (metis dm_env.select_convs(1))
qed

end
