(* ===== verification/Swarm_Protocol.thy ===== *)
theory Swarm_Protocol
  imports Swarm_Data_Memory
begin

text \<open>
  The messages of \<open>protocol/mod.rs\<close> and the bridge of \<open>request_response.rs\<close> between libp2p's
  request-response events and the main behaviour.
\<close>

subsection \<open>\<open>protocol/mod.rs\<close>\<close>

datatype Request = GetShard FullShardId | ServeShard FullShardId

datatype ProtoResponse = GetShardResponse "Shard option" | ServeShardResponse "Shard option"

text \<open>\<open>'ev\<close> is an event of the consensus graph with its signature; a graph update is a list of
  them.\<close>

datatype 'ev Simple = GossipGraph "'ev list"

datatype 'ev Primary = PrimaryRequest Request | PrimarySimple "'ev Simple"

datatype 'ev Message = PrimaryMessage "'ev Primary" | SecondaryMessage ProtoResponse

subsection \<open>\<open>request_response.rs\<close>\<close>

text \<open>\<open>RequestId\<close> and \<open>ResponseChannel\<close> are opaque handles of libp2p.\<close>

type_synonym RequestId = nat
type_synonym ResponseChannel = nat

datatype RrOutEvent =
    AssignedRequestId RequestId Request
  | RrResponse RequestId ProtoResponse
  | IncomingRequest RequestId Request ResponseChannel

datatype RrInEvent =
    MakeRequest Request PeerId
  | Respond RequestId ResponseChannel ProtoResponse

datatype RrMessage =
    MessageRequest RequestId Request ResponseChannel
  | MessageResponse RequestId ProtoResponse

datatype RrEvent =
    RrMessageEvent PeerId RrMessage
  | OutboundFailure PeerId RequestId string
  | InboundFailure PeerId RequestId string
  | ResponseSent PeerId RequestId

text \<open>The result tells whether the behaviour is still there.\<close>

fun handle_request_response_event :: "RrEvent \<Rightarrow> RrOutEvent sink \<Rightarrow> bool \<times> RrOutEvent sink" where
  "handle_request_response_event (RrMessageEvent peer (MessageRequest request_id request channel)) c =
     sink_send (IncomingRequest request_id request channel) c"
| "handle_request_response_event (RrMessageEvent peer (MessageResponse request_id response)) c =
     sink_send (RrResponse request_id response) c"
| "handle_request_response_event (OutboundFailure peer request_id err) c = (True, c)"
| "handle_request_response_event (InboundFailure peer request_id err) c = (True, c)"
| "handle_request_response_event (ResponseSent peer request_id) c = (True, c)"

end
