(* ===== verification/Swarm_Instruction_Storage.thy ===== *)
theory Swarm_Instruction_Storage
  imports Swarm_Program Swarm_Module
begin

text \<open>
  The instruction memory of \<open>instruction_storage/mod.rs\<close>: it hands finalized programs on for
  execution and counts the peers that report a program as executed. The theorems relate it to
  the set of reporting peers: a program is announced as finished exactly once, with the report
  that reaches the threshold.
\<close>

subsection \<open>State\<close>

datatype ExecutionState = Executing "PeerId fset" | Finished

definition default_execution_state :: ExecutionState where
  "default_execution_state = Executing {||}"

record ProgramMetadata =
  exec_state :: ExecutionState
  affected_data_ids :: "Vid list"

record InstructionMemory =
  currently_executed :: "(ProgramIdentifier, ProgramMetadata) HashMap"
  accept_threshold :: nat

datatype IsOutEvent =
    NextProgram Program
  | IsFinishedExecution ProgramIdentifier
  | IsPeerShardsActualized ProgramIdentifier PeerId "Vid list"

datatype IsInEvent =
    FinalizedProgram Program
  | ExecutedProgram PeerId ProgramIdentifier

subsection \<open>Operations\<close>

definition InstructionMemory_new :: "nat \<Rightarrow> InstructionMemory" where
  "InstructionMemory_new execution_confirmations_threshold =
     \<lparr>currently_executed = fmempty, accept_threshold = execution_confirmations_threshold\<rparr>"

text \<open>\<open>true\<close> if this notification resulted in the state \<open>Finished\<close>.\<close>

definition notify_executed ::
  "PeerId \<Rightarrow> ProgramIdentifier \<Rightarrow> InstructionMemory \<Rightarrow> bool \<times> InstructionMemory" where
  "notify_executed who program im =
     (case fmlookup (currently_executed im) program of
        None \<Rightarrow> (False, im)
      | Some metadata \<Rightarrow>
          (case exec_state metadata of
             Executing peers_finished \<Rightarrow>
               (let peers_finished = finsert who peers_finished;
                    done = fcard peers_finished \<ge> accept_threshold im;
                    st = (if done then Finished else Executing peers_finished)
                in (done, im\<lparr>currently_executed :=
                       fmupd program (metadata\<lparr>exec_state := st\<rparr>) (currently_executed im)\<rparr>))
           | Finished \<Rightarrow> (False, im)))"

text \<open>The ids are collected in a hash set and listed in its iteration order.\<close>

definition compute_affected_data_ids :: "(Vid fset \<Rightarrow> Vid list) \<Rightarrow> Instructions \<Rightarrow> Vid list" where
  "compute_affected_data_ids ord ins = ord (fset_of_list (map result ins))"

definition new_started_executing :: "(Vid fset \<Rightarrow> Vid list) \<Rightarrow> Instructions \<Rightarrow> ProgramMetadata" where
  "new_started_executing ord ins =
     \<lparr>exec_state = default_execution_state, affected_data_ids = compute_affected_data_ids ord ins\<rparr>"

definition notify_finalized ::
  "(Vid fset \<Rightarrow> Vid list) \<Rightarrow> ProgramIdentifier \<Rightarrow> Instructions \<Rightarrow> InstructionMemory
   \<Rightarrow> InstructionMemory" where
  "notify_finalized ord program ins im =
     (case fmlookup (currently_executed im) program of
        Some _ \<Rightarrow> im
      | None \<Rightarrow> im\<lparr>currently_executed :=
                  fmupd program (new_started_executing ord ins) (currently_executed im)\<rparr>)"

text \<open>One iteration of \<open>run\<close> on an event, its result being whether the loop goes on. The closed
  input channel and the cancel signal end the loop.\<close>

datatype is_select = IsInput "IsInEvent option" | IsCancelled

fun is_run_event ::
  "(Vid fset \<Rightarrow> Vid list) \<Rightarrow> IsInEvent \<Rightarrow> InstructionMemory \<times> IsOutEvent sink
   \<Rightarrow> bool \<times> InstructionMemory \<times> IsOutEvent sink" where
  "is_run_event ord (FinalizedProgram program) (im, c) =
     (let im = notify_finalized ord (program_identifier program) (instructions program) im;
          (ok, c) = sink_send (NextProgram program) c
      in (ok, im, c))"
| "is_run_event ord (ExecutedProgram peer program_id) (im, c) =
     (let (finished, im) = notify_executed peer program_id im;
          (ok, c) = (if finished then sink_send (IsFinishedExecution program_id) c else (True, c))
      in if \<not> ok then (False, im, c)
         else (case fmlookup (currently_executed im) program_id of
                 None \<Rightarrow> (True, im, c)
               | Some metadata \<Rightarrow>
                   (let (ok, c) = sink_send
                          (IsPeerShardsActualized program_id peer (affected_data_ids metadata)) c
                    in (ok, im, c))))"

fun is_run_step ::
  "(Vid fset \<Rightarrow> Vid list) \<Rightarrow> is_select \<Rightarrow> InstructionMemory \<times> IsOutEvent sink
   \<Rightarrow> bool \<times> InstructionMemory \<times> IsOutEvent sink" where
  "is_run_step ord (IsInput (Some e)) s = is_run_event ord e s"
| "is_run_step ord (IsInput None) (im, c) = (False, im, c)"
| "is_run_step ord IsCancelled (im, c) = (False, im, c)"

fun is_run ::
  "(Vid fset \<Rightarrow> Vid list) \<Rightarrow> is_select list \<Rightarrow> InstructionMemory \<times> IsOutEvent sink
   \<Rightarrow> InstructionMemory \<times> IsOutEvent sink" where
  "is_run ord [] s = s"
| "is_run ord (x # xs) s =
     (case is_run_step ord x s of (True, s') \<Rightarrow> is_run ord xs s' | (False, s') \<Rightarrow> s')"

subsection \<open>The specification: who has reported\<close>

text \<open>
  \<open>reports pid es\<close> is \<open>None\<close> before the program with identifier \<open>pid\<close> is finalized and the set
  of peers that have reported it since then afterwards.
\<close>

fun report_step :: "ProgramIdentifier \<Rightarrow> IsInEvent \<Rightarrow> PeerId fset option \<Rightarrow> PeerId fset option" where
  "report_step pid (FinalizedProgram p) r =
     (if program_identifier p = pid then Some (case r of None \<Rightarrow> {||} | Some S \<Rightarrow> S) else r)"
| "report_step pid (ExecutedProgram peer q) r = (if q = pid then map_option (finsert peer) r else r)"

definition reports :: "ProgramIdentifier \<Rightarrow> IsInEvent list \<Rightarrow> PeerId fset option" where
  "reports pid es = fold (report_step pid) es None"

definition reached :: "nat \<Rightarrow> PeerId fset \<Rightarrow> bool" where
  "reached thr S \<longleftrightarrow> S \<noteq> {||} \<and> thr \<le> fcard S"

text \<open>The execution state that a set of reports stands for.\<close>

definition abs_state :: "nat \<Rightarrow> PeerId fset \<Rightarrow> ExecutionState" where
  "abs_state thr S = (if reached thr S then Finished else Executing S)"

definition tracks :: "InstructionMemory \<Rightarrow> (ProgramIdentifier \<Rightarrow> PeerId fset option) \<Rightarrow> bool" where
  "tracks im r \<longleftrightarrow> (\<forall>pid. map_option exec_state (fmlookup (currently_executed im) pid)
     = map_option (abs_state (accept_threshold im)) (r pid))"

subsection \<open>Lemmas\<close>

lemma reached_mono: "reached thr S \<Longrightarrow> reached thr (finsert x S)"
  by (auto simp: reached_def fcard_finsert_if)

lemma notify_finalized_tracks:
  assumes "tracks im r"
  shows "tracks (notify_finalized ord (program_identifier p) (instructions p) im)
    (\<lambda>pid. report_step pid (FinalizedProgram p) (r pid))"
proof (cases "fmlookup (currently_executed im) (program_identifier p)")
  case None
  then have "r (program_identifier p) = None"
    using assms by (metis option.map_disc_iff tracks_def)
  with None assms show ?thesis
    by (auto simp: notify_finalized_def tracks_def new_started_executing_def
        default_execution_state_def abs_state_def reached_def)
next
  case (Some md)
  then obtain S where "r (program_identifier p) = Some S"
    using assms unfolding tracks_def by (metis option.exhaust option.simps(8,9) not_None_eq)
  with Some assms show ?thesis
    by (auto simp: notify_finalized_def tracks_def)
qed

text \<open>The notification tells whether the new report is the one that reaches the threshold.\<close>

lemma notify_executed_tracks:
  assumes tr: "tracks im r" and ne: "notify_executed who pid im = (fin, im')"
  shows "tracks im' (\<lambda>q. report_step q (ExecutedProgram who pid) (r q))"
    and "fin \<longleftrightarrow> (\<exists>S. r pid = Some S \<and> \<not> reached (accept_threshold im) S
           \<and> reached (accept_threshold im) (finsert who S))"
    and "accept_threshold im' = accept_threshold im"
    and "fmdom' (currently_executed im') = fmdom' (currently_executed im)"
    and "map_option affected_data_ids (fmlookup (currently_executed im') q)
           = map_option affected_data_ids (fmlookup (currently_executed im) q)"
proof -
  let ?thr = "accept_threshold im"
  have lk: "map_option exec_state (fmlookup (currently_executed im) q)
      = map_option (abs_state ?thr) (r q)" for q
    using tr by (simp add: tracks_def)
  show thr: "accept_threshold im' = ?thr"
    and "fmdom' (currently_executed im') = fmdom' (currently_executed im)"
    and "map_option affected_data_ids (fmlookup (currently_executed im') q)
           = map_option affected_data_ids (fmlookup (currently_executed im) q)"
    using ne by (auto simp: notify_executed_def Let_def fmdom'_alt_def fmlookup_dom_iff
        split: option.splits ExecutionState.splits)
  have "tracks im' (\<lambda>q. report_step q (ExecutedProgram who pid) (r q))
      \<and> (fin \<longleftrightarrow> (\<exists>S. r pid = Some S \<and> \<not> reached ?thr S \<and> reached ?thr (finsert who S)))"
  proof (cases "r pid")
    case None
    then have "fmlookup (currently_executed im) pid = None" using lk [of pid] by simp
    with None ne tr show ?thesis by (auto simp: notify_executed_def tracks_def)
  next
    case (Some S)
    then obtain md where md: "fmlookup (currently_executed im) pid = Some md"
      "exec_state md = abs_state ?thr S" using lk [of pid] by auto
    show ?thesis
    proof (cases "reached ?thr S")
      case True
      with md ne have "im' = im" "fin = False" by (auto simp: notify_executed_def abs_state_def)
      with True Some tr show ?thesis
        by (auto simp: tracks_def abs_state_def reached_mono)
    next
      case False
      have fin: "fin \<longleftrightarrow> reached ?thr (finsert who S)"
        and im': "im' = im\<lparr>currently_executed := fmupd pid
              (md\<lparr>exec_state := abs_state ?thr (finsert who S)\<rparr>) (currently_executed im)\<rparr>"
        using md ne False by (auto simp: notify_executed_def abs_state_def Let_def reached_def)
      with False Some lk show ?thesis by (auto simp: tracks_def)
    qed
  qed
  then show "tracks im' (\<lambda>q. report_step q (ExecutedProgram who pid) (r q))"
    and "fin \<longleftrightarrow> (\<exists>S. r pid = Some S \<and> \<not> reached ?thr S \<and> reached ?thr (finsert who S))"
    by blast+
qed

subsection \<open>The specification of a whole run\<close>

text \<open>
  What a run sends, as a function of the events alone: a finalized program is handed on; a
  report of a finalized program is passed on with the ids that its first finalization fixed,
  preceded by the announcement when this report reaches the threshold; a report of an unknown
  program is dropped.
\<close>

fun finalized_instructions :: "ProgramIdentifier \<Rightarrow> IsInEvent list \<Rightarrow> Instructions option" where
  "finalized_instructions pid [] = None"
| "finalized_instructions pid (FinalizedProgram p # es) =
     (if program_identifier p = pid then Some (instructions p) else finalized_instructions pid es)"
| "finalized_instructions pid (ExecutedProgram _ _ # es) = finalized_instructions pid es"

fun spec_out ::
  "(Vid fset \<Rightarrow> Vid list) \<Rightarrow> nat \<Rightarrow> IsInEvent list \<Rightarrow> IsInEvent \<Rightarrow> IsOutEvent list" where
  "spec_out ord thr es (FinalizedProgram p) = [NextProgram p]"
| "spec_out ord thr es (ExecutedProgram who pid) =
     (case (reports pid es, finalized_instructions pid es) of
        (Some S, Some ins) \<Rightarrow>
          (if \<not> reached thr S \<and> reached thr (finsert who S) then [IsFinishedExecution pid] else [])
          @ [IsPeerShardsActualized pid who (compute_affected_data_ids ord ins)]
      | _ \<Rightarrow> [])"

definition spec_outs :: "(Vid fset \<Rightarrow> Vid list) \<Rightarrow> nat \<Rightarrow> IsInEvent list \<Rightarrow> IsOutEvent list" where
  "spec_outs ord thr es = concat (map (\<lambda>i. spec_out ord thr (take i es) (es ! i)) [0..<length es])"

lemma spec_outs_Nil [simp]: "spec_outs ord thr [] = []"
  by (simp add: spec_outs_def)

lemma spec_outs_snoc [simp]:
  "spec_outs ord thr (es @ [e]) = spec_outs ord thr es @ spec_out ord thr es e"
proof -
  have "concat (map (\<lambda>i. spec_out ord thr (take i (es @ [e])) ((es @ [e]) ! i)) [0..<length es])
      = spec_outs ord thr es"
    unfolding spec_outs_def by (intro arg_cong [of _ _ concat] map_cong) (simp_all add: nth_append)
  moreover have "take (length es) (es @ [e]) = es" by simp
  ultimately show ?thesis
    by (simp add: spec_outs_def [of ord thr "es @ [e]"] del: take_append map_eq_conv)
qed

lemma reports_Nil [simp]: "reports pid [] = None"
  by (simp add: reports_def)

lemma reports_snoc [simp]: "reports pid (es @ [e]) = report_step pid e (reports pid es)"
  by (simp add: reports_def)

lemma finalized_instructions_snoc [simp]:
  "finalized_instructions pid (es @ [e]) =
     (case finalized_instructions pid es of
        Some ins \<Rightarrow> Some ins
      | None \<Rightarrow> finalized_instructions pid [e])"
  by (induction pid es rule: finalized_instructions.induct) (auto split: option.splits)

lemma finalized_iff_reports: "finalized_instructions pid es = None \<longleftrightarrow> reports pid es = None"
proof (induction es rule: rev_induct)
  case (snoc e es)
  then show ?case by (cases e) (auto split: option.splits)
qed simp

definition run_inv ::
  "(Vid fset \<Rightarrow> Vid list) \<Rightarrow> nat \<Rightarrow> IsInEvent list \<Rightarrow> InstructionMemory \<times> IsOutEvent sink \<Rightarrow> bool" where
  "run_inv ord thr es s \<longleftrightarrow>
     accept_threshold (fst s) = thr \<and> closes_after (snd s) = None
     \<and> tracks (fst s) (\<lambda>pid. reports pid es)
     \<and> (\<forall>pid. map_option affected_data_ids (fmlookup (currently_executed (fst s)) pid)
           = map_option (compute_affected_data_ids ord) (finalized_instructions pid es))
     \<and> sent (snd s) = spec_outs ord thr es"

lemma notify_finalized_ids:
  "map_option affected_data_ids
     (fmlookup (currently_executed (notify_finalized ord pid ins im)) q) =
   (case fmlookup (currently_executed im) q of
      Some md \<Rightarrow> Some (affected_data_ids md)
    | None \<Rightarrow> if q = pid then Some (compute_affected_data_ids ord ins) else None)"
  "accept_threshold (notify_finalized ord pid ins im) = accept_threshold im"
  by (auto simp: notify_finalized_def new_started_executing_def split: option.splits)

lemma run_inv_step:
  assumes inv: "run_inv ord thr es (im, c)"
  obtains im' c' where "is_run_event ord e (im, c) = (True, im', c')"
    "run_inv ord thr (es @ [e]) (im', c')"
proof (cases e)
  case (FinalizedProgram p)
  have ids: "map_option affected_data_ids (fmlookup (currently_executed im) q)
      = map_option (compute_affected_data_ids ord) (finalized_instructions q es)" for q
    using inv by (simp add: run_inv_def)
  show ?thesis
    using inv notify_finalized_tracks [of im "\<lambda>pid. reports pid es" ord p] ids
    by (intro that [of "notify_finalized ord (program_identifier p) (instructions p) im"
          "c\<lparr>sent := sent c @ [NextProgram p]\<rparr>"])
      (auto simp: FinalizedProgram run_inv_def sink_simps notify_finalized_ids
        split: option.splits, (metis option.map_disc_iff option.sel option.map_sel option.distinct(1))+)
next
  case (ExecutedProgram who pid)
  obtain fin im' where ne: "notify_executed who pid im = (fin, im')" by force
  have tr0: "tracks im (\<lambda>pid. reports pid es)" and thr: "accept_threshold im = thr"
    and ids: "map_option affected_data_ids (fmlookup (currently_executed im) q)
      = map_option (compute_affected_data_ids ord) (finalized_instructions q es)" for q
    using inv by (simp_all add: run_inv_def)
  note tr = notify_executed_tracks [OF tr0 ne, unfolded thr]
  have ids': "map_option affected_data_ids (fmlookup (currently_executed im') q)
      = map_option (compute_affected_data_ids ord) (finalized_instructions q (es @ [e]))" for q
    using tr(5) [of q] ids [of q] by (simp add: ExecutedProgram split: option.splits)
  define c1 where "c1 = (if fin then c\<lparr>sent := sent c @ [IsFinishedExecution pid]\<rparr> else c)"
  define c' where "c' = (case finalized_instructions pid es of None \<Rightarrow> c1 | Some ins \<Rightarrow>
      c1\<lparr>sent := sent c1 @ [IsPeerShardsActualized pid who (compute_affected_data_ids ord ins)]\<rparr>)"
  have open_c: "closes_after c = None" "closes_after c1 = None" "closes_after c' = None"
    using inv by (auto simp: run_inv_def c1_def c'_def split: option.splits)
  have "is_run_event ord e (im, c) = (True, im', c')"
    using ids' [of pid] open_c
    by (cases "fmlookup (currently_executed im') pid"; cases "finalized_instructions pid es")
      (auto simp: ExecutedProgram ne c'_def c1_def sink_simps)
  moreover have "sent c' = sent c @ spec_out ord thr es e"
    using tr(2) finalized_iff_reports [of pid es]
    by (auto simp: ExecutedProgram c'_def c1_def split: option.splits)
  ultimately show ?thesis
    using that [of im' c'] inv tr(1,3) ids' open_c(3)
    by (simp add: run_inv_def ExecutedProgram)
qed

lemma is_run_snoc:
  "closes_after (snd s) = None \<Longrightarrow> run_inv ord thr [] s \<Longrightarrow>
   run_inv ord thr es (is_run ord (map (\<lambda>e. IsInput (Some e)) es) s)
   \<and> (\<forall>xs. is_run ord (map (\<lambda>e. IsInput (Some e)) es @ xs) s
        = is_run ord xs (is_run ord (map (\<lambda>e. IsInput (Some e)) es) s))"
proof (induction es rule: rev_induct)
  case (snoc e es)
  let ?r = "is_run ord (map (\<lambda>e. IsInput (Some e)) es) s"
  have inv: "run_inv ord thr es (fst ?r, snd ?r)" using snoc by simp
  obtain im' c' where "is_run_event ord e ?r = (True, im', c')"
    "run_inv ord thr (es @ [e]) (im', c')"
    using run_inv_step [OF inv, of e] by auto
  with snoc show ?case by simp
qed simp

lemma run_inv_new: "run_inv ord thr [] (InstructionMemory_new thr, open_sink)"
  by (simp add: run_inv_def InstructionMemory_new_def tracks_def)

lemmas is_run_from_new = is_run_snoc [OF _ run_inv_new, simplified, THEN conjunct1]

lemma count_finished:
  "count_list (spec_outs ord thr es) (IsFinishedExecution pid)
     = (case reports pid es of Some S \<Rightarrow> if reached thr S then 1 else 0 | None \<Rightarrow> 0)"
proof (induction es rule: rev_induct)
  case (snoc e es)
  then show ?case
  proof (cases e)
    case (ExecutedProgram who q)
    with snoc finalized_iff_reports [of q es] show ?thesis
      by (auto simp: reached_mono split: option.splits)
  qed (auto simp: reached_def split: option.splits)
qed simp

subsection \<open>Properties\<close>

text \<open>C10: from a fresh instruction memory, a run over any sequence of events sends exactly what
  the specification says: finalized programs in order, one actualization per report of a known
  program with the ids it writes, and the announcement right before the report that reaches the
  threshold.\<close>

theorem is_run_refines:
  "sent (snd (is_run ord (map (\<lambda>e. IsInput (Some e)) es) (InstructionMemory_new thr, open_sink)))
     = spec_outs ord thr es"
  using is_run_from_new [of ord thr es] by (simp add: run_inv_def)

text \<open>C11: a program is announced as finished at most once in a run, and exactly when it was
  finalized and then reported by enough distinct peers, whatever is reported repeatedly, early
  or for other programs.\<close>

theorem finished_exactly_once:
  "count_list (sent (snd (is_run ord (map (\<lambda>e. IsInput (Some e)) es)
       (InstructionMemory_new thr, open_sink)))) (IsFinishedExecution pid)
     = (case reports pid es of Some S \<Rightarrow> if reached thr S then 1 else 0 | None \<Rightarrow> 0)"
  using is_run_from_new [of ord thr es] by (simp add: run_inv_def count_finished)

end
