(* ===== verification/Swarm_Consensus.thy ===== *)
theory Swarm_Consensus
  imports Swarm_Program Swarm_Module
begin

text \<open>
  The consensus module of \<open>consensus/mod.rs\<close> and \<open>consensus/graph.rs\<close>: transactions, the buffer
  of scheduled transactions that goes into the next own event, and the stream of transactions
  taken from the events the graph orders. The graph is the crate \<open>rust_hashgraph\<close>, a parameter of
  the model.
\<close>

subsection \<open>Transactions\<close>

datatype Transaction =
    InitializeStorage "(PeerId \<times> Sid) list"
  | StorageRequest Vid
  | Stored Vid Sid
  | ExecuteTx Instructions
  | Executed ProgramIdentifier

text \<open>\<open>{:?}\<close> of the parts of a transaction. The \<open>unwrap\<close> panics when bincode fails.\<close>

record tx_format =
  fmt_data_id :: "Vid \<Rightarrow> string"
  fmt_hash :: "Hash \<Rightarrow> string"
  fmt_program_id :: "ProgramIdentifier \<Rightarrow> string"

fun variant_short_string :: "hash_library \<Rightarrow> tx_format \<Rightarrow> Transaction \<Rightarrow> (unit, string) outcome" where
  "variant_short_string lib fmt (InitializeStorage _) = Ok ''InitializeStorage''"
| "variant_short_string lib fmt (StorageRequest data_id) = Ok (''StorageRequest('' @ fmt_data_id fmt data_id @ '')'')"
| "variant_short_string lib fmt (Stored data_id _) = Ok (''Stored('' @ fmt_data_id fmt data_id @ '')'')"
| "variant_short_string lib fmt (ExecuteTx ins) =
     (case calculate_hash lib ins of
        Ok h \<Rightarrow> Ok (''Execute('' @ fmt_hash fmt h @ '')'')
      | _ \<Rightarrow> Panic)"
| "variant_short_string lib fmt (Executed program_id) = Ok (''Executed('' @ fmt_program_id fmt program_id @ '')'')"

record EventPayload =
  transactions :: "Transaction list"

definition EventPayload_new :: "Transaction list \<Rightarrow> EventPayload" where
  "EventPayload_new txs = \<lparr>transactions = txs\<rparr>"

subsection \<open>The crate \<open>rust_hashgraph\<close>\<close>

text \<open>
  \<open>'g\<close> is the graph, \<open>'ev\<close> an event with its signature as it travels in a synchronization.
  Errors are opaque except the one the module tells apart.
\<close>

datatype PushError = EventAlreadyExists EventHash | OtherPushError string

record EventWrapper =
  author :: PeerId
  payload :: EventPayload
  ev_hash :: EventHash

record ('g, 'ev) graph_library =
  push_event :: "'ev \<Rightarrow> 'g \<Rightarrow> (PushError + unit) \<times> 'g"
  peer_latest_event :: "PeerId \<Rightarrow> 'g \<Rightarrow> EventHash option"
  create_event :: "EventPayload \<Rightarrow> EventHash \<Rightarrow> 'g \<Rightarrow> (string + unit) \<times> 'g"
  graph_self_id :: "'g \<Rightarrow> PeerId"
  next_finalized_event :: "'g \<Rightarrow> EventWrapper option \<times> 'g"
  next_recognized_event :: "'g \<Rightarrow> EventWrapper option \<times> 'g"
  generate_sync_for :: "PeerId \<Rightarrow> 'g \<Rightarrow> string + 'ev list"
  graph_peers :: "'g \<Rightarrow> PeerId list"

subsection \<open>The wrapper\<close>

type_synonym tx_buffer = "PeerId \<times> Transaction list \<times> EventHash"

text \<open>\<open>state_updated\<close> is the stored permit of the \<open>Notify\<close>.\<close>

record 'g GraphWrapper =
  graph :: 'g
  state_updated :: bool
  included_transaction_buffer :: "Transaction list"
  finalized_transaction_buffer :: tx_buffer
  recognized_transaction_buffer :: tx_buffer

definition zero_hash :: EventHash where
  "zero_hash = EventHash (replicate 64 0)"

text \<open>The random peer ids of the fresh buffers are arguments.\<close>

definition from_graph :: "PeerId \<Rightarrow> PeerId \<Rightarrow> 'g \<Rightarrow> 'g GraphWrapper" where
  "from_graph r1 r2 g =
     \<lparr>graph = g, state_updated = False, included_transaction_buffer = [],
      finalized_transaction_buffer = (r1, [], zero_hash),
      recognized_transaction_buffer = (r2, [], zero_hash)\<rparr>"

datatype ApplySyncError = PushFailed PushError | UnknownPeer PeerId | CreateError string

text \<open>The loop over the received events: one that is already known is skipped, any other error
  ends it.\<close>

fun push_events ::
  "('g, 'ev) graph_library \<Rightarrow> 'ev list \<Rightarrow> 'g \<Rightarrow> (ApplySyncError + unit) \<times> 'g" where
  "push_events lib [] g = (Inr (), g)"
| "push_events lib (next_event # rest) g =
     (case push_event lib next_event g of
        (Inr _, g) \<Rightarrow> push_events lib rest g
      | (Inl (EventAlreadyExists _), g) \<Rightarrow> push_events lib rest g
      | (Inl e, g) \<Rightarrow> (Inl (PushFailed e), g))"

definition apply_sync ::
  "('g, 'ev) graph_library \<Rightarrow> PeerId \<Rightarrow> 'ev list \<Rightarrow> 'g GraphWrapper
   \<Rightarrow> (ApplySyncError + unit) \<times> 'g GraphWrapper" where
  "apply_sync lib from sync_jobs w =
     (let w = (if sync_jobs \<noteq> [] then w\<lparr>state_updated := True\<rparr> else w) in
      case push_events lib sync_jobs (graph w) of
        (Inl e, g) \<Rightarrow> (Inl e, w\<lparr>graph := g\<rparr>)
      | (Inr _, g) \<Rightarrow>
          (let txs = included_transaction_buffer w;
               w = w\<lparr>graph := g, included_transaction_buffer := []\<rparr>
           in case peer_latest_event lib from (graph w) of
                None \<Rightarrow> (Inl (UnknownPeer from), w)
              | Some other_parent \<Rightarrow>
                  (case create_event lib (EventPayload_new txs) other_parent (graph w) of
                     (Inl e, g) \<Rightarrow> (Inl (CreateError e), w\<lparr>graph := g\<rparr>)
                   | (Inr _, g) \<Rightarrow> (Inr (), w\<lparr>graph := g, included_transaction_buffer := []\<rparr>))))"

text \<open>\<open>expect("Peer must know itself")\<close> is the panic.\<close>

definition create_standalone_event ::
  "('g, 'ev) graph_library \<Rightarrow> 'g GraphWrapper \<Rightarrow> (string, unit) outcome \<times> 'g GraphWrapper" where
  "create_standalone_event lib w =
     (let w = w\<lparr>state_updated := True\<rparr>;
          txs = included_transaction_buffer w;
          w = w\<lparr>included_transaction_buffer := []\<rparr>
      in case peer_latest_event lib (graph_self_id lib (graph w)) (graph w) of
           None \<Rightarrow> (Panic, w)
         | Some self_parent \<Rightarrow>
             (case create_event lib (EventPayload_new txs) self_parent (graph w) of
                (Inl e, g) \<Rightarrow> (Err e, w\<lparr>graph := g\<rparr>)
              | (Inr _, g) \<Rightarrow> (Ok (), w\<lparr>graph := g\<rparr>)))"

definition push_tx :: "Transaction \<Rightarrow> 'g GraphWrapper \<Rightarrow> 'g GraphWrapper" where
  "push_tx tx w = w\<lparr>included_transaction_buffer := included_transaction_buffer w @ [tx]\<rparr>"

subsection \<open>The stream of transactions\<close>

type_synonym NextTxData = "PeerId \<times> Transaction \<times> EventHash"

datatype NextTx = Recognized NextTxData | Finalized NextTxData

text \<open>The loop of \<open>next_tx\<close>: an outer \<open>None\<close> is a loop that never ends, which the source allows
  when the graph keeps delivering events without transactions.\<close>

partial_function (option) next_tx ::
  "('g \<Rightarrow> EventWrapper option \<times> 'g) \<Rightarrow> 'g \<Rightarrow> tx_buffer
   \<Rightarrow> (NextTxData option \<times> 'g \<times> tx_buffer) option" where
  "next_tx get_next_event g buf =
     (case buf of (a, txs, h) \<Rightarrow>
       (case txs of
          tx # rest \<Rightarrow> Some (Some (a, tx, h), g, (a, rest, h))
        | [] \<Rightarrow>
            (case get_next_event g of
               (None, g) \<Rightarrow> Some (None, g, buf)
             | (Some event, g) \<Rightarrow>
                 (case transactions (payload event) of
                    tx # rest \<Rightarrow>
                      Some (Some (author event, tx, ev_hash event), g, (author event, rest, h))
                  | [] \<Rightarrow> next_tx get_next_event g (author event, [], h)))))"

declare next_tx.simps [code]

definition next_finalized ::
  "('g, 'ev) graph_library \<Rightarrow> 'g GraphWrapper \<Rightarrow> (NextTx option \<times> 'g GraphWrapper) option" where
  "next_finalized lib w =
     (case next_tx (next_finalized_event lib) (graph w) (finalized_transaction_buffer w) of
        None \<Rightarrow> None
      | Some (d, g, buf) \<Rightarrow>
          Some (map_option Finalized d, w\<lparr>graph := g, finalized_transaction_buffer := buf\<rparr>))"

definition next_recognized ::
  "('g, 'ev) graph_library \<Rightarrow> 'g GraphWrapper \<Rightarrow> (NextTx option \<times> 'g GraphWrapper) option" where
  "next_recognized lib w =
     (case next_tx (next_recognized_event lib) (graph w) (recognized_transaction_buffer w) of
        None \<Rightarrow> None
      | Some (d, g, buf) \<Rightarrow>
          Some (map_option Recognized d, w\<lparr>graph := g, recognized_transaction_buffer := buf\<rparr>))"

text \<open>A poll of the stream takes the permit; finalized transactions go before recognized ones.\<close>

definition poll_next ::
  "('g, 'ev) graph_library \<Rightarrow> 'g GraphWrapper \<Rightarrow> (NextTx option Poll \<times> 'g GraphWrapper) option" where
  "poll_next lib w =
     (let w = w\<lparr>state_updated := False\<rparr> in
      case next_finalized lib w of
        None \<Rightarrow> None
      | Some (Some tx, w) \<Rightarrow> Some (Ready (Some tx), w)
      | Some (None, w) \<Rightarrow>
          (case next_recognized lib w of
             None \<Rightarrow> None
           | Some (Some tx, w) \<Rightarrow> Some (Ready (Some tx), w)
           | Some (None, w) \<Rightarrow> Some (Pending, w)))"

subsection \<open>The consensus task\<close>

datatype CsModuleState = CsReady | CsBusy

fun cs_accepts_input :: "CsModuleState \<Rightarrow> bool" where
  "cs_accepts_input CsReady = True"
| "cs_accepts_input CsBusy = False"

datatype 'ev CsOutEvent =
    GenerateSyncResponse PeerId "'ev list"
  | KnownPeersResponse "PeerId list"
  | FinalizedTransaction PeerId EventHash Transaction
  | RecognizedTransaction PeerId EventHash Transaction

datatype 'ev CsInEvent =
    GenerateSyncRequest PeerId
  | KnownPeersRequest
  | ApplySync PeerId "'ev list"
  | ScheduleTx Transaction
  | CreateStandalone

fun cs_out_event :: "NextTx \<Rightarrow> 'ev CsOutEvent" where
  "cs_out_event (Recognized (from, tx, h)) = RecognizedTransaction from h tx"
| "cs_out_event (Finalized (from, tx, h)) = FinalizedTransaction from h tx"

datatype task_ctl = Go_On | Task_Return | Task_Panic

text \<open>
  One iteration of \<open>run\<close>: the stream branch, an input (\<open>None\<close>: closed), or the cancel signal.
  \<open>lk1\<close> and \<open>lk2\<close> say whether the two \<open>set_state\<close> calls of a branch time out. A stream branch
  with nothing ready is not taken by \<open>select!\<close>; it only polls. The result is \<open>None\<close> when the
  stream loops forever.
\<close>

datatype 'ev cs_select = CsPoll | CsInput "'ev CsInEvent option" | CsCancelled

type_synonym ('g, 'ev) cs_conf = "'g GraphWrapper \<times> CsModuleState option \<times> 'ev CsOutEvent sink"

fun cs_send :: "'ev CsOutEvent \<Rightarrow> ('g, 'ev) cs_conf \<Rightarrow> task_ctl \<times> ('g, 'ev) cs_conf" where
  "cs_send e (w, st, c) = (let (ok, c) = sink_send e c in (if ok then Go_On else Task_Return, w, st, c))"

fun cs_event ::
  "('g, 'ev) graph_library \<Rightarrow> bool \<times> bool \<Rightarrow> 'ev CsInEvent \<Rightarrow> ('g, 'ev) cs_conf
   \<Rightarrow> task_ctl \<times> ('g, 'ev) cs_conf" where
  "cs_event lib (lk1, lk2) (GenerateSyncRequest to) (w, st, c) =
     (let st = set_state lk1 CsBusy st in
      case generate_sync_for lib to (graph w) of
        Inl _ \<Rightarrow> (Task_Return, w, st, c)
      | Inr sync \<Rightarrow> cs_send (GenerateSyncResponse to sync) (w, set_state lk2 CsReady st, c))"
| "cs_event lib lks KnownPeersRequest (w, st, c) =
     cs_send (KnownPeersResponse (graph_peers lib (graph w))) (w, st, c)"
| "cs_event lib (lk1, lk2) (ApplySync from sync) (w, st, c) =
     (let st = set_state lk1 CsBusy st;
          (_, w) = apply_sync lib from sync w
      in (Go_On, w, set_state lk2 CsReady st, c))"
| "cs_event lib lks (ScheduleTx tx) (w, st, c) = (Go_On, push_tx tx w, st, c)"
| "cs_event lib lks CreateStandalone (w, st, c) =
     (case create_standalone_event lib w of
        (Panic, w) \<Rightarrow> (Task_Panic, w, st, c)
      | (_, w) \<Rightarrow> (Go_On, w, st, c))"

fun cs_run_step ::
  "('g, 'ev) graph_library \<Rightarrow> bool \<times> bool \<Rightarrow> 'ev cs_select \<Rightarrow> ('g, 'ev) cs_conf
   \<Rightarrow> (task_ctl \<times> ('g, 'ev) cs_conf) option" where
  "cs_run_step lib lks CsPoll (w, st, c) =
     (case poll_next lib w of
        None \<Rightarrow> None
      | Some (Pending, w) \<Rightarrow> Some (Go_On, w, st, c)
      | Some (Ready None, w) \<Rightarrow> Some (Task_Return, w, st, c)
      | Some (Ready (Some tx), w) \<Rightarrow> Some (cs_send (cs_out_event tx) (w, st, c)))"
| "cs_run_step lib lks (CsInput None) s = Some (Task_Return, s)"
| "cs_run_step lib lks (CsInput (Some e)) s = Some (cs_event lib lks e s)"
| "cs_run_step lib lks CsCancelled s = Some (Task_Return, s)"

subsection \<open>What a graph delivers\<close>

text \<open>
  A source of events as the stream uses it: \<open>pending g\<close> are the events still to be delivered, in
  their order.
\<close>

locale event_source =
  fixes get :: "'g \<Rightarrow> EventWrapper option \<times> 'g"
    and pending :: "'g \<Rightarrow> EventWrapper list"
  assumes get_some: "get g = (Some e, g') \<Longrightarrow> pending g = e # pending g'"
    and get_none: "get g = (None, g') \<Longrightarrow> pending g = [] \<and> pending g' = []"

text \<open>The transactions the stream makes of one event: the first with the hash of the event, the
  others with the hash that the buffer was created with.\<close>

definition event_txs :: "EventHash \<Rightarrow> EventWrapper \<Rightarrow> NextTxData list" where
  "event_txs h e =
     (case transactions (payload e) of
        [] \<Rightarrow> []
      | tx # rest \<Rightarrow> (author e, tx, ev_hash e) # map (\<lambda>t. (author e, t, h)) rest)"

fun buffer_txs :: "tx_buffer \<Rightarrow> NextTxData list" where
  "buffer_txs (a, txs, h) = map (\<lambda>t. (a, t, h)) txs"

definition stream_of :: "EventWrapper list \<Rightarrow> tx_buffer \<Rightarrow> NextTxData list" where
  "stream_of es buf = buffer_txs buf @ concat (map (event_txs (snd (snd buf))) es)"

text \<open>Taking transactions one after the other.\<close>

fun take_txs ::
  "nat \<Rightarrow> ('g \<Rightarrow> EventWrapper option \<times> 'g) \<Rightarrow> 'g \<Rightarrow> tx_buffer \<Rightarrow> NextTxData list option" where
  "take_txs 0 get g buf = Some []"
| "take_txs (Suc n) get g buf =
     (case next_tx get g buf of
        None \<Rightarrow> None
      | Some (None, _, _) \<Rightarrow> Some []
      | Some (Some d, g', buf') \<Rightarrow> map_option ((#) d) (take_txs n get g' buf'))"

context event_source
begin

text \<open>The loop ends, and takes the next transaction of the stream.\<close>

lemma next_tx_step:
  obtains g' buf' where
    "next_tx get g buf = Some (None, g', buf')" "stream_of (pending g) buf = []"
    "pending g' = []" "stream_of (pending g') buf' = []"
  | d g' buf' where
    "next_tx get g buf = Some (Some d, g', buf')"
    "stream_of (pending g) buf = d # stream_of (pending g') buf'"
proof (induction "pending g" arbitrary: g buf thesis rule: length_induct)
  case 1
  obtain a txs h where buf: "buf = (a, txs, h)" by (metis prod_cases3)
  show ?case
  proof (cases txs)
    case (Cons tx rest)
    then show ?thesis
      by (intro "1.prems"(2) [of "(a, tx, h)" g "(a, rest, h)"])
        (simp_all add: buf next_tx.simps stream_of_def)
  next
    case Nil
    obtain e g' where get: "get g = (e, g')" by force
    show ?thesis
    proof (cases e)
      case None
      then show ?thesis
        using get get_none [of g g'] Nil
        by (intro "1.prems"(1) [of g' buf]) (simp_all add: buf next_tx.simps stream_of_def)
    next
      case (Some event)
      then have p: "pending g = event # pending g'" using get get_some by blast
      show ?thesis
      proof (cases "transactions (payload event)")
        case (Cons tx rest)
        with get Some Nil p show ?thesis
          by (intro "1.prems"(2) [of "(author event, tx, ev_hash event)" g' "(author event, rest, h)"])
            (simp_all add: buf next_tx.simps stream_of_def event_txs_def)
      next
        case no_tx: Nil
        let ?buf = "(author event, [], h)"
        have eq: "next_tx get g buf = next_tx get g' ?buf"
          "stream_of (pending g) buf = stream_of (pending g') ?buf"
          using get Some Nil no_tx p
          by (simp add: buf next_tx.simps [of get g], simp add: buf stream_of_def event_txs_def)
        have less: "length (pending g') < length (pending g)" by (simp add: p)
        show ?thesis
          using "1.hyps" less "1.prems" unfolding eq by blast
      qed
    qed
  qed
qed

lemma take_txs_stream: "take_txs n get g buf = Some (take n (stream_of (pending g) buf))"
proof (induction n arbitrary: g buf)
  case (Suc n)
  show ?case
    by (rule next_tx_step [of g buf]) (simp_all add: Suc)
qed simp

end

text \<open>A graph delivers finalized and recognized events independently of each other.\<close>

locale graph_events =
  fin: event_source "next_finalized_event lib" fin_pending +
  rec: event_source "next_recognized_event lib" rec_pending
  for lib :: "('g, 'ev) graph_library" and fin_pending rec_pending +
  assumes fin_keeps: "next_finalized_event lib g = (e, g') \<Longrightarrow> rec_pending g' = rec_pending g"
    and rec_keeps: "next_recognized_event lib g = (e, g') \<Longrightarrow> fin_pending g' = fin_pending g"

lemma next_tx_keeps:
  assumes get: "\<And>g e g'. get g = (e, g') \<Longrightarrow> f g' = f g"
    and "next_tx get g buf = Some (d, g', buf')"
  shows "f g' = f g"
proof -
  have "(\<forall>g e g'. get g = (e, g') \<longrightarrow> f g' = f g) \<longrightarrow> f (fst (snd (d, g', buf'))) = f g"
  proof (rule next_tx.raw_induct [of "\<lambda>get g buf r. (\<forall>g e g'. get g = (e, g') \<longrightarrow> f g' = f g)
        \<longrightarrow> f (fst (snd r)) = f g", OF _ assms(2)])
    fix nx get g buf r
    assume IH: "\<And>get' g buf r. nx get' g buf = Some r
        \<Longrightarrow> (\<forall>g e g'. get' g = (e, g') \<longrightarrow> f g' = f g) \<longrightarrow> f (fst (snd r)) = f g"
      and step: "(case buf of (a, txs, h) \<Rightarrow> case txs of
          tx # rest \<Rightarrow> Some (Some (a, tx, h), g, (a, rest, h))
        | [] \<Rightarrow> (case get g of
             (None, g) \<Rightarrow> Some (None, g, buf)
           | (Some event, g) \<Rightarrow> (case transactions (payload event) of
                tx # rest \<Rightarrow> Some (Some (author event, tx, ev_hash event), g, (author event, rest, h))
              | [] \<Rightarrow> nx get g (author event, [], h)))) = Some r"
    show "(\<forall>g e g'. get g = (e, g') \<longrightarrow> f g' = f g) \<longrightarrow> f (fst (snd r)) = f g"
    proof
      assume get: "\<forall>g e g'. get g = (e, g') \<longrightarrow> f g' = f g"
      obtain e g1 where e: "get g = (e, g1)" by force
      with get have "f g1 = f g" by blast
      with step e IH [of get] get show "f (fst (snd r)) = f g"
        by (auto split: prod.splits list.splits option.splits)
    qed
  qed
  with get show ?thesis by simp
qed

context graph_events
begin

definition fin_stream :: "'g GraphWrapper \<Rightarrow> NextTxData list" where
  "fin_stream w = stream_of (fin_pending (graph w)) (finalized_transaction_buffer w)"

definition rec_stream :: "'g GraphWrapper \<Rightarrow> NextTxData list" where
  "rec_stream w = stream_of (rec_pending (graph w)) (recognized_transaction_buffer w)"

lemma next_finalized_step:
  obtains w' where "next_finalized lib w = Some (None, w')" "fin_stream w = []" "fin_stream w' = []"
    "rec_stream w' = rec_stream w"
  | d w' where "next_finalized lib w = Some (Some (Finalized d), w')" "fin_stream w = d # fin_stream w'"
    "rec_stream w' = rec_stream w"
proof (rule fin.next_tx_step [of "graph w" "finalized_transaction_buffer w"])
  fix g' buf'
  assume n: "next_tx (next_finalized_event lib) (graph w) (finalized_transaction_buffer w) = Some (None, g', buf')"
    and s: "stream_of (fin_pending (graph w)) (finalized_transaction_buffer w) = []"
      "stream_of (fin_pending g') buf' = []"
  have "rec_pending g' = rec_pending (graph w)" by (rule next_tx_keeps [OF _ n]) (rule fin_keeps)
  with n s show thesis
    by (intro that(1) [of "w\<lparr>graph := g', finalized_transaction_buffer := buf'\<rparr>"])
      (simp_all add: next_finalized_def fin_stream_def rec_stream_def)
next
  fix d g' buf'
  assume n: "next_tx (next_finalized_event lib) (graph w) (finalized_transaction_buffer w) = Some (Some d, g', buf')"
    and s: "stream_of (fin_pending (graph w)) (finalized_transaction_buffer w) = d # stream_of (fin_pending g') buf'"
  have "rec_pending g' = rec_pending (graph w)" by (rule next_tx_keeps [OF _ n]) (rule fin_keeps)
  with n s show thesis
    by (intro that(2) [of d "w\<lparr>graph := g', finalized_transaction_buffer := buf'\<rparr>"])
      (simp_all add: next_finalized_def fin_stream_def rec_stream_def)
qed

lemma next_recognized_step:
  obtains w' where "next_recognized lib w = Some (None, w')" "rec_stream w = []" "rec_stream w' = []"
    "fin_stream w' = fin_stream w"
  | d w' where "next_recognized lib w = Some (Some (Recognized d), w')" "rec_stream w = d # rec_stream w'"
    "fin_stream w' = fin_stream w"
proof (rule rec.next_tx_step [of "graph w" "recognized_transaction_buffer w"])
  fix g' buf'
  assume n: "next_tx (next_recognized_event lib) (graph w) (recognized_transaction_buffer w) = Some (None, g', buf')"
    and s: "stream_of (rec_pending (graph w)) (recognized_transaction_buffer w) = []"
      "stream_of (rec_pending g') buf' = []"
  have "fin_pending g' = fin_pending (graph w)" by (rule next_tx_keeps [OF _ n]) (rule rec_keeps)
  with n s show thesis
    by (intro that(1) [of "w\<lparr>graph := g', recognized_transaction_buffer := buf'\<rparr>"])
      (simp_all add: next_recognized_def fin_stream_def rec_stream_def)
next
  fix d g' buf'
  assume n: "next_tx (next_recognized_event lib) (graph w) (recognized_transaction_buffer w) = Some (Some d, g', buf')"
    and s: "stream_of (rec_pending (graph w)) (recognized_transaction_buffer w) = d # stream_of (rec_pending g') buf'"
  have "fin_pending g' = fin_pending (graph w)" by (rule next_tx_keeps [OF _ n]) (rule rec_keeps)
  with n s show thesis
    by (intro that(2) [of d "w\<lparr>graph := g', recognized_transaction_buffer := buf'\<rparr>"])
      (simp_all add: next_recognized_def fin_stream_def rec_stream_def)
qed

text \<open>A poll never hangs; it takes the next finalized transaction, else the next recognized one, and
  is pending only when both streams are used up.\<close>

lemma poll_next_step:
  obtains d w' where "poll_next lib w = Some (Ready (Some (Finalized d)), w')"
    "fin_stream w = d # fin_stream w'" "rec_stream w' = rec_stream w"
  | d w' where "poll_next lib w = Some (Ready (Some (Recognized d)), w')"
    "fin_stream w = []" "fin_stream w' = []" "rec_stream w = d # rec_stream w'"
  | w' where "poll_next lib w = Some (Pending, w')"
    "fin_stream w = []" "rec_stream w = []" "fin_stream w' = []" "rec_stream w' = []"
proof -
  let ?w = "w\<lparr>state_updated := False\<rparr>"
  have w: "fin_stream ?w = fin_stream w" "rec_stream ?w = rec_stream w"
    by (simp_all add: fin_stream_def rec_stream_def)
  show thesis
  proof (rule next_finalized_step [of ?w])
    fix w1
    assume f: "next_finalized lib ?w = Some (None, w1)" "fin_stream ?w = []" "fin_stream w1 = []"
      "rec_stream w1 = rec_stream ?w"
    show thesis
      by (rule next_recognized_step [of w1]) (use f w that in \<open>simp_all add: poll_next_def\<close>)
  qed (use w that in \<open>simp_all add: poll_next_def\<close>)
qed

end

subsection \<open>A graph given by its events\<close>

text \<open>The simplest graph: two queues of events to deliver, and the own events made so far.\<close>

type_synonym list_graph = "EventWrapper list \<times> EventWrapper list \<times> EventPayload list"

fun list_next :: "'a list \<Rightarrow> 'a option \<times> 'a list" where
  "list_next [] = (None, [])"
| "list_next (x # xs) = (Some x, xs)"

definition list_graph_library :: "(list_graph, EventWrapper) graph_library" where
  "list_graph_library =
     \<lparr>push_event = (\<lambda>e (f, r, own). (Inr (), f, r @ [e], own)),
      peer_latest_event = (\<lambda>p g. if p < 3 then Some zero_hash else None),
      create_event = (\<lambda>p h (f, r, own). (Inr (), f, r, own @ [p])),
      graph_self_id = (\<lambda>g. 1),
      next_finalized_event = (\<lambda>(f, r, own). let (e, f) = list_next f in (e, f, r, own)),
      next_recognized_event = (\<lambda>(f, r, own). let (e, r) = list_next r in (e, f, r, own)),
      generate_sync_for = (\<lambda>p (f, r, own). Inr f),
      graph_peers = (\<lambda>g. [0, 1, 2])\<rparr>"

lemma list_next_props:
  "list_next xs = (Some e, ys) \<Longrightarrow> xs = e # ys" "list_next xs = (None, ys) \<Longrightarrow> xs = [] \<and> ys = []"
  by (cases xs; simp)+

interpretation list_events: graph_events list_graph_library fst "\<lambda>g. fst (snd g)"
  by unfold_locales
    (auto simp: list_graph_library_def Let_def split: prod.splits dest: list_next_props)

subsection \<open>Properties\<close>

text \<open>C15: taking transactions from a source of events never hangs and yields every transaction of
  every event exactly once, in the order of the events and of the transactions within them, each
  with the author of its event. Only the first transaction of an event carries the hash of the
  event; the others carry the hash the buffer started with.\<close>

theorem transactions_in_order:
  assumes "event_source get pending"
  shows "take_txs n get g (a, [], h) = Some (take n (concat (map (event_txs h) (pending g))))
    \<and> map (\<lambda>(p, tx, _). (p, tx)) (concat (map (event_txs h) (pending g)))
        = concat (map (\<lambda>e. map (\<lambda>tx. (author e, tx)) (transactions (payload e))) (pending g))"
proof -
  have "map (\<lambda>(p, tx, _). (p, tx)) (event_txs h e) = map (\<lambda>tx. (author e, tx)) (transactions (payload e))" for e
    by (auto simp: event_txs_def split: list.splits)
  then have "map (\<lambda>(p, tx, _). (p, tx)) (concat (map (event_txs h) es))
      = concat (map (\<lambda>e. map (\<lambda>tx. (author e, tx)) (transactions (payload e))) es)" for es
    by (simp add: map_concat comp_def)
  then show ?thesis
    using event_source.take_txs_stream [OF assms, of n g "(a, [], h)"] by (simp add: stream_of_def)
qed

theorem transactions_in_order_witness:
  "take_txs 5 list_next [\<lparr>author = 4, payload = \<lparr>transactions = []\<rparr>, ev_hash = zero_hash\<rparr>,
      \<lparr>author = 2, payload = \<lparr>transactions = [StorageRequest (Vid 1), Stored (Vid 1) (Sid 0)]\<rparr>,
       ev_hash = EventHash [7]\<rparr>] (9, [], zero_hash)
   = Some [(2, StorageRequest (Vid 1), EventHash [7]), (2, Stored (Vid 1) (Sid 0), zero_hash)]"
proof -
  have "event_source list_next (\<lambda>xs :: EventWrapper list. xs)"
    by unfold_locales (auto dest: list_next_props)
  from transactions_in_order [OF this, of 5 "[\<lparr>author = 4, payload = \<lparr>transactions = []\<rparr>, ev_hash = zero_hash\<rparr>,
      \<lparr>author = 2, payload = \<lparr>transactions = [StorageRequest (Vid 1), Stored (Vid 1) (Sid 0)]\<rparr>,
       ev_hash = EventHash [7]\<rparr>]" 9 zero_hash]
  show ?thesis by (simp add: event_txs_def)
qed

text \<open>C36: of an event with several transactions, the second and later ones are delivered with the
  all-zero hash of the fresh buffer instead of the hash of their event.\<close>

theorem later_transactions_lose_hash:
  assumes "graph_events lib fin_pending rec_pending"
    and "rec_pending g = e # es" and "transactions (payload e) = t1 # t2 # ts"
  shows "take_txs 2 (next_recognized_event lib) g (recognized_transaction_buffer (from_graph r1 r2 g))
    = Some [(author e, t1, ev_hash e), (author e, t2, zero_hash)]"
  using event_source.take_txs_stream [OF graph_events.axioms(2) [OF assms(1)], of 2 g] assms(2,3)
  by (simp add: from_graph_def stream_of_def event_txs_def numeral_2_eq_2)

theorem later_transactions_lose_hash_witness:
  "take_txs 2 (next_recognized_event list_graph_library)
     ([], [\<lparr>author = 2, payload = \<lparr>transactions = [ExecuteTx [], ExecuteTx []]\<rparr>, ev_hash = EventHash [7]\<rparr>], [])
     (recognized_transaction_buffer (from_graph 0 0 ()))
   = Some [(2, ExecuteTx [], EventHash [7]), (2, ExecuteTx [], zero_hash)]"
  using later_transactions_lose_hash [OF list_events.graph_events_axioms, of
      "([], [\<lparr>author = 2, payload = \<lparr>transactions = [ExecuteTx [], ExecuteTx []]\<rparr>, ev_hash = EventHash [7]\<rparr>], [])"
      _ "[]" "ExecuteTx []" "ExecuteTx []" "[]" 0 0]
  by (simp add: from_graph_def)

text \<open>What a wrapper has still to deliver of each kind: the rest of the event it has begun, then the pending events.\<close>

definition finalized_stream :: "('g \<Rightarrow> EventWrapper list) \<Rightarrow> 'g GraphWrapper \<Rightarrow> NextTxData list" where
  "finalized_stream fin_pending w = stream_of (fin_pending (graph w)) (finalized_transaction_buffer w)"

definition recognized_stream :: "('g \<Rightarrow> EventWrapper list) \<Rightarrow> 'g GraphWrapper \<Rightarrow> NextTxData list" where
  "recognized_stream rec_pending w = stream_of (rec_pending (graph w)) (recognized_transaction_buffer w)"

text \<open>C18: a poll of the stream always returns, whatever the wrapper has begun to deliver: with the next finalized
  transaction if there is one, otherwise with the next recognized one, and without one exactly when both kinds are used
  up. It takes what it returns and no other transaction of either kind.\<close>

theorem poll_finalized_first:
  assumes "graph_events lib fin_pending rec_pending"
  shows "\<exists>w'. case finalized_stream fin_pending w of
      d # ds \<Rightarrow> poll_next lib w = Some (Ready (Some (Finalized d)), w')
        \<and> finalized_stream fin_pending w' = ds \<and> recognized_stream rec_pending w' = recognized_stream rec_pending w
    | [] \<Rightarrow> finalized_stream fin_pending w' = []
        \<and> (case recognized_stream rec_pending w of
             d # ds \<Rightarrow> poll_next lib w = Some (Ready (Some (Recognized d)), w') \<and> recognized_stream rec_pending w' = ds
           | [] \<Rightarrow> poll_next lib w = Some (Pending, w') \<and> recognized_stream rec_pending w' = [])"
proof -
  have streams: "graph_events.fin_stream fin_pending = finalized_stream fin_pending"
    "graph_events.rec_stream rec_pending = recognized_stream rec_pending"
    by (simp_all add: fun_eq_iff graph_events.fin_stream_def [OF assms] graph_events.rec_stream_def [OF assms]
        finalized_stream_def recognized_stream_def)
  show ?thesis
    by (rule graph_events.poll_next_step [OF assms, of w]; unfold streams) (auto split: list.split)
qed

text \<open>After the first transaction of a finalized event, its second waits in the buffer.\<close>

theorem poll_finalized_first_witness:
  "\<exists>w'. poll_next list_graph_library \<lparr>graph = ([], [\<lparr>author = 3, payload = \<lparr>transactions = [Stored (Vid 1) (Sid 0)]\<rparr>, ev_hash = EventHash [7]\<rparr>], []),
        state_updated = True, included_transaction_buffer = [],
        finalized_transaction_buffer = (2, [StorageRequest (Vid 1)], zero_hash), recognized_transaction_buffer = (0, [], zero_hash)\<rparr>
      = Some (Ready (Some (Finalized (2, StorageRequest (Vid 1), zero_hash))), w')
    \<and> recognized_stream (\<lambda>g. fst (snd g)) w' = [(3, Stored (Vid 1) (Sid 0), EventHash [7])]"
  using poll_finalized_first [OF list_events.graph_events_axioms, of
     "\<lparr>graph = ([], [\<lparr>author = 3, payload = \<lparr>transactions = [Stored (Vid 1) (Sid 0)]\<rparr>, ev_hash = EventHash [7]\<rparr>], []),
        state_updated = True, included_transaction_buffer = [],
        finalized_transaction_buffer = (2, [StorageRequest (Vid 1)], zero_hash), recognized_transaction_buffer = (0, [], zero_hash)\<rparr>"]
  by (auto simp: finalized_stream_def recognized_stream_def stream_of_def event_txs_def)

text \<open>C17: applying a synchronization on every branch. When a received event is rejected, the
  scheduled transactions stay scheduled; when everything succeeds, exactly they make up the new
  own event and none stays scheduled. When the sender is unknown or the own event cannot be
  created, they are gone although no event contains them.\<close>

theorem apply_sync_scheduled:
  assumes "apply_sync lib from jobs w = (r, w')"
  shows "case r of
      Inr _ \<Rightarrow> included_transaction_buffer w' = []
        \<and> (\<exists>g p. push_events lib jobs (graph w) = (Inr (), g) \<and> peer_latest_event lib from g = Some p
            \<and> create_event lib \<lparr>transactions = included_transaction_buffer w\<rparr> p g = (Inr (), graph w'))
    | Inl (PushFailed e) \<Rightarrow> included_transaction_buffer w' = included_transaction_buffer w
    | Inl (UnknownPeer q) \<Rightarrow> q = from \<and> included_transaction_buffer w' = []
        \<and> push_events lib jobs (graph w) = (Inr (), graph w') \<and> peer_latest_event lib from (graph w') = None
    | Inl (CreateError e) \<Rightarrow> included_transaction_buffer w' = []
        \<and> (\<exists>g p. push_events lib jobs (graph w) = (Inr (), g) \<and> peer_latest_event lib from g = Some p
            \<and> create_event lib \<lparr>transactions = included_transaction_buffer w\<rparr> p g = (Inl e, graph w'))"
proof -
  obtain x g where pe: "push_events lib jobs (graph w) = (x, g)" by force
  have err: "\<exists>e'. e = PushFailed e'" if "push_events lib js g0 = (Inl e, g1)" for js g0 e g1
    using that
    by (induction lib js g0 rule: push_events.induct)
      (auto split: prod.splits sum.splits PushError.splits)
  show ?thesis
  proof (cases x)
    case (Inl e)
    with pe err [of jobs "graph w" e g] assms show ?thesis
      by (cases "jobs = []") (auto simp: apply_sync_def Let_def)
  next
    case (Inr u)
    show ?thesis
    proof (cases "peer_latest_event lib from g")
      case None
      with Inr pe assms show ?thesis by (cases "jobs = []") (auto simp: apply_sync_def Let_def)
    next
      case (Some p)
      with Inr pe assms show ?thesis
        by (cases "jobs = []")
          (auto simp: apply_sync_def Let_def EventPayload_new_def split: prod.splits sum.splits)
    qed
  qed
qed

theorem apply_sync_scheduled_witness:
  "included_transaction_buffer (snd (apply_sync list_graph_library 9 []
      (push_tx (StorageRequest (Vid 1)) (from_graph 0 0 ([], [], []))))) = []"
proof -
  let ?w = "push_tx (StorageRequest (Vid 1)) (from_graph 0 0 ([], [], []))"
  obtain w' where a: "apply_sync list_graph_library 9 [] ?w = (Inl (UnknownPeer 9), w')"
    by (simp add: apply_sync_def list_graph_library_def)
  from apply_sync_scheduled [OF a] show ?thesis by (simp add: a)
qed

text \<open>Transactions scheduled one after the other go, all of them and in this order, after those
  already waiting, into the payload of the standalone event, whose parent is the peer's own latest
  event; afterwards none waits.\<close>

lemma standalone_includes_scheduled:
  assumes "peer_latest_event lib (graph_self_id lib (graph w)) (graph w) = Some p"
    and "create_event lib \<lparr>transactions = included_transaction_buffer w @ txs\<rparr> p (graph w) = (Inr (), g)"
  shows "create_standalone_event lib (fold push_tx txs w) =
    (Ok (), w\<lparr>graph := g, state_updated := True, included_transaction_buffer := []\<rparr>)"
proof -
  have "fold push_tx txs w = w\<lparr>included_transaction_buffer := included_transaction_buffer w @ txs\<rparr>"
    by (induction txs arbitrary: w) (simp_all add: push_tx_def)
  with assms show ?thesis by (simp add: create_standalone_event_def EventPayload_new_def)
qed

end
