(* ===== verification/Swarm_Timing.thy ===== *)
theory Swarm_Timing
  imports Swarm_Module
begin

text \<open>
  The gossip timer of \<open>behaviour/gossip_timer.rs\<close> and the metrics of \<open>behaviour/metrics.rs\<close>.
  Points in time and durations are real numbers of seconds, and the floating-point arithmetic of
  the source is real arithmetic; every reading of the clock is an argument.
\<close>

subsection \<open>\<open>gossip_timer.rs\<close>\<close>

type_synonym Instant = real
type_synonym Duration = real

text \<open>\<open>Sleep\<close> is the deadline it waits for.\<close>

record DynamicTimer =
  timer_deadline :: Instant
  last_reset :: Instant
  min_duration :: Duration
  max_duration :: Duration

text \<open>\<open>n1\<close> is the clock when the sleep is made, \<open>n2\<close> when \<open>last_reset\<close> is read.\<close>

definition DynamicTimer_new :: "Instant \<Rightarrow> Instant \<Rightarrow> Duration \<Rightarrow> Duration \<Rightarrow> DynamicTimer" where
  "DynamicTimer_new n1 n2 mn mx =
     \<lparr>timer_deadline = n1 + mn, last_reset = n2, min_duration = mn, max_duration = mx\<rparr>"

text \<open>\<open>Duration\<close> subtraction panics on a negative result, \<open>try_from_secs_f64\<close> fails on a negative
  number.\<close>

definition next_duration :: "Instant \<Rightarrow> DynamicTimer \<Rightarrow> (unit, Duration) outcome" where
  "next_duration now t =
     (let passed = max 0 (now - last_reset t) in
      if max_duration t < min_duration t then Panic
      else
        let d = min_duration t
              + (max_duration t - min_duration t) / (1 + exp (- passed / 4 + 6))
        in Ok (if 0 \<le> d then d else max_duration t))"

definition start_next :: "Instant \<Rightarrow> Instant \<Rightarrow> DynamicTimer \<Rightarrow> (unit, DynamicTimer) outcome" where
  "start_next n1 n2 t =
     bind_outcome (next_duration n1 t) (\<lambda>d. Ok (t\<lparr>timer_deadline := n2 + d\<rparr>))"

text \<open>The readings of \<open>reset_full\<close>, in their order: \<open>last_reset\<close>, the base of the reset deadline,
  the one inside \<open>next_duration\<close>, and the two of \<open>start_next\<close>.\<close>

fun reset_full :: "Instant \<times> Instant \<times> Instant \<times> Instant \<times> Instant \<Rightarrow> DynamicTimer
   \<Rightarrow> (unit, DynamicTimer) outcome" where
  "reset_full (n1, n2, n3, n4, n5) t =
     (let t = t\<lparr>last_reset := n1\<rparr> in
      bind_outcome (next_duration n3 t)
        (\<lambda>d. if n2 + d < timer_deadline t then start_next n4 n5 t else Ok t))"

definition timer_ready :: "Instant \<Rightarrow> DynamicTimer \<Rightarrow> bool" where
  "timer_ready now t \<longleftrightarrow> timer_deadline t \<le> now"

subsection \<open>\<open>metrics.rs\<close>\<close>

datatype EventStatus = InProgress Instant | NotStarted

record PeriodicEvent =
  status :: EventStatus
  event_timings :: "(Instant \<times> Duration) list"

definition PeriodicEvent_new :: PeriodicEvent where
  "PeriodicEvent_new = \<lparr>status = NotStarted, event_timings = []\<rparr>"

definition record_start :: "Instant \<Rightarrow> PeriodicEvent \<Rightarrow> PeriodicEvent" where
  "record_start now p =
     (case status p of InProgress _ \<Rightarrow> p | NotStarted \<Rightarrow> p\<lparr>status := InProgress now\<rparr>)"

definition record_end :: "Instant \<Rightarrow> PeriodicEvent \<Rightarrow> PeriodicEvent" where
  "record_end now p =
     (case status p of
        NotStarted \<Rightarrow> p
      | InProgress start_time \<Rightarrow>
          p\<lparr>status := NotStarted, event_timings := event_timings p @ [(start_time, now - start_time)]\<rparr>)"

text \<open>\<open>duration_since\<close> is zero for an earlier point in time.\<close>

definition duration_since :: "Instant \<Rightarrow> Instant \<Rightarrow> Duration" where
  "duration_since t t0 = max 0 (t - t0)"

definition event_data_for_step :: "Instant \<Rightarrow> PeriodicEvent \<Rightarrow> (real \<times> real) list" where
  "event_data_for_step now p =
     (case event_timings p of
        [] \<Rightarrow> []
      | (t_start, _) # _ \<Rightarrow>
          concat (map (\<lambda>(t, y). let triggered = duration_since t t_start
                                in [(triggered, 0), (triggered + y, 1)]) (event_timings p))
          @ (case status p of
               InProgress triggered \<Rightarrow> [(duration_since triggered t_start, 0), (duration_since now t_start, 1)]
             | NotStarted \<Rightarrow> [(duration_since now t_start, 0)]))"

record 'v Gauge =
  gauge_values :: "(Instant \<times> 'v) list"

definition Gauge_new :: "'v Gauge" where
  "Gauge_new = \<lparr>gauge_values = []\<rparr>"

definition gauge_record :: "Instant \<Rightarrow> 'v \<Rightarrow> 'v Gauge \<Rightarrow> 'v Gauge" where
  "gauge_record now v g = g\<lparr>gauge_values := gauge_values g @ [(now, v)]\<rparr>"

text \<open>\<open>windows(2)\<close> gives the pairs of neighbours; \<open>dflt\<close> is \<open>V::default()\<close>.\<close>

definition gauge_data_for_step :: "'v \<Rightarrow> Instant \<Rightarrow> 'v Gauge \<Rightarrow> (real \<times> 'v) list" where
  "gauge_data_for_step dflt now g =
     (case gauge_values g of
        [] \<Rightarrow> []
      | (t_start, _) # _ \<Rightarrow>
          (0, dflt) # map (\<lambda>((_, v1), (t2, _)). (duration_since t2 t_start, v1))
                        (zip (gauge_values g) (tl (gauge_values g)))
          @ [(duration_since now t_start, snd (last (gauge_values g)))])"

record Metrics =
  sync :: PeriodicEvent
  consensus_queue_size :: "nat Gauge"

definition Metrics_new :: Metrics where
  "Metrics_new = \<lparr>sync = PeriodicEvent_new, consensus_queue_size = Gauge_new\<rparr>"

text \<open>\<open>checked_sub\<close> of the capacity.\<close>

definition update_queue_size :: "Instant \<Rightarrow> 'a chan \<Rightarrow> nat Gauge \<Rightarrow> nat Gauge" where
  "update_queue_size now ch metric =
     (let total_capacity = max_capacity ch; free = chan_capacity ch in
      if free \<le> total_capacity then gauge_record now (total_capacity - free) metric else metric)"

subsection \<open>Lemmas\<close>

lemma sigmoid_bounds:
  fixes a b x :: real
  assumes "a \<le> b"
  shows "a \<le> a + (b - a) / (1 + exp x)" and "a + (b - a) / (1 + exp x) \<le> b"
proof -
  have "0 < 1 + exp x" by (smt (verit) exp_gt_zero)
  then show "a \<le> a + (b - a) / (1 + exp x)" using assms by simp
  have "1 \<le> 1 + exp x" by simp
  then have "(b - a) / (1 + exp x) \<le> (b - a) / 1"
    using assms by (intro divide_left_mono) (auto simp: add_pos_pos)
  then show "a + (b - a) / (1 + exp x) \<le> b" by simp
qed

lemma next_duration_Ok:
  assumes "0 \<le> min_duration t" and "min_duration t \<le> max_duration t"
  obtains d where "next_duration now t = Ok d" "min_duration t \<le> d" "d \<le> max_duration t"
  using sigmoid_bounds [OF assms(2), of "- max 0 (now - last_reset t) / 4 + 6"] assms
  by (auto simp: next_duration_def Let_def)

lemma start_next_ok:
  assumes "0 \<le> min_duration t" and "min_duration t \<le> max_duration t"
  obtains t' where "start_next n1 n2 t = Ok t'" "min_duration t' = min_duration t" "max_duration t' = max_duration t"
proof -
  obtain d where "next_duration n1 t = Ok d" using next_duration_Ok [OF assms] by blast
  then have "start_next n1 n2 t = Ok (t\<lparr>timer_deadline := n2 + d\<rparr>)" by (simp add: start_next_def)
  then show thesis by (rule that) simp_all
qed

lemma reset_full_ok:
  assumes "0 \<le> min_duration t" and "min_duration t \<le> max_duration t"
  obtains t' where "reset_full (n1, n2, n3, n4, n5) t = Ok t'"
    "min_duration t' = min_duration t" "max_duration t' = max_duration t"
proof -
  let ?t = "t\<lparr>last_reset := n1\<rparr>"
  obtain d where d: "next_duration n3 ?t = Ok d" using next_duration_Ok [of ?t] assms by auto
  obtain t' where t': "start_next n4 n5 ?t = Ok t'" "min_duration t' = min_duration t" "max_duration t' = max_duration t"
    using start_next_ok [of ?t] assms by auto
  show thesis
  proof (rule that)
    show "reset_full (n1, n2, n3, n4, n5) t = Ok (if n2 + d < timer_deadline t then t' else ?t)"
      using d t'(1) by simp
  qed (simp_all add: t')
qed

subsection \<open>Properties\<close>

text \<open>The timeout always lies between the two configured bounds, and never decreases as time
  passes since the last reset; with bounds in the wrong order the computation panics.\<close>

lemma timeout_within_bounds:
  assumes "0 \<le> min_duration t"
  shows "if max_duration t < min_duration t then next_duration now t = Panic
    else \<exists>d. next_duration now t = Ok d \<and> min_duration t \<le> d \<and> d \<le> max_duration t
      \<and> (\<forall>later d'. now \<le> later \<longrightarrow> next_duration later t = Ok d' \<longrightarrow> d \<le> d')"
proof (cases "max_duration t < min_duration t")
  case False
  then have le: "min_duration t \<le> max_duration t" by simp
  let ?f = "\<lambda>n. min_duration t + (max_duration t - min_duration t)
      / (1 + exp (- max 0 (n - last_reset t) / 4 + 6))"
  note bounds = sigmoid_bounds [OF le]
  have eq: "next_duration n t = Ok (?f n)" for n
    using False assms bounds(1) [of "- max 0 (n - last_reset t) / 4 + 6"]
    by (simp add: next_duration_def Let_def)
  have "?f now \<le> ?f later" if "now \<le> later" for later
  proof -
    have "exp (- max 0 (later - last_reset t) / 4 + 6) \<le> exp (- max 0 (now - last_reset t) / 4 + 6)"
      using that by simp
    then have "(max_duration t - min_duration t) / (1 + exp (- max 0 (now - last_reset t) / 4 + 6))
        \<le> (max_duration t - min_duration t) / (1 + exp (- max 0 (later - last_reset t) / 4 + 6))"
      using le by (intro divide_left_mono mult_pos_pos add_pos_pos) auto
    then show ?thesis by simp
  qed
  with False eq bounds show ?thesis by auto
qed (simp add: next_duration_def Let_def)

text \<open>A reset at one moment restarts the growth of the timeout and never puts the next gossip
  off: the deadline stays the same or comes earlier, and is then at least the minimum away.\<close>

lemma reset_never_delays:
  assumes "0 \<le> min_duration t" and "min_duration t \<le> max_duration t"
  shows "\<exists>t'. reset_full (now, now, now, now, now) t = Ok t' \<and> last_reset t' = now
    \<and> timer_deadline t' \<le> timer_deadline t
    \<and> (timer_deadline t' \<noteq> timer_deadline t \<longrightarrow> now + min_duration t \<le> timer_deadline t')"
proof -
  let ?t = "t\<lparr>last_reset := now\<rparr>"
  obtain d where "next_duration now ?t = Ok d" "min_duration t \<le> d" "d \<le> max_duration t"
    by (rule next_duration_Ok [of ?t now]) (use assms in auto)
  then show ?thesis by (auto simp: Let_def start_next_def)
qed

end
