(* ===== verification/Swarm_Behaviour.thy ===== *)
theory Swarm_Behaviour
  imports Swarm_Protocol Swarm_Instruction_Storage Swarm_Consensus Swarm_Timing
begin

text \<open>
  The main behaviour of \<open>behaviour/mod.rs\<close> and \<open>behaviour/handlers.rs\<close>: it moves events between
  the modules, the user and the network. A poll is one atomic step; it is modelled section by
  section, with every send that can fail. The theorems state where each event goes, that nothing
  is dropped silently, how requests and responses are matched, and which peers count as connected.
\<close>

subsection \<open>Events of the user interface\<close>

datatype UiInEvent =
    ScheduleProgram Instructions
  | Get Vid
  | Put Vid Data
  | ListStored
  | InitializeStorageUi
  | GetMetrics

datatype UiOutEvent =
    ScheduleOk
  | ProgramExecuted ProgramIdentifier
  | GetResponse "RecollectionError + Vid \<times> Data"
  | PutConfirmed Vid
  | ListStoredResponse "(Vid \<times> (Sid, PeerId) HashMap) list"
  | StorageInitialized
  | GetMetricsResponse Metrics

subsection \<open>State\<close>

text \<open>The two deques are lists with their front first. Of the user channel the behaviour is the
  server, of the module channels the client.\<close>

record 'ev Behaviour =
  local_peer_id :: PeerId
  discovered_peers :: "PeerId list"
  user_input :: "UiInEvent chan"
  user_output :: "UiOutEvent chan"
  user_shutdown :: bool
  consensus_input :: "'ev CsInEvent chan"
  consensus_output :: "'ev CsOutEvent chan"
  consensus_state :: "CsModuleState option"
  instruction_input :: "IsInEvent chan"
  instruction_output :: "IsOutEvent chan"
  data_input :: "DmInEvent chan"
  data_output :: "DmOutEvent chan"
  processor_input :: "ProcInEvent chan"
  processor_output :: "ProcOutEvent chan"
  processor_state :: "ProcModuleState option"
  rr_input :: "RrInEvent chan"
  rr_output :: "RrOutEvent chan"
  connected_peers :: "PeerId fset"
  consensus_gossip_timer :: DynamicTimer
  oneshot_messages :: "(PeerId \<times> 'ev Simple) list"
  pending_response :: "(RequestId, Request) HashMap"
  processed_requests :: "(Request, (RequestId \<times> ResponseChannel) list) HashMap"
  bh_state_updated :: bool
  metrics :: Metrics

text \<open>What a poll depends on besides the state: the clock, whether the state locks are taken, the
  random choice, the iteration order of the peer set, the libraries, and the log: its arguments are
  evaluated only at the levels that are enabled.\<close>

record bh_env =
  now :: Instant
  consensus_locked :: bool
  processor_locked :: bool
  gen_range :: "nat \<Rightarrow> nat"
  peers_order :: "PeerId fset \<Rightarrow> PeerId list"
  hashing :: hash_library
  info_enabled :: bool
  tx_fmt :: tx_format

datatype BhError = UnableToOperate | CancelSignal

text \<open>What a poll returns to the swarm, and the panics below it.\<close>

datatype 'ev bh_result =
    PollPending
  | GenerateError BhError
  | Dial PeerId
  | NotifyHandler PeerId "'ev Simple"
  | PollPanic

text \<open>A step of the poll goes on (\<open>None\<close>) or returns from it.\<close>

type_synonym 'ev bh_step = "'ev Behaviour \<Rightarrow> 'ev bh_result option \<times> 'ev Behaviour"

text \<open>\<open>Behaviour::new\<close> on the channels of the modules, in the order of its arguments; the user's are
  the server side. \<open>n1\<close> and \<open>n2\<close> are the clock readings of the timer.\<close>

definition Behaviour_new ::
  "Instant \<Rightarrow> Instant \<Rightarrow> PeerId \<Rightarrow> Duration \<Rightarrow> Duration
   \<Rightarrow> (UiInEvent, UiOutEvent, unit) module_channels \<Rightarrow> ('ev CsInEvent, 'ev CsOutEvent, CsModuleState) module_channels
   \<Rightarrow> (IsInEvent, IsOutEvent, unit) module_channels \<Rightarrow> (DmInEvent, DmOutEvent, unit) module_channels
   \<Rightarrow> (ProcInEvent, ProcOutEvent, ProcModuleState) module_channels \<Rightarrow> (RrInEvent, RrOutEvent, unit) module_channels
   \<Rightarrow> 'ev Behaviour" where
  "Behaviour_new n1 n2 own min_timeout max_timeout ui cs im dm pr rr =
     \<lparr>local_peer_id = own, discovered_peers = [],
      user_input = input_chan ui, user_output = output_chan ui, user_shutdown = shutdown_cancelled ui,
      consensus_input = input_chan cs, consensus_output = output_chan cs, consensus_state = shared_state cs,
      instruction_input = input_chan im, instruction_output = output_chan im,
      data_input = input_chan dm, data_output = output_chan dm,
      processor_input = input_chan pr, processor_output = output_chan pr, processor_state = shared_state pr,
      rr_input = input_chan rr, rr_output = output_chan rr,
      connected_peers = {||}, consensus_gossip_timer = DynamicTimer_new n1 n2 min_timeout max_timeout,
      oneshot_messages = [], pending_response = fmempty, processed_requests = fmempty,
      bh_state_updated = False, metrics = Metrics_new\<rparr>"

definition inject_peer_expired :: "PeerId \<Rightarrow> 'ev Behaviour \<Rightarrow> 'ev Behaviour" where
  "inject_peer_expired peer b = b"

definition inject_peer_discovered :: "PeerId \<Rightarrow> 'ev Behaviour \<Rightarrow> 'ev Behaviour" where
  "inject_peer_discovered new_peer b = b\<lparr>discovered_peers := new_peer # discovered_peers b\<rparr>"

text \<open>\<open>None\<close> if no peer is connected; \<open>Panic\<close> is the \<open>expect\<close>.\<close>

definition get_random_peer :: "bh_env \<Rightarrow> 'ev Behaviour \<Rightarrow> (unit, PeerId option) outcome" where
  "get_random_peer env b =
     (let conn = fcard (connected_peers b) in
      if conn = 0 then Ok None
      else
        let position = gen_range env conn in
        (case drop position (peers_order env (connected_peers b)) of
           [] \<Rightarrow> Panic
         | p # _ \<Rightarrow> Ok (Some p)))"

subsection \<open>Sending\<close>

text \<open>A send future that is polled once: a closed or a full channel makes the node stop.\<close>

definition must_send ::
  "('ev Behaviour \<Rightarrow> 'a chan) \<Rightarrow> (('a chan \<Rightarrow> 'a chan) \<Rightarrow> 'ev Behaviour \<Rightarrow> 'ev Behaviour) \<Rightarrow> 'a
   \<Rightarrow> 'ev bh_step" where
  "must_send get upd e b =
     (case poll_send e (get b) of
        (Ready True, ch) \<Rightarrow> (None, upd (\<lambda>_. ch) b)
      | _ \<Rightarrow> (Some (GenerateError UnableToOperate), b))"

text \<open>Sequencing of steps.\<close>

definition and_then :: "'ev bh_step \<Rightarrow> 'ev bh_step \<Rightarrow> 'ev bh_step" where
  "and_then f g b = (case f b of (None, b) \<Rightarrow> g b | (Some r, b) \<Rightarrow> (Some r, b))"

abbreviation to_consensus :: "'ev CsInEvent \<Rightarrow> 'ev bh_step" where
  "to_consensus \<equiv> must_send consensus_input consensus_input_update"

abbreviation to_data_memory :: "DmInEvent \<Rightarrow> 'ev bh_step" where
  "to_data_memory \<equiv> must_send data_input data_input_update"

abbreviation to_instruction_memory :: "IsInEvent \<Rightarrow> 'ev bh_step" where
  "to_instruction_memory \<equiv> must_send instruction_input instruction_input_update"

abbreviation to_processor :: "ProcInEvent \<Rightarrow> 'ev bh_step" where
  "to_processor \<equiv> must_send processor_input processor_input_update"

abbreviation to_user :: "UiOutEvent \<Rightarrow> 'ev bh_step" where
  "to_user \<equiv> must_send user_output user_output_update"

abbreviation to_network :: "RrInEvent \<Rightarrow> 'ev bh_step" where
  "to_network \<equiv> must_send rr_input rr_input_update"

definition note_queue_size :: "bh_env \<Rightarrow> 'ev bh_step" where
  "note_queue_size env b =
     (None, b\<lparr>metrics := (metrics b)\<lparr>consensus_queue_size :=
        update_queue_size (now env) (consensus_input b) (consensus_queue_size (metrics b))\<rparr>\<rparr>)"

definition hurry_gossip :: "bh_env \<Rightarrow> 'ev bh_step" where
  "hurry_gossip env b =
     (let t = now env in
      case reset_full (t, t, t, t, t) (consensus_gossip_timer b) of
        Ok timer \<Rightarrow> (None, b\<lparr>consensus_gossip_timer := timer\<rparr>)
      | _ \<Rightarrow> (Some PollPanic, b))"

subsection \<open>\<open>handlers.rs\<close>\<close>

definition handle_storage_request_tx :: "Vid \<Rightarrow> PeerId \<Rightarrow> 'ev bh_step" where
  "handle_storage_request_tx data_id from = to_data_memory (StorageRequestTx data_id from)"

definition handle_stored_ts :: "Vid \<Rightarrow> Sid \<Rightarrow> PeerId \<Rightarrow> 'ev bh_step" where
  "handle_stored_ts data_id shard_id from = to_data_memory (StoreConfirmed (data_id, shard_id) from)"

definition handle_execute_tx :: "bh_env \<Rightarrow> EventHash \<Rightarrow> Instructions \<Rightarrow> 'ev bh_step" where
  "handle_execute_tx env h ins b =
     (case Program_new (hashing env) ins (hash_from_event h) of
        Ok program \<Rightarrow> to_instruction_memory (FinalizedProgram program) b
      | Err _ \<Rightarrow> (Some (GenerateError UnableToOperate), b)
      | Panic \<Rightarrow> (Some PollPanic, b))"

definition handle_executed_tx :: "PeerId \<Rightarrow> ProgramIdentifier \<Rightarrow> 'ev bh_step" where
  "handle_executed_tx from program_id = to_instruction_memory (ExecutedProgram from program_id)"

definition handle_initialize_storage_tx :: "(PeerId \<times> Sid) list \<Rightarrow> 'ev bh_step" where
  "handle_initialize_storage_tx distr = to_data_memory (Initialize distr)"

fun handle_tx :: "bh_env \<Rightarrow> PeerId \<Rightarrow> Transaction \<Rightarrow> EventHash \<Rightarrow> 'ev bh_step" where
  "handle_tx env from (StorageRequest data_id) h = handle_storage_request_tx data_id from"
| "handle_tx env from (Stored data_id shard_id) h = handle_stored_ts data_id shard_id from"
| "handle_tx env from (ExecuteTx ins) h = handle_execute_tx env h ins"
| "handle_tx env from (Executed program_id) h = handle_executed_tx from program_id"
| "handle_tx env from (InitializeStorage distr) h = handle_initialize_storage_tx distr"

subsection \<open>The network side of the behaviour\<close>

datatype swarm_event =
    ConnectionEstablished PeerId nat
  | ConnectionClosed PeerId nat
  | OtherSwarmEvent

text \<open>The numbers are \<open>other_established\<close> and \<open>remaining_established\<close>.\<close>

fun on_swarm_event :: "swarm_event \<Rightarrow> 'ev Behaviour \<Rightarrow> 'ev Behaviour" where
  "on_swarm_event (ConnectionEstablished peer_id other_established) b =
     (if other_established > 0 then b
      else b\<lparr>connected_peers := finsert peer_id (connected_peers b)\<rparr>)"
| "on_swarm_event (ConnectionClosed peer_id remaining_established) b =
     (if remaining_established > 0 then b
      else b\<lparr>connected_peers := connected_peers b |-| {|peer_id|}\<rparr>)"
| "on_swarm_event OtherSwarmEvent b = b"

datatype 'ev InnerMessage = Rx "'ev Simple" | Sent

fun on_connection_handler_event :: "PeerId \<Rightarrow> 'ev InnerMessage \<Rightarrow> 'ev Behaviour \<Rightarrow> 'ev Behaviour" where
  "on_connection_handler_event peer_id (Rx msg) b =
     b\<lparr>oneshot_messages := (peer_id, msg) # oneshot_messages b, bh_state_updated := True\<rparr>"
| "on_connection_handler_event peer_id Sent b = b"

subsection \<open>The sections of \<open>poll\<close>\<close>

definition shutdown_section :: "'ev bh_step" where
  "shutdown_section b = (if user_shutdown b then Some (GenerateError CancelSignal) else None, b)"

text \<open>\<open>pop_back\<close> of a deque whose front is the head of the list.\<close>

definition pop_back :: "'a list \<Rightarrow> ('a \<times> 'a list) option" where
  "pop_back xs = (if xs = [] then None else Some (last xs, butlast xs))"

definition discovery_section :: "'ev bh_step" where
  "discovery_section b =
     (case pop_back (discovered_peers b) of
        Some (peer, rest) \<Rightarrow> (Some (Dial peer), b\<lparr>discovered_peers := rest\<rparr>)
      | None \<Rightarrow> (None, b))"

text \<open>The loops of the poll take the events of a channel until none is left. \<open>put\<close> stores what is
  left while an event is handled; at the end a channel without senders makes the node stop.\<close>

fun drain_events ::
  "('e \<Rightarrow> 'ev bh_step) \<Rightarrow> ('e list \<Rightarrow> 'ev Behaviour \<Rightarrow> 'ev Behaviour) \<Rightarrow> 'e list \<Rightarrow> 'ev bh_step" where
  "drain_events h put [] b = (None, b)"
| "drain_events h put (e # es) b =
     (case h e (put es b) of
        (None, b) \<Rightarrow> drain_events h put es b
      | (Some r, b) \<Rightarrow> (Some r, b))"

definition recv_loop ::
  "('ev Behaviour \<Rightarrow> 'e chan) \<Rightarrow> (('e chan \<Rightarrow> 'e chan) \<Rightarrow> 'ev Behaviour \<Rightarrow> 'ev Behaviour)
   \<Rightarrow> ('e \<Rightarrow> 'ev bh_step) \<Rightarrow> 'ev bh_step" where
  "recv_loop get upd h b =
     and_then (drain_events h (\<lambda>es. upd (\<lambda>ch. ch\<lparr>queue := es\<rparr>)) (queue (get b)))
       (\<lambda>b. if tx_alive (get b) then (None, b) else (Some (GenerateError UnableToOperate), b)) b"

fun on_oneshot :: "bh_env \<Rightarrow> PeerId \<times> 'ev Simple \<Rightarrow> 'ev bh_step" where
  "on_oneshot env (peer, GossipGraph jobs) =
     and_then (to_consensus (ApplySync peer jobs)) (note_queue_size env)"

text \<open>Taken from the back: the oldest message first.\<close>

definition oneshot_section :: "bh_env \<Rightarrow> 'ev bh_step" where
  "oneshot_section env b =
     drain_events (on_oneshot env) (\<lambda>ms b. b\<lparr>oneshot_messages := rev ms\<rparr>) (rev (oneshot_messages b))
       (b\<lparr>bh_state_updated := False\<rparr>)"

text \<open>The answers for everyone that waits for the same request.\<close>

fun respond_all :: "ProtoResponse \<Rightarrow> (RequestId \<times> ResponseChannel) list \<Rightarrow> 'ev bh_step" where
  "respond_all response [] b = (None, b)"
| "respond_all response ((request_id, sender) # rest) b =
     and_then (to_network (Respond request_id sender response)) (respond_all response rest) b"

definition answer_request :: "Request \<Rightarrow> ProtoResponse \<Rightarrow> 'ev bh_step" where
  "answer_request request response b =
     (let waiting_for_response = (case fmlookup (processed_requests b) request of None \<Rightarrow> [] | Some ws \<Rightarrow> ws)
      in respond_all response waiting_for_response
           (b\<lparr>processed_requests := fmdrop request (processed_requests b)\<rparr>))"

definition schedule_and_hurry :: "bh_env \<Rightarrow> Transaction \<Rightarrow> 'ev bh_step" where
  "schedule_and_hurry env tx =
     and_then (to_consensus (ScheduleTx tx)) (and_then (note_queue_size env) (hurry_gossip env))"

fun on_data_memory_event :: "bh_env \<Rightarrow> DmOutEvent \<Rightarrow> 'ev bh_step" where
  "on_data_memory_event env (OutServeShardRequest fid location) b =
     to_network (MakeRequest (ServeShard fid) location) b"
| "on_data_memory_event env (OutServeShardResponse fid shard) b =
     answer_request (ServeShard fid) (ServeShardResponse shard) b"
| "on_data_memory_event env (AssignedStoreSuccess fid) b =
     schedule_and_hurry env (Stored (fst fid) (snd fid)) b"
| "on_data_memory_event env (OutAssignedResponse fid shard) b =
     answer_request (GetShard fid) (GetShardResponse shard) b"
| "on_data_memory_event env (DistributionSufficient data_id) b = (None, b)"
| "on_data_memory_event env (DistributionFull data_id) b = to_user (PutConfirmed data_id) b"
| "on_data_memory_event env (OutListDistributed xs) b = to_user (ListStoredResponse xs) b"
| "on_data_memory_event env (PreparedServiceResponse data_id) b =
     schedule_and_hurry env (StorageRequest data_id) b"
| "on_data_memory_event env (OutAssignedRequest fid location) b =
     to_network (MakeRequest (GetShard fid) location) b"
| "on_data_memory_event env (RecollectResponse response) b = to_user (GetResponse response) b"
| "on_data_memory_event env DmInitialized b = to_user StorageInitialized b"

definition data_memory_section :: "bh_env \<Rightarrow> 'ev bh_step" where
  "data_memory_section env = recv_loop data_output data_output_update (on_data_memory_event env)"

fun on_user_event :: "bh_env \<Rightarrow> UiInEvent \<Rightarrow> 'ev bh_step" where
  "on_user_event env (ScheduleProgram ins) b =
     and_then (to_consensus (ScheduleTx (ExecuteTx ins)))
       (and_then (note_queue_size env) (and_then (to_user ScheduleOk) (hurry_gossip env))) b"
| "on_user_event env (Get data_id) b = to_data_memory (RecollectRequest data_id) b"
| "on_user_event env (Put data_id data) b = to_data_memory (PrepareServiceRequest data_id data) b"
| "on_user_event env ListStored b = to_data_memory InListDistributed b"
| "on_user_event env InitializeStorageUi b =
     and_then (to_consensus KnownPeersRequest) (note_queue_size env) b"
| "on_user_event env GetMetrics b = to_user (GetMetricsResponse (metrics b)) b"

definition user_section :: "bh_env \<Rightarrow> 'ev bh_step" where
  "user_section env = recv_loop user_input user_input_update (on_user_event env)"

fun on_processor_event :: "bh_env \<Rightarrow> ProcOutEvent \<Rightarrow> 'ev bh_step" where
  "on_processor_event env (FinishedExecution program_id results) b =
     schedule_and_hurry env (Executed program_id) b"

definition processor_section :: "bh_env \<Rightarrow> 'ev bh_step" where
  "processor_section env = recv_loop processor_output processor_output_update (on_processor_event env)"

fun on_instruction_event :: "IsOutEvent \<Rightarrow> 'ev bh_step" where
  "on_instruction_event (NextProgram program) b = to_processor (Execute program) b"
| "on_instruction_event (IsFinishedExecution program_id) b = to_user (ProgramExecuted program_id) b"
| "on_instruction_event (IsPeerShardsActualized program_id peer updated_data_ids) b =
     to_data_memory (PeerShardsActualized peer updated_data_ids) b"

definition instruction_section :: "bh_env \<Rightarrow> 'ev bh_step" where
  "instruction_section env b =
     (if client_accepts_input proc_accepts_input (processor_locked env) (processor_state b)
      then recv_loop instruction_output instruction_output_update on_instruction_event b
      else (None, b))"

text \<open>The peers of the graph and the connected ones, numbered in the order of the set.\<close>

definition known_distribution :: "bh_env \<Rightarrow> PeerId list \<Rightarrow> PeerId fset \<Rightarrow> (PeerId \<times> Sid) list" where
  "known_distribution env peers conn =
     map (\<lambda>(i, peer). (peer, Sid (of_nat i)))
       (enumerate 0 (peers_order env (fset_of_list peers |\<union>| conn)))"

text \<open>\<open>info!("Recognized tx: {}", tx.variant_short_string())\<close>\<close>

definition log_recognized :: "bh_env \<Rightarrow> Transaction \<Rightarrow> 'ev bh_step" where
  "log_recognized env tx b =
     (if info_enabled env
      then (case variant_short_string (hashing env) (tx_fmt env) tx of
              Ok _ \<Rightarrow> (None, b)
            | _ \<Rightarrow> (Some PollPanic, b))
      else (None, b))"

fun on_consensus_event :: "bh_env \<Rightarrow> 'ev CsOutEvent \<Rightarrow> 'ev bh_step" where
  "on_consensus_event env (GenerateSyncResponse to jobs) b =
     (Some (NotifyHandler to (GossipGraph jobs)),
      b\<lparr>metrics := (metrics b)\<lparr>sync := record_end (now env) (sync (metrics b))\<rparr>\<rparr>)"
| "on_consensus_event env (KnownPeersResponse peers) b =
     schedule_and_hurry env (InitializeStorage (known_distribution env peers (connected_peers b))) b"
| "on_consensus_event env (RecognizedTransaction from h tx) b =
     and_then (log_recognized env tx) (and_then (hurry_gossip env) (handle_tx env from tx h)) b"
| "on_consensus_event env (FinalizedTransaction from h tx) b = (None, b)"

definition consensus_section :: "bh_env \<Rightarrow> 'ev bh_step" where
  "consensus_section env = recv_loop consensus_output consensus_output_update (on_consensus_event env)"

text \<open>A send that may be skipped when the channel is full; \<open>success\<close> is what follows a successful one.\<close>

definition may_send :: "'ev CsInEvent \<Rightarrow> 'ev bh_step \<Rightarrow> 'ev bh_step" where
  "may_send e success b =
     (case poll_send e (consensus_input b) of
        (Ready True, ch) \<Rightarrow> success (b\<lparr>consensus_input := ch\<rparr>)
      | (Ready False, _) \<Rightarrow> (Some (GenerateError UnableToOperate), b)
      | (Pending, _) \<Rightarrow> (None, b))"

definition note_sync_start :: "bh_env \<Rightarrow> 'ev bh_step" where
  "note_sync_start env b =
     (None, b\<lparr>metrics := (metrics b)\<lparr>sync := record_start (now env) (sync (metrics b))\<rparr>\<rparr>)"

definition gossip_section :: "bh_env \<Rightarrow> 'ev bh_step" where
  "gossip_section env b =
     (if client_accepts_input cs_accepts_input (consensus_locked env) (consensus_state b)
         \<and> timer_ready (now env) (consensus_gossip_timer b)
      then
        (case get_random_peer env b of
           Ok random_peer \<Rightarrow>
             (case start_next (now env) (now env) (consensus_gossip_timer b) of
                Ok timer \<Rightarrow>
                  (let b = b\<lparr>consensus_gossip_timer := timer\<rparr> in
                   case random_peer of
                     None \<Rightarrow> (None, b)
                   | Some p \<Rightarrow>
                       and_then (may_send CreateStandalone (\<lambda>b. (None, b)))
                         (and_then (may_send (GenerateSyncRequest p) (note_sync_start env))
                           (note_queue_size env)) b)
              | _ \<Rightarrow> (Some PollPanic, b))
         | _ \<Rightarrow> (Some PollPanic, b))
      else (None, b))"

fun on_rr_event :: "RrOutEvent \<Rightarrow> 'ev bh_step" where
  "on_rr_event (AssignedRequestId request_id request) b =
     (None, b\<lparr>pending_response := fmupd request_id request (pending_response b)\<rparr>)"
| "on_rr_event (RrResponse request_id response) b =
     (case (fmlookup (pending_response b) request_id, response) of
        (Some (GetShard fid), GetShardResponse shard) \<Rightarrow> to_data_memory (InAssignedResponse fid shard) b
      | (Some (ServeShard fid), ServeShardResponse shard) \<Rightarrow> to_data_memory (InServeShardResponse fid shard) b
      | _ \<Rightarrow> (None, b))"
| "on_rr_event (IncomingRequest request_id request channel) b =
     and_then
       (to_data_memory (case request of GetShard fid \<Rightarrow> InAssignedRequest fid | ServeShard fid \<Rightarrow> InServeShardRequest fid))
       (\<lambda>b. (None, b\<lparr>processed_requests := fmupd request
          ((case fmlookup (processed_requests b) request of None \<Rightarrow> [] | Some ws \<Rightarrow> ws) @ [(request_id, channel)])
          (processed_requests b)\<rparr>)) b"

definition rr_section :: "'ev bh_step" where
  "rr_section = recv_loop rr_output rr_output_update on_rr_event"

text \<open>The whole poll.\<close>

definition bh_poll :: "bh_env \<Rightarrow> 'ev Behaviour \<Rightarrow> 'ev bh_result \<times> 'ev Behaviour" where
  "bh_poll env b =
     (case
        and_then shutdown_section
        (and_then discovery_section
        (and_then (oneshot_section env)
        (and_then (data_memory_section env)
        (and_then (user_section env)
        (and_then (processor_section env)
        (and_then (instruction_section env)
        (and_then (consensus_section env)
        (and_then (gossip_section env)
        rr_section)))))))) b
      of (None, b) \<Rightarrow> (PollPending, b)
       | (Some r, b) \<Rightarrow> (r, b))"

subsection \<open>Examples\<close>

text \<open>A behaviour with open channels of 16 places, for the concrete runs.\<close>

abbreviation example_behaviour :: "nat Behaviour" where
  "example_behaviour \<equiv>
     Behaviour_new 0 0 1 1 1 (module_channels_new None 16) (module_channels_new (Some CsReady) 16)
       (module_channels_new None 16) (module_channels_new None 16) (module_channels_new (Some Ready_State) 16)
       (module_channels_new None 16)"

abbreviation example_env :: bh_env where
  "example_env \<equiv> \<lparr>now = 5, consensus_locked = False, processor_locked = False, gen_range = (\<lambda>n. n - 1),
     peers_order = sorted_list_of_fset,
     hashing = \<lparr>bincode_instructions = (\<lambda>_. Inr []), blake2b512 = (\<lambda>_. replicate 64 0)\<rparr>,
     info_enabled = True, tx_fmt = \<lparr>fmt_data_id = (\<lambda>_. []), fmt_hash = (\<lambda>_. []), fmt_program_id = (\<lambda>_. [])\<rparr>\<rparr>"

end
