(* ===== verification/Swarm_Ui.thy ===== *)
theory Swarm_Ui
  imports Swarm_Behaviour Swarm_Recollection
begin

text \<open>
  The user side of a node: the input files of \<open>io/mod.rs\<close> and the commands of \<open>ui.rs\<close>. Files, JSON,
  the command-line library and the plotting library are parameters. The theorems say what each
  command asks the behaviour to do, on every branch, and that written input files read back.
\<close>

subsection \<open>\<open>io/mod.rs\<close>\<close>

record InputData =
  input_data :: "(Vid \<times> Data) list"

record InputProgram =
  input_instructions :: Instructions

text \<open>\<open>tokio::fs\<close> on a file system \<open>'fs\<close>, and \<open>serde_json\<close> for one type. Errors are opaque.\<close>

record 'fs files =
  read_to_string :: "string \<Rightarrow> 'fs \<Rightarrow> string + string"
  write_file :: "string \<Rightarrow> string \<Rightarrow> 'fs \<Rightarrow> (string + unit) \<times> 'fs"

record 't serde_json =
  json_from_str :: "string \<Rightarrow> string + 't"
  json_to_string :: "'t \<Rightarrow> string + string"

definition read_input :: "'fs files \<Rightarrow> 't serde_json \<Rightarrow> string \<Rightarrow> 'fs \<Rightarrow> string + 't" where
  "read_input fl json path fs =
     (case read_to_string fl path fs of Inl e \<Rightarrow> Inl e | Inr raw \<Rightarrow> json_from_str json raw)"

definition write_input :: "'fs files \<Rightarrow> 't serde_json \<Rightarrow> string \<Rightarrow> 't \<Rightarrow> 'fs \<Rightarrow> (string + unit) \<times> 'fs" where
  "write_input fl json path data fs =
     (case json_to_string json data of Inl e \<Rightarrow> (Inl e, fs) | Inr raw \<Rightarrow> write_file fl path raw fs)"

text \<open>The generated input: two data units of random bytes (\<open>r1\<close> and \<open>r2\<close> are what the generator
  returns, by position), and the last of the three programs, which are values that replace each
  other.\<close>

definition test_input_data :: "array_feature \<Rightarrow> (nat \<Rightarrow> u8) \<Rightarrow> (nat \<Rightarrow> u8) \<Rightarrow> InputData" where
  "test_input_data ft r1 r2 =
     (let n = data_len ft in
      \<lparr>input_data = [(Vid 1, Data (map r1 [0..<n])), (Vid 2, Data (map r2 [0..<n]))]\<rparr>)"

definition test_program_simple :: InputProgram where
  "test_program_simple =
     \<lparr>input_instructions = [instr_plus (Vid 1) (Vid 2) (Vid 3), instr_sub (Vid 1) (Vid 2) (Vid 4), instr_inv (Vid 4) (Vid 5)]\<rparr>"

definition test_program_consistency :: InputProgram where
  "test_program_consistency =
     \<lparr>input_instructions =
        concat (replicate 10000 [instr_plus (Vid 1) (Vid 2) (Vid 1), instr_plus (Vid 1) (Vid 2) (Vid 2)])\<rparr>"

definition test_program_performance :: InputProgram where
  "test_program_performance = \<lparr>input_instructions = replicate 25000 (instr_plus (Vid 1) (Vid 2) (Vid 1))\<rparr>"

definition test_write_input ::
  "'fs files \<Rightarrow> InputData serde_json \<Rightarrow> InputProgram serde_json \<Rightarrow> array_feature \<Rightarrow> (nat \<Rightarrow> u8) \<Rightarrow> (nat \<Rightarrow> u8)
   \<Rightarrow> string \<Rightarrow> string \<Rightarrow> 'fs \<Rightarrow> (string + unit) \<times> 'fs" where
  "test_write_input fl jd jp ft r1 r2 path_data path_program fs =
     (case write_input fl jd path_data (test_input_data ft r1 r2) fs of
        (Inl e, fs) \<Rightarrow> (Inl e, fs)
      | (Inr _, fs) \<Rightarrow> write_input fl jp path_program test_program_performance fs)"

subsection \<open>\<open>ui.rs\<close>: showing answers\<close>

text \<open>How values are formatted, the charts, and the iteration order of the shard maps.\<close>

record ui_fmt =
  dbg_vid :: "Vid \<Rightarrow> string"
  dbg_sid :: "Sid \<Rightarrow> string"
  dbg_peer :: "PeerId \<Rightarrow> string"
  dbg_data :: "Data \<Rightarrow> string"
  dbg_program :: "ProgramIdentifier \<Rightarrow> string"
  dbg_storage :: "(Vid, Data) HashMap \<Rightarrow> string"
  chart :: "nat \<Rightarrow> nat \<Rightarrow> real \<Rightarrow> real \<Rightarrow> (real \<times> real) list \<Rightarrow> string list"
  stored_order :: "(Sid, PeerId) hash_order"

text \<open>\<open>Display\<close> of the error, in \<open>data_memory/mod.rs\<close>.\<close>

fun show_recollection_error :: "RecollectionError \<Rightarrow> string" where
  "show_recollection_error UnkonwnDataId =
     ''Data id requested is not known to be stored in the system at all. ''
     @ ''You might need to wait for it to appear''"
| "show_recollection_error RecollectNotEnoughShards =
     ''The data is not fully distributed, hopefully '' @ [CHR 0x27] @ ''yet'' @ [CHR 0x27]"

definition print_all_stored :: "ui_fmt \<Rightarrow> (Vid \<times> (Sid, PeerId) HashMap) list \<Rightarrow> string list" where
  "print_all_stored f list =
     [[], ''All data known to be stored in the network:''] @
     concat (map (\<lambda>(v, shards).
       dbg_vid f v # map (\<lambda>(sid, peer). CHR 0x09 # dbg_sid f sid @ '' - '' @ dbg_peer f peer) (stored_order f shards)
         @ [[]]) list)"

definition print_metrics_field :: "ui_fmt \<Rightarrow> string \<Rightarrow> (real \<times> real) list \<Rightarrow> string list" where
  "print_metrics_field f name data_points =
     name # (if data_points = [] then []
             else (let t_last = fst (last data_points) in
                   chart f 120 60 (max (t_last - 60) 0) t_last data_points @ [[]]))"

definition print_metrics :: "ui_fmt \<Rightarrow> Instant \<Rightarrow> Metrics \<Rightarrow> string list" where
  "print_metrics f t m =
     [[], ''Metrics:'']
     @ print_metrics_field f ''Sync generation'' (event_data_for_step t (sync m))
     @ print_metrics_field f ''Consensus input queue''
         (map (\<lambda>(x, size). (x, real size)) (gauge_data_for_step 0 t (consensus_queue_size m)))"

fun print_response :: "ui_fmt \<Rightarrow> Instant \<Rightarrow> UiOutEvent \<Rightarrow> string list" where
  "print_response f t ScheduleOk = [''Program scheduled successfully'']"
| "print_response f t (ProgramExecuted pid) = [''Program '' @ dbg_program f pid @ '' finished execution'']"
| "print_response f t (GetResponse (Inr (v, d))) = [''Retrieved data with id '' @ dbg_vid f v @ '': '' @ dbg_data f d]"
| "print_response f t (GetResponse (Inl e)) = [''Could not recollect data: '' @ show_recollection_error e]"
| "print_response f t (PutConfirmed v) =
     [''Data with id '' @ dbg_vid f v @ '' was successfully distributed across the network'']"
| "print_response f t (ListStoredResponse list) = print_all_stored f list"
| "print_response f t StorageInitialized = [''Storage initialized'']"
| "print_response f t (GetMetricsResponse m) = print_metrics f t m"

text \<open>The loop ends when the behaviour is gone; the times are the clock when a response is shown.\<close>

fun handle_responses :: "ui_fmt \<Rightarrow> (Instant \<times> UiOutEvent) list \<Rightarrow> string list" where
  "handle_responses f [] = []"
| "handle_responses f ((t, next) # rest) = print_response f t next @ handle_responses f rest"

subsection \<open>\<open>ui.rs\<close>: commands\<close>

text \<open>A send waits for room and fails only when the behaviour is gone.\<close>

definition ui_send :: "UiInEvent \<Rightarrow> UiInEvent sink \<Rightarrow> (string + unit) \<times> UiInEvent sink" where
  "ui_send e c = (let (ok, c) = sink_send e c in (if ok then Inr () else Inl ''channel closed'', c))"

fun send_puts :: "(Vid \<times> Data) list \<Rightarrow> UiInEvent sink \<Rightarrow> (string + unit) \<times> UiInEvent sink" where
  "send_puts [] c = (Inr (), c)"
| "send_puts ((data_id, data) # rest) c =
     (case ui_send (Put data_id data) c of (Inl e, c) \<Rightarrow> (Inl e, c) | (Inr _, c) \<Rightarrow> send_puts rest c)"

text \<open>What the handlers use: files, the two JSON formats, hashing, the erasure-coding crate of the mock
  processor, and formatting.\<close>

record 'fs ui_env =
  ui_files :: "'fs files"
  json_data :: "InputData serde_json"
  json_program :: "InputProgram serde_json"
  ui_hashing :: hash_library
  ui_rs :: rs_library
  ui_formats :: ui_fmt

definition handle_put :: "'fs ui_env \<Rightarrow> 'fs \<Rightarrow> string \<Rightarrow> UiInEvent sink \<Rightarrow> (string + unit) \<times> UiInEvent sink" where
  "handle_put u fs filename c =
     (case read_input (ui_files u) (json_data u) filename fs of
        Inl e \<Rightarrow> (Inl e, c)
      | Inr data_list \<Rightarrow> send_puts (input_data data_list) c)"

definition handle_get :: "Vid \<Rightarrow> UiInEvent sink \<Rightarrow> (string + unit) \<times> UiInEvent sink" where
  "handle_get data_id c = ui_send (Get data_id) c"

definition handle_schedule_exec ::
  "'fs ui_env \<Rightarrow> 'fs \<Rightarrow> string \<Rightarrow> UiInEvent sink \<Rightarrow> (string + unit) \<times> UiInEvent sink" where
  "handle_schedule_exec u fs filename c =
     (case read_input (ui_files u) (json_program u) filename fs of
        Inl e \<Rightarrow> (Inl e, c)
      | Inr program \<Rightarrow> ui_send (ScheduleProgram (input_instructions program)) c)"

definition handle_metrics_print :: "UiInEvent sink \<Rightarrow> (string + unit) \<times> UiInEvent sink" where
  "handle_metrics_print c = ui_send GetMetrics c"

text \<open>The mock execution: what is printed, and the result; a wrong digest length is a panic.\<close>

definition handle_expected_output ::
  "'fs ui_env \<Rightarrow> 'fs \<Rightarrow> string \<Rightarrow> string \<Rightarrow> string list \<times> (string, unit) outcome" where
  "handle_expected_output u fs data_filename program_filename =
     (case read_input (ui_files u) (json_program u) program_filename fs of
        Inl e \<Rightarrow> ([''Reading program...''], Err e)
      | Inr program \<Rightarrow>
     (case read_input (ui_files u) (json_data u) data_filename fs of
        Inl e \<Rightarrow> ([''Reading program...'', ''Reading data...''], Err e)
      | Inr data \<Rightarrow>
     (case Program_new (ui_hashing u) (input_instructions program) (hash_from_array (replicate 64 0)) of
        Panic \<Rightarrow> ([''Reading program...'', ''Reading data...''], Panic)
      | Err e \<Rightarrow> ([''Reading program...'', ''Reading data...''], Err e)
      | Ok program \<Rightarrow>
     (case mock_execute_on (ui_rs u) program (hm_collect (input_data data)) of
        (Inl _, _) \<Rightarrow>
          ([''Reading program...'', ''Reading data...'', ''Starting mock program execution...''], Err ''mock execution'')
      | (Inr _, data_storage) \<Rightarrow>
          ([''Reading program...'', ''Reading data...'', ''Starting mock program execution...'',
            ''Finished mock execution, storage state after:'', dbg_storage (ui_formats u) data_storage], Ok ())))))"

subsection \<open>\<open>u64::from_str\<close>\<close>

datatype ParseIntError = EmptyInput | InvalidDigit | PosOverflow

definition to_digit :: "char \<Rightarrow> nat option" where
  "to_digit c = (let n = of_char c :: nat in if 48 \<le> n \<and> n < 58 then Some (n - 48) else None)"

fun parse_digits :: "nat \<Rightarrow> string \<Rightarrow> ParseIntError + nat" where
  "parse_digits acc [] = Inr acc"
| "parse_digits acc (c # cs) =
     (case to_digit c of
        None \<Rightarrow> Inl InvalidDigit
      | Some d \<Rightarrow> if acc * 10 + d < 2 ^ 64 then parse_digits (acc * 10 + d) cs else Inl PosOverflow)"

fun parse_u64 :: "string \<Rightarrow> ParseIntError + u64" where
  "parse_u64 [] = Inl EmptyInput"
| "parse_u64 (c # cs) =
     map_sum (\<lambda>e. e) of_nat
       (if c = CHR ''+'' then (if cs = [] then Inl InvalidDigit else parse_digits 0 cs)
        else parse_digits 0 (c # cs))"

subsection \<open>The commands\<close>

text \<open>The argument checks of the command-line library, by the types of the arguments.\<close>

datatype arg_type = StringArg | U64Arg

datatype CommandStatus = Done

record repl_library =
  validator :: "arg_type list \<Rightarrow> string list \<Rightarrow> string + unit"

text \<open>\<open>if let Err(e) = ... { warn!(...) }\<close> and \<open>Ok(CommandStatus::Done)\<close>.\<close>

fun done_anyway :: "(string + unit) \<times> UiInEvent sink \<Rightarrow> (string, CommandStatus) outcome \<times> UiInEvent sink" where
  "done_anyway (_, c) = (Ok Done, c)"

text \<open>\<open>args[i]\<close>, which panics out of range.\<close>

definition with_arg :: "string list \<Rightarrow> nat \<Rightarrow> (string \<Rightarrow> (string, 'a) outcome \<times> 'c) \<Rightarrow> 'c \<Rightarrow> (string, 'a) outcome \<times> 'c" where
  "with_arg args i f c = (if i < length args then f (args ! i) else (Panic, c))"

text \<open>The handlers that \<open>run_repl\<close> registers, by the name of the command; \<open>None\<close> for an unknown one.
  The last component of the result is what \<open>mock_calc\<close> prints.\<close>

definition repl_command ::
  "'fs ui_env \<Rightarrow> repl_library \<Rightarrow> 'fs \<Rightarrow> string \<Rightarrow> string list \<Rightarrow> UiInEvent sink
   \<Rightarrow> ((string, CommandStatus) outcome \<times> UiInEvent sink \<times> string list) option" where
  "repl_command u lib fs name args c =
     (let quiet = (\<lambda>(r, c). Some (r, c, []));
          checked = (\<lambda>types run. case validator lib types args of Inl e \<Rightarrow> (Err e, c) | Inr _ \<Rightarrow> run c)
      in
      if name = ''init'' then quiet (done_anyway (ui_send InitializeStorageUi c))
      else if name = ''readall'' then quiet (done_anyway (ui_send ListStored c))
      else if name = ''put'' then
        quiet (checked [StringArg] (\<lambda>c. with_arg args 0 (\<lambda>filename. done_anyway (handle_put u fs filename c)) c))
      else if name = ''get'' then
        quiet (checked [U64Arg] (\<lambda>c. with_arg args 0
          (\<lambda>arg. case parse_u64 arg of
             Inl _ \<Rightarrow> (Err ''invalid number'', c)
           | Inr n \<Rightarrow> done_anyway (handle_get (Vid n) c)) c))
      else if name = ''schedule'' then
        quiet (checked [StringArg] (\<lambda>c. with_arg args 0 (\<lambda>filename. done_anyway (handle_schedule_exec u fs filename c)) c))
      else if name = ''metrics_print'' then quiet (done_anyway (handle_metrics_print c))
      else if name = ''mock_calc'' then
        (case validator lib [StringArg, StringArg] args of
           Inl e \<Rightarrow> Some (Err e, c, [])
         | Inr _ \<Rightarrow>
             if length args < 2 then Some (Panic, c, [])
             else (let (lines, r) = handle_expected_output u fs (args ! 0) (args ! 1)
                   in Some (if r = Panic then Panic else Ok Done, c, lines)))
      else None)"

subsection \<open>Contracts of the libraries\<close>

text \<open>Files keep what was written last, and JSON reads back what it wrote.\<close>

locale file_store =
  fixes fl :: "'fs files"
  assumes read_written: "write_file fl path raw fs = (Inr u, fs') \<Longrightarrow> read_to_string fl path fs' = Inr raw"
    and read_other: "write_file fl path raw fs = (r, fs') \<Longrightarrow> path' \<noteq> path
      \<Longrightarrow> read_to_string fl path' fs' = read_to_string fl path' fs"
begin

lemma write_read:
  assumes "\<And>t raw. json_to_string json t = Inr raw \<Longrightarrow> json_from_str json raw = Inr t"
    and "write_input fl json path t fs = (Inr u, fs')"
  shows "read_input fl json path fs' = Inr t"
    and "path' \<noteq> path \<Longrightarrow> read_input fl json' path' fs' = read_input fl json' path' fs"
proof -
  obtain raw where raw: "json_to_string json t = Inr raw" "write_file fl path raw fs = (Inr u, fs')"
    using assms(2) by (auto simp: write_input_def split: sum.splits)
  then show "read_input fl json path fs' = Inr t"
    using read_written assms(1) by (simp add: read_input_def)
  show "path' \<noteq> path \<Longrightarrow> read_input fl json' path' fs' = read_input fl json' path' fs"
    using raw(2) read_other by (simp add: read_input_def)
qed

end

text \<open>A file system as a map from paths, and a JSON format of one value.\<close>

definition map_files :: "(string \<Rightarrow> string option) files" where
  "map_files =
     \<lparr>read_to_string = (\<lambda>path fs. case fs path of None \<Rightarrow> Inl ''no such file'' | Some raw \<Rightarrow> Inr raw),
      write_file = (\<lambda>path raw fs. (Inr (), fs(path \<mapsto> raw)))\<rparr>"

definition one_json :: "string \<Rightarrow> 't \<Rightarrow> 't serde_json" where
  "one_json text t =
     \<lparr>json_from_str = (\<lambda>raw. if raw = text then Inr t else Inl ''syntax''),
      json_to_string = (\<lambda>x. if x = t then Inr text else Inl ''unsupported'')\<rparr>"

interpretation map_store: file_store map_files
  by unfold_locales (auto simp: map_files_def)

text \<open>The argument checks count the arguments; a number has to parse.\<close>

locale argument_checks =
  fixes lib :: repl_library
  assumes accepted_length: "validator lib types args = Inr u \<Longrightarrow> length args = length types"
    and accepted_number: "validator lib [U64Arg] [arg] = Inr u \<longleftrightarrow> (\<exists>n. parse_u64 arg = Inr n)"
begin

lemma accepted_one: "validator lib [t] args = Inr u \<Longrightarrow> \<exists>arg. args = [arg]"
  using accepted_length [of "[t]" args u] by (auto simp: length_Suc_conv)

end

definition strict_checks :: repl_library where
  "strict_checks =
     \<lparr>validator = (\<lambda>types args.
        if length args = length types
           \<and> list_all2 (\<lambda>t a. t = U64Arg \<longrightarrow> (case parse_u64 a of Inl _ \<Rightarrow> False | Inr _ \<Rightarrow> True)) types args
        then Inr () else Inl ''wrong arguments'')\<rparr>"

interpretation strict: argument_checks strict_checks
  by unfold_locales (auto simp: strict_checks_def split: if_splits sum.splits)

subsection \<open>Numbers\<close>

text \<open>The value of a string of digits.\<close>

definition decimal :: "string \<Rightarrow> nat" where
  "decimal ds = foldl (\<lambda>acc c. acc * 10 + the (to_digit c)) 0 ds"

definition all_digits :: "string \<Rightarrow> bool" where
  "all_digits ds \<longleftrightarrow> list_all (\<lambda>c. to_digit c \<noteq> None) ds"

lemma foldl_decimal_mono: "acc \<le> foldl (\<lambda>acc c. acc * 10 + the (to_digit c)) acc ds"
proof (induction ds arbitrary: acc)
  case (Cons d ds)
  have "acc \<le> acc * 10 + the (to_digit d)" by simp
  also note Cons
  finally show ?case by simp
qed simp

lemma parse_digits_eq:
  "acc < 2 ^ 64 \<Longrightarrow> all_digits ds \<Longrightarrow> parse_digits acc ds =
     (let n = foldl (\<lambda>acc c. acc * 10 + the (to_digit c)) acc ds in if n < 2 ^ 64 then Inr n else Inl PosOverflow)"
proof (induction ds arbitrary: acc)
  case (Cons d ds)
  then obtain k where k: "to_digit d = Some k" by (auto simp: all_digits_def)
  show ?case
  proof (cases "acc * 10 + k < 2 ^ 64")
    case True
    with Cons k show ?thesis by (simp add: all_digits_def)
  next
    case False
    with foldl_decimal_mono [of "acc * 10 + k" ds] have "\<not> foldl (\<lambda>acc c. acc * 10 + the (to_digit c)) (acc * 10 + k) ds < 2 ^ 64"
      by linarith
    with False k show ?thesis by (simp add: Let_def)
  qed
qed simp

lemma parse_digits_invalid:
  "parse_digits acc ds = Inr n \<Longrightarrow> all_digits ds"
  by (induction acc ds rule: parse_digits.induct) (auto simp: all_digits_def split: option.splits if_splits)

lemma parse_digits_iff:
  "parse_digits 0 ds = Inr k \<longleftrightarrow> all_digits ds \<and> decimal ds < 2 ^ 64 \<and> k = decimal ds"
  using parse_digits_eq [of 0 ds] parse_digits_invalid [of 0 ds]
  by (auto simp: decimal_def Let_def split: if_splits)

lemma map_sum_Inr_iff: "map_sum f g x = Inr n \<longleftrightarrow> (\<exists>k. x = Inr k \<and> n = g k)"
  by (cases x) auto

text \<open>The digits of a number, without the plus sign.\<close>

definition unsigned_digits :: "string \<Rightarrow> string" where
  "unsigned_digits s = (if s \<noteq> [] \<and> hd s = CHR ''+'' then tl s else s)"

subsection \<open>Properties\<close>

text \<open>The number of a \<open>get\<close> command is read exactly. What is accepted is a non-empty string of
  digits, with or without a plus sign, whose decimal value is below two to the power of 64, and it
  is read as that value; a larger value is refused as an overflow and never wraps around.\<close>

lemma parse_u64_exact:
  "(parse_u64 s = Inr n \<longleftrightarrow> unsigned_digits s \<noteq> [] \<and> all_digits (unsigned_digits s)
      \<and> decimal (unsigned_digits s) < 2 ^ 64 \<and> n = of_nat (decimal (unsigned_digits s)))
   \<and> (unsigned_digits s \<noteq> [] \<and> all_digits (unsigned_digits s) \<and> 2 ^ 64 \<le> decimal (unsigned_digits s)
      \<longrightarrow> parse_u64 s = Inl PosOverflow)"
proof (cases s)
  case (Cons c cs)
  have over: "all_digits ds \<Longrightarrow> 2 ^ 64 \<le> decimal ds \<Longrightarrow> parse_digits 0 ds = Inl PosOverflow" for ds
    using parse_digits_eq [of 0 ds] by (simp add: decimal_def)
  show ?thesis
  proof (cases "c = CHR ''+''")
    case True
    then show ?thesis using over [of cs]
      by (auto simp: Cons unsigned_digits_def map_sum_Inr_iff parse_digits_iff simp del: parse_digits.simps)
  next
    case False
    then show ?thesis using over [of s]
      by (auto simp: Cons unsigned_digits_def map_sum_Inr_iff parse_digits_iff simp del: parse_digits.simps)
  qed
qed (simp add: unsigned_digits_def)

lemma send_puts_open:
  "closes_after c = None \<Longrightarrow> send_puts xs c = (Inr (), c\<lparr>sent := sent c @ map (\<lambda>(v, d). Put v d) xs\<rparr>)"
  by (induction xs arbitrary: c) (auto simp: ui_send_def sink_simps)

lemma done_anyway_no_panic: "fst (done_anyway x) \<noteq> Panic"
  by (cases x) simp

text \<open>What a \<open>put\<close> and a \<open>schedule\<close> command read from their file.\<close>

definition puts_of :: "'fs ui_env \<Rightarrow> 'fs \<Rightarrow> string \<Rightarrow> UiInEvent list" where
  "puts_of u fs filename =
     (case read_input (ui_files u) (json_data u) filename fs of
        Inl _ \<Rightarrow> [] | Inr data_list \<Rightarrow> map (\<lambda>(v, d). Put v d) (input_data data_list))"

definition program_of :: "'fs ui_env \<Rightarrow> 'fs \<Rightarrow> string \<Rightarrow> UiInEvent list" where
  "program_of u fs filename =
     (case read_input (ui_files u) (json_program u) filename fs of
        Inl _ \<Rightarrow> [] | Inr program \<Rightarrow> [ScheduleProgram (input_instructions program)])"

text \<open>What the commands ask of the behaviour. A \<open>get\<close> with one argument that is a number asks for
  the data unit of that number; any other \<open>get\<close> is refused and asks nothing. An accepted \<open>put\<close> asks to
  store the data units of the file, all of them in the order of the file, and an accepted \<open>schedule\<close>
  to run the program of the file; an unreadable file asks nothing and the command is done all the
  same.\<close>

lemma commands_ask:
  assumes checks: "argument_checks lib" and c: "closes_after c = None"
  shows "(case args of
      [arg] \<Rightarrow> (case parse_u64 arg of
          Inr n \<Rightarrow> repl_command u lib fs ''get'' args c = Some (Ok Done, c\<lparr>sent := sent c @ [Get (Vid n)]\<rparr>, [])
        | Inl _ \<Rightarrow> \<exists>e. repl_command u lib fs ''get'' args c = Some (Err e, c, []))
    | _ \<Rightarrow> \<exists>e. repl_command u lib fs ''get'' args c = Some (Err e, c, []))
    \<and> (\<forall>filename. validator lib [StringArg] [filename] = Inr () \<longrightarrow>
        repl_command u lib fs ''put'' [filename] c = Some (Ok Done, c\<lparr>sent := sent c @ puts_of u fs filename\<rparr>, [])
        \<and> repl_command u lib fs ''schedule'' [filename] c
            = Some (Ok Done, c\<lparr>sent := sent c @ program_of u fs filename\<rparr>, []))"
proof (intro conjI allI impI)
  have refused: "\<exists>e. validator lib [U64Arg] args = Inl e" if "\<And>arg. args = [arg] \<Longrightarrow> \<exists>e. parse_u64 arg = Inl e"
  proof (cases "validator lib [U64Arg] args")
    case (Inr u)
    then obtain arg where "args = [arg]" using argument_checks.accepted_one [OF checks] by blast
    with Inr that show ?thesis using argument_checks.accepted_number [OF checks, of arg u] by fastforce
  qed simp
  show "case args of
      [arg] \<Rightarrow> (case parse_u64 arg of
          Inr n \<Rightarrow> repl_command u lib fs ''get'' args c = Some (Ok Done, c\<lparr>sent := sent c @ [Get (Vid n)]\<rparr>, [])
        | Inl _ \<Rightarrow> \<exists>e. repl_command u lib fs ''get'' args c = Some (Err e, c, []))
    | _ \<Rightarrow> \<exists>e. repl_command u lib fs ''get'' args c = Some (Err e, c, [])"
  proof (cases "\<exists>arg n. args = [arg] \<and> parse_u64 arg = Inr n")
    case True
    then obtain arg n where args: "args = [arg]" "parse_u64 arg = Inr n" by blast
    then have "validator lib [U64Arg] args = Inr ()"
      using argument_checks.accepted_number [OF checks, of arg "()"] by blast
    with args c show ?thesis
      by (simp add: repl_command_def Let_def with_arg_def handle_get_def ui_send_def sink_simps)
  next
    case False
    then have "\<exists>e. parse_u64 arg = Inl e" if "args = [arg]" for arg using that by (cases "parse_u64 arg") auto
    then obtain e where "validator lib [U64Arg] args = Inl e" using refused by blast
    with False show ?thesis by (auto simp: repl_command_def Let_def split: list.splits sum.splits)
  qed
next
  fix filename assume v: "validator lib [StringArg] [filename] = Inr ()"
  show "repl_command u lib fs ''put'' [filename] c = Some (Ok Done, c\<lparr>sent := sent c @ puts_of u fs filename\<rparr>, [])"
    using v c by (simp add: repl_command_def Let_def with_arg_def handle_put_def puts_of_def send_puts_open split: sum.splits)
  show "repl_command u lib fs ''schedule'' [filename] c = Some (Ok Done, c\<lparr>sent := sent c @ program_of u fs filename\<rparr>, [])"
    using v c by (simp add: repl_command_def Let_def with_arg_def handle_schedule_exec_def program_of_def
        ui_send_def sink_simps split: sum.splits)
qed

text \<open>An environment with one data file and one program file.\<close>

abbreviation example_ui :: "(string \<Rightarrow> string option) ui_env" where
  "example_ui \<equiv>
     \<lparr>ui_files = map_files, json_data = one_json ''d'' \<lparr>input_data = [(Vid 1, example_data), (Vid 2, example_data)]\<rparr>,
      json_program = one_json ''p'' test_program_simple,
      ui_hashing = \<lparr>bincode_instructions = (\<lambda>_. Inr []), blake2b512 = (\<lambda>_. replicate 64 0)\<rparr>,
      ui_rs = parity_library,
      ui_formats = \<lparr>dbg_vid = (\<lambda>_. []), dbg_sid = (\<lambda>_. []), dbg_peer = (\<lambda>_. []), dbg_data = (\<lambda>_. []),
        dbg_program = (\<lambda>_. []), dbg_storage = (\<lambda>_. []), chart = (\<lambda>_ _ _ _ _. []), stored_order = sorted_list_of_fmap\<rparr>\<rparr>"

text \<open>No command panics, whatever its name and arguments are, even when the behaviour is gone: the
  argument checks make every access to an argument safe.\<close>

lemma checked_arg_no_panic:
  assumes "argument_checks lib" and "\<And>arg. fst (f arg) \<noteq> Panic"
  shows "fst (case validator lib [t] args of Inl e \<Rightarrow> (Err e, c) | Inr _ \<Rightarrow> with_arg args 0 f c) \<noteq> Panic"
proof (cases "validator lib [t] args")
  case (Inr u)
  then obtain arg where "args = [arg]" using argument_checks.accepted_one [OF assms(1)] by blast
  with Inr assms(2) show ?thesis by (simp add: with_arg_def)
qed simp

lemma handle_expected_output_no_panic:
  assumes "\<And>bytes. length (blake2b512 (ui_hashing u) bytes) = 64"
  shows "snd (handle_expected_output u fs a b) \<noteq> Panic"
proof -
  have "Program_new (ui_hashing u) ins h \<noteq> Panic" for ins h
    using assms by (simp add: Program_new_def calculate_hash_def Let_def split: sum.splits)
  then show ?thesis by (auto simp: handle_expected_output_def split: sum.splits outcome.splits prod.splits)
qed

lemma repl_never_panics:
  assumes "argument_checks lib" and "\<And>bytes. length (blake2b512 (ui_hashing u) bytes) = 64"
  shows "repl_command u lib fs name args c \<noteq> Some (Panic, c', lines)"
proof -
  have number: "fst (case parse_u64 arg of Inl _ \<Rightarrow> (Err ''invalid number'', c) | Inr n \<Rightarrow> done_anyway (handle_get (Vid n) c)) \<noteq> Panic"
    for arg
    using done_anyway_no_panic by (auto split: sum.split simp del: parse_u64.simps)
  have "\<not> length args < 2" if "validator lib [StringArg, StringArg] args = Inr v" for v
    using argument_checks.accepted_length [OF assms(1) that] by simp
  moreover note checked = checked_arg_no_panic [OF assms(1)]
  ultimately show ?thesis
    using checked [of "\<lambda>a. done_anyway (handle_put u fs a c)"] checked [of "\<lambda>a. done_anyway (handle_schedule_exec u fs a c)"]
      checked [of "\<lambda>a. case parse_u64 a of Inl _ \<Rightarrow> (Err ''invalid number'', c) | Inr n \<Rightarrow> done_anyway (handle_get (Vid n) c)", OF number]
      handle_expected_output_no_panic [OF assms(2)] done_anyway_no_panic
    by (auto simp: repl_command_def Let_def case_prod_beta simp del: parse_u64.simps split: sum.splits if_splits)
qed

text \<open>The generated input files read back. After generating, the data file holds two data units of the
  length of the build, and the program file 25000 additions, which only use ids of that data file and
  which every shard can execute.\<close>

lemma generated_input_readable:
  assumes "file_store fl"
    and "\<And>t raw. json_to_string jd t = Inr raw \<Longrightarrow> json_from_str jd raw = Inr t"
    and "\<And>t raw. json_to_string jp t = Inr raw \<Longrightarrow> json_from_str jp raw = Inr t"
    and "test_write_input fl jd jp ft r1 r2 path_data path_program fs = (Inr (), fs')"
    and "path_data \<noteq> path_program"
  shows "\<exists>d p. read_input fl jd path_data fs' = Inr d \<and> read_input fl jp path_program fs' = Inr p
    \<and> map fst (input_data d) = [Vid 1, Vid 2] \<and> (\<forall>x \<in> set (input_data d). wf_data ft (snd x))
    \<and> length (input_instructions p) = 25000
    \<and> (\<forall>ins \<in> set (input_instructions p). linear_op (operation ins)
         \<and> set (args_as_list (operation ins)) \<union> {result ins} \<subseteq> fst ` set (input_data d))"
proof -
  obtain u fs1 where w: "write_input fl jd path_data (test_input_data ft r1 r2) fs = (Inr u, fs1)"
    "write_input fl jp path_program test_program_performance fs1 = (Inr (), fs')"
    using assms(4) by (auto simp: test_write_input_def split: sum.splits prod.splits)
  have "read_input fl jd path_data fs' = read_input fl jd path_data fs1"
    using file_store.write_read(2) [OF assms(1,3) w(2) assms(5)] .
  also have "\<dots> = Inr (test_input_data ft r1 r2)"
    using file_store.write_read(1) [OF assms(1,2) w(1)] .
  finally have d: "read_input fl jd path_data fs' = Inr (test_input_data ft r1 r2)" .
  have p: "read_input fl jp path_program fs' = Inr test_program_performance"
    using file_store.write_read(1) [OF assms(1,3) w(2)] .
  show ?thesis
    by (intro exI conjI, rule d, rule p)
      (auto simp: test_input_data_def test_program_performance_def Let_def wf_data_def instr_plus_def)
qed

end
