(* ===== verification/Swarm_Signatures.thy ===== *)
theory Swarm_Signatures
  imports Swarm_Types
begin

text \<open>
  Signatures of graph events, \<open>signatures.rs\<close>: the encoded public key of a genesis event and the
  signer that the graph calls. The cryptography of libp2p is a parameter; \<open>'pk\<close> and \<open>'kp\<close> are its
  public keys and key pairs. The theorems say that a signer accepts what the holder of the genesis
  key signed, and that the identity it is given plays no part.
\<close>

record ('pk, 'kp) ed25519_library =
  pk_decode :: "u8 list \<Rightarrow> (string + 'pk)"
  pk_encode :: "'pk \<Rightarrow> u8 list"
  pk_verify :: "'pk \<Rightarrow> u8 list \<Rightarrow> u8 list \<Rightarrow> bool"
  kp_sign :: "'kp \<Rightarrow> u8 list \<Rightarrow> u8 list"
  kp_public :: "'kp \<Rightarrow> 'pk"
  is_public_key :: "PeerId \<Rightarrow> 'pk \<Rightarrow> bool option"

datatype EncodedEd25519Pubkey = EncodedEd25519Pubkey (pubkey_bytes: "u8 list")

text \<open>The array has 32 bytes.\<close>

definition wf_pubkey :: "EncodedEd25519Pubkey \<Rightarrow> bool" where
  "wf_pubkey k \<longleftrightarrow> length (pubkey_bytes k) = 32"

definition into_ed25519_pubkey ::
  "('pk, 'kp) ed25519_library \<Rightarrow> EncodedEd25519Pubkey \<Rightarrow> (string, 'pk) outcome" where
  "into_ed25519_pubkey lib val =
     (case pk_decode lib (pubkey_bytes val) of Inl _ \<Rightarrow> Panic | Inr pk \<Rightarrow> Ok pk)"

definition from_ed25519_pubkey :: "('pk, 'kp) ed25519_library \<Rightarrow> 'pk \<Rightarrow> EncodedEd25519Pubkey" where
  "from_ed25519_pubkey lib value = EncodedEd25519Pubkey (pk_encode lib value)"

text \<open>The public keys of libp2p: of the variants other than \<open>Ed25519\<close> nothing is used.\<close>

datatype 'pk PublicKey = Ed25519 'pk | OtherPublicKey

definition into_public_key ::
  "('pk, 'kp) ed25519_library \<Rightarrow> EncodedEd25519Pubkey \<Rightarrow> (string, 'pk PublicKey) outcome" where
  "into_public_key lib val = bind_outcome (into_ed25519_pubkey lib val) (\<lambda>pk. Ok (Ed25519 pk))"

fun try_from_public_key ::
  "('pk, 'kp) ed25519_library \<Rightarrow> 'pk PublicKey \<Rightarrow> unit + EncodedEd25519Pubkey" where
  "try_from_public_key lib (Ed25519 key) = Inr (from_ed25519_pubkey lib key)"
| "try_from_public_key lib OtherPublicKey = Inl ()"

record GenesisPayload =
  pubkey :: EncodedEd25519Pubkey

record 'kp Ed25519Signer =
  signer_inner :: 'kp

definition Ed25519Signer_new :: "'kp \<Rightarrow> 'kp Ed25519Signer" where
  "Ed25519Signer_new keypair = \<lparr>signer_inner = keypair\<rparr>"

text \<open>A signature is kept as a hash of 64 bytes; another length makes the conversion panic.\<close>

definition signer_sign ::
  "('pk, 'kp) ed25519_library \<Rightarrow> 'kp Ed25519Signer \<Rightarrow> EventHash \<Rightarrow> (string, EventHash) outcome" where
  "signer_sign lib signer h =
     (let signature_bytes = kp_sign lib (signer_inner signer) (event_hash_array h) in
      if length signature_bytes = 64 then Ok (EventHash signature_bytes) else Panic)"

text \<open>What \<open>is_public_key\<close> says is computed and not used.\<close>

definition signer_verify ::
  "('pk, 'kp) ed25519_library \<Rightarrow> 'kp Ed25519Signer \<Rightarrow> EventHash \<Rightarrow> EventHash \<Rightarrow> PeerId \<Rightarrow> GenesisPayload
   \<Rightarrow> (string, bool) outcome" where
  "signer_verify lib signer h signature who genesis_payload =
     bind_outcome (into_ed25519_pubkey lib (pubkey genesis_payload))
       (\<lambda>public_key.
          let belongs = (case is_public_key lib who public_key of None \<Rightarrow> False | Some r \<Rightarrow> r) in
          Ok (pk_verify lib public_key (event_hash_array h) (event_hash_array signature)))"

subsection \<open>What the cryptography promises\<close>

locale ed25519 =
  fixes lib :: "('pk, 'kp) ed25519_library"
  assumes decode_encode: "pk_decode lib (pk_encode lib pk) = Inr pk"
    and encode_length: "length (pk_encode lib pk) = 32"
    and sign_length: "length (kp_sign lib kp m) = 64"
    and sign_verify: "pk_verify lib (kp_public lib kp) m (kp_sign lib kp m)"
begin

lemma into_from: "into_ed25519_pubkey lib (from_ed25519_pubkey lib pk) = Ok pk \<and> wf_pubkey (from_ed25519_pubkey lib pk)"
  by (simp add: into_ed25519_pubkey_def from_ed25519_pubkey_def decode_encode encode_length wf_pubkey_def)

lemma public_key_roundtrip:
  "into_public_key lib val = Ok pk \<Longrightarrow> wf_pubkey val \<Longrightarrow> \<exists>val'. try_from_public_key lib pk = Inr val'"
  by (cases "into_ed25519_pubkey lib val") (auto simp: into_public_key_def)

end

text \<open>A library with two keys and no secrecy that has the promised laws.\<close>

definition plain_library :: "(bool, bool) ed25519_library" where
  "plain_library =
     \<lparr>pk_decode = (\<lambda>bs. if length bs = 32 then Inr (hd bs = 1) else Inl ''length''),
      pk_encode = (\<lambda>pk. replicate 32 (if pk then 1 else 0)),
      pk_verify = (\<lambda>pk m s. s = replicate 64 (if pk then 1 else 0)),
      kp_sign = (\<lambda>kp m. replicate 64 (if kp then 1 else 0)),
      kp_public = (\<lambda>kp. kp),
      is_public_key = (\<lambda>who pk. Some (who = (if pk then 1 else 0)))\<rparr>"

interpretation plain: ed25519 plain_library
  by unfold_locales (simp_all add: plain_library_def)

subsection \<open>Properties\<close>

text \<open>C35: signing never panics, and every signer accepts the signature of an event under a genesis
  payload with the public key of the one who signed. It accepts it for whatever identity it is asked
  about, also one that the key does not belong to.\<close>

theorem signature_accepted_for_any_identity:
  assumes "ed25519 lib"
  shows "\<exists>signature. signer_sign lib signer h = Ok signature
    \<and> length (event_hash_array signature) = 64
    \<and> (\<forall>verifier who. signer_verify lib verifier h signature who
          \<lparr>pubkey = from_ed25519_pubkey lib (kp_public lib (signer_inner signer))\<rparr> = Ok True)"
  by (simp add: signer_sign_def signer_verify_def Let_def ed25519.sign_length [OF assms]
      ed25519.sign_verify [OF assms] ed25519.into_from [OF assms])

theorem signature_accepted_for_any_identity_witness:
  "\<exists>signature. signer_sign plain_library (Ed25519Signer_new True) (EventHash (replicate 64 9)) = Ok signature
     \<and> is_public_key plain_library 5 (kp_public plain_library True) = Some False
     \<and> signer_verify plain_library (Ed25519Signer_new False) (EventHash (replicate 64 9)) signature 5
          \<lparr>pubkey = from_ed25519_pubkey plain_library (kp_public plain_library True)\<rparr> = Ok True"
  using signature_accepted_for_any_identity [OF plain.ed25519_axioms, of "Ed25519Signer_new True" "EventHash (replicate 64 9)"]
  by (auto simp: Ed25519Signer_new_def plain_library_def)

end
