(* ===== verification/Swarm_Routing.thy ===== *)
theory Swarm_Routing
  imports Swarm_Behaviour
begin

text \<open>
  Where the events go that the main behaviour takes from its channels. A step is described by what it
  appends to which queue; the loops over channels share the contract \<open>event_loop\<close>, and \<open>event_route\<close> for
  each queue they feed, with an interpretation for every pair. The theorems say what reaches whom, in
  which order, and that nothing else does.
\<close>

subsection \<open>What steps add to the channels\<close>

text \<open>\<open>gains f q xs\<close>: whenever the step goes on, it has appended \<open>xs\<close> to the list \<open>q\<close> of the state.\<close>

definition gains :: "'ev bh_step \<Rightarrow> ('ev Behaviour \<Rightarrow> 'a list) \<Rightarrow> 'a list \<Rightarrow> bool" where
  "gains f q xs \<longleftrightarrow> (\<forall>b b'. f b = (None, b') \<longrightarrow> q b' = q b @ xs)"

definition keeps :: "'ev bh_step \<Rightarrow> ('ev Behaviour \<Rightarrow> 'a) \<Rightarrow> bool" where
  "keeps f q \<longleftrightarrow> (\<forall>b b'. f b = (None, b') \<longrightarrow> q b' = q b)"

named_theorems step_rules \<open>what steps keep and add\<close>

lemma must_send_None:
  "must_send get upd e b = (None, b') \<longleftrightarrow>
     rx_alive (get b) \<and> length (queue (get b)) < max_capacity (get b)
     \<and> b' = upd (\<lambda>_. (get b)\<lparr>queue := queue (get b) @ [e]\<rparr>) b"
  by (auto simp: must_send_def poll_send_def)

lemma must_send_Some:
  "must_send get upd e b = (Some r, b') \<Longrightarrow> r = GenerateError UnableToOperate \<and> b' = b
     \<and> (\<not> rx_alive (get b) \<or> max_capacity (get b) \<le> length (queue (get b)))"
  by (auto simp: must_send_def poll_send_def split: if_splits)

lemma and_then_None: "and_then f g b = (None, b') \<longleftrightarrow> (\<exists>b1. f b = (None, b1) \<and> g b1 = (None, b'))"
  by (auto simp: and_then_def split: prod.splits option.splits)

lemma gains_and_then [step_rules]:
  "gains f q xs \<Longrightarrow> gains g q ys \<Longrightarrow> gains (and_then f g) q (xs @ ys)"
  by (fastforce simp: gains_def and_then_None)

lemma keeps_and_then [step_rules]: "keeps f q \<Longrightarrow> keeps g q \<Longrightarrow> keeps (and_then f g) q"
  by (fastforce simp: keeps_def and_then_None)

lemma gains_Nil: "gains f q [] \<longleftrightarrow> keeps f q"
  by (simp add: gains_def keeps_def)

lemma gains_sends:
  "gains (to_consensus e) (\<lambda>b. queue (consensus_input b)) [e]"
  "gains (to_data_memory d) (\<lambda>b. queue (data_input b)) [d]"
  "gains (to_instruction_memory i) (\<lambda>b. queue (instruction_input b)) [i]"
  "gains (to_processor p) (\<lambda>b. queue (processor_input b)) [p]"
  "gains (to_user u) (\<lambda>b. queue (user_output b)) [u]"
  "gains (to_network n) (\<lambda>b. queue (rr_input b)) [n]"
  by (auto simp: gains_def must_send_None)

lemma hurry_gossip_None: "hurry_gossip env b = (None, b') \<Longrightarrow> \<exists>t. b' = b\<lparr>consensus_gossip_timer := t\<rparr>"
  by (auto simp: hurry_gossip_def Let_def split: outcome.splits)

lemma note_queue_size_None: "note_queue_size env b = (None, b') \<Longrightarrow> \<exists>m. b' = b\<lparr>metrics := m\<rparr>"
  by (auto simp: note_queue_size_def)

text \<open>The steps that only touch the timer and the metrics keep all channels and tables.\<close>

lemma housekeeping_keeps [step_rules]:
  assumes "\<And>b t. q (b\<lparr>consensus_gossip_timer := t\<rparr>) = q b" and "\<And>b m. q (b\<lparr>metrics := m\<rparr>) = q b"
  shows "keeps (hurry_gossip env) q" "keeps (note_queue_size env) q"
  using assms by (auto simp: keeps_def dest!: hurry_gossip_None note_queue_size_None)

lemma schedule_and_hurry_gains:
  "gains (schedule_and_hurry env tx) (\<lambda>b. queue (consensus_input b)) [ScheduleTx tx]"
  using gains_and_then [OF gains_sends(1) [of "ScheduleTx tx"], of "and_then (note_queue_size env) (hurry_gossip env)" "[]"]
  by (simp add: schedule_and_hurry_def gains_Nil step_rules)

lemma schedule_and_hurry_keeps:
  assumes "\<And>b t. q (b\<lparr>consensus_gossip_timer := t\<rparr>) = q b" and "\<And>b m. q (b\<lparr>metrics := m\<rparr>) = q b"
    and "\<And>b c. q (b\<lparr>consensus_input := c\<rparr>) = q b"
  shows "keeps (schedule_and_hurry env tx) q"
proof -
  have "keeps (to_consensus (ScheduleTx tx)) q"
    using assms(3) by (auto simp: keeps_def must_send_None)
  with assms(1,2) show ?thesis by (simp add: schedule_and_hurry_def step_rules)
qed

lemma respond_all_Cons:
  "respond_all r (w # ws) = and_then (to_network (Respond (fst w) (snd w) r)) (respond_all r ws)"
  by (cases w) (simp add: fun_eq_iff)

lemma respond_all_gains:
  "gains (respond_all r ws) (\<lambda>b. queue (rr_input b)) (map (\<lambda>(i, c). Respond i c r) ws)"
proof (induction ws)
  case (Cons w ws)
  from gains_and_then [OF gains_sends(6) Cons, of "Respond (fst w) (snd w) r"] show ?case
    by (simp add: respond_all_Cons case_prod_beta)
qed (simp add: gains_def)

lemma respond_all_keeps:
  assumes "\<And>b c. q (b\<lparr>rr_input := c\<rparr>) = q b"
  shows "keeps (respond_all r ws) q"
proof (induction ws)
  case (Cons w ws)
  have "keeps (to_network n) q" for n
    using assms by (auto simp: keeps_def must_send_None)
  with Cons show ?case by (simp add: respond_all_Cons step_rules)
qed (simp add: keeps_def)

text \<open>The loops: what each event adds, in the order of the events.\<close>

lemma drain_events_gains:
  assumes "\<And>e. gains (h e) q (r e)" and "\<And>es b. q (put es b) = q b"
  shows "gains (drain_events h put es) q (concat (map r es))"
proof (induction es)
  case (Cons e es)
  have "q b' = q b @ concat (map r (e # es))" if "drain_events h put (e # es) b = (None, b')" for b b'
  proof -
    from that obtain b1 where "h e (put es b) = (None, b1)" "drain_events h put es b1 = (None, b')"
      by (auto split: prod.splits option.splits)
    with assms Cons show ?thesis by (simp add: gains_def)
  qed
  then show ?case by (simp add: gains_def)
qed (simp add: gains_def)

lemma recv_loop_gains:
  assumes "\<And>e. gains (h e) q (r e)" and "\<And>f b. q (upd f b) = q b"
    and "recv_loop get upd h b = (None, b')"
  shows "q b' = q b @ concat (map r (queue (get b))) \<and> tx_alive (get b')"
proof -
  from assms(3) obtain b1 where
    "drain_events h (\<lambda>es. upd (\<lambda>ch. ch\<lparr>queue := es\<rparr>)) (queue (get b)) b = (None, b1)"
    "b1 = b'" "tx_alive (get b')"
    by (auto simp: recv_loop_def and_then_None split: if_splits)
  with drain_events_gains [of h q r "\<lambda>es. upd (\<lambda>ch. ch\<lparr>queue := es\<rparr>)" "queue (get b)", OF assms(1)] assms(2)
  show ?thesis by (simp add: gains_def)
qed

text \<open>The loop uses up its channel.\<close>

lemma recv_loop_empties:
  assumes "\<And>e. keeps (h e) (\<lambda>b. queue (get b))" and "\<And>es b. queue (get (upd (\<lambda>ch. ch\<lparr>queue := es\<rparr>) b)) = es"
    and "recv_loop get upd h b = (None, b')"
  shows "queue (get b') = []"
proof -
  have "drain_events h (\<lambda>es. upd (\<lambda>ch. ch\<lparr>queue := es\<rparr>)) es b = (None, b1) \<Longrightarrow> queue (get b) = es
      \<Longrightarrow> queue (get b1) = []" for es b1 b
  proof (induction es arbitrary: b)
    case (Cons e es)
    then obtain b2 where b2: "h e (upd (\<lambda>ch. ch\<lparr>queue := es\<rparr>) b) = (None, b2)"
      "drain_events h (\<lambda>es. upd (\<lambda>ch. ch\<lparr>queue := es\<rparr>)) es b2 = (None, b1)"
      by (auto split: prod.splits option.splits)
    with assms(1,2) have "queue (get b2) = es" by (simp add: keeps_def)
    with Cons.IH b2(2) show ?case by blast
  qed simp
  with assms(3) show ?thesis
    by (auto simp: recv_loop_def and_then_None split: if_splits)
qed

subsection \<open>The contract of the loops\<close>

text \<open>A loop that takes the events of one channel and whose handler appends to another list of the
  state what a routing function says.\<close>

locale event_loop =
  fixes get :: "'ev Behaviour \<Rightarrow> 'e chan"
    and upd :: "('e chan \<Rightarrow> 'e chan) \<Rightarrow> 'ev Behaviour \<Rightarrow> 'ev Behaviour"
    and h :: "'e \<Rightarrow> 'ev bh_step"
  assumes leaves_queue: "keeps (h e) (\<lambda>b. queue (get b))"
    and set_queue: "queue (get (upd (\<lambda>ch. ch\<lparr>queue := es\<rparr>) b)) = es"
begin

lemma uses_up: "recv_loop get upd h b = (None, b') \<Longrightarrow> queue (get b') = []"
  by (rule recv_loop_empties [OF leaves_queue set_queue])

end

locale event_route = event_loop get upd h
  for get :: "'ev Behaviour \<Rightarrow> 'e chan" and upd and h :: "'e \<Rightarrow> 'ev bh_step" +
  fixes q :: "'ev Behaviour \<Rightarrow> 'a list"
    and route :: "'e \<Rightarrow> 'a list"
  assumes handled: "gains (h e) q (route e)"
    and other_channel: "q (upd f b) = q b"
begin

lemma delivers: "recv_loop get upd h b = (None, b') \<Longrightarrow> q b' = q b @ concat (map route (queue (get b)))"
  using recv_loop_gains [of h q route upd get b b', OF handled other_channel] by blast

end

subsection \<open>Where the events go\<close>

fun dm_to_consensus :: "DmOutEvent \<Rightarrow> 'ev CsInEvent list" where
  "dm_to_consensus (AssignedStoreSuccess fid) = [ScheduleTx (Stored (fst fid) (snd fid))]"
| "dm_to_consensus (PreparedServiceResponse data_id) = [ScheduleTx (StorageRequest data_id)]"
| "dm_to_consensus _ = []"

fun dm_to_user :: "DmOutEvent \<Rightarrow> UiOutEvent list" where
  "dm_to_user (DistributionFull data_id) = [PutConfirmed data_id]"
| "dm_to_user (OutListDistributed xs) = [ListStoredResponse xs]"
| "dm_to_user (RecollectResponse response) = [GetResponse response]"
| "dm_to_user DmInitialized = [StorageInitialized]"
| "dm_to_user _ = []"

fun tx_to_data_memory :: "PeerId \<Rightarrow> Transaction \<Rightarrow> DmInEvent list" where
  "tx_to_data_memory from (StorageRequest data_id) = [StorageRequestTx data_id from]"
| "tx_to_data_memory from (Stored data_id shard_id) = [StoreConfirmed (data_id, shard_id) from]"
| "tx_to_data_memory from (InitializeStorage distr) = [Initialize distr]"
| "tx_to_data_memory from _ = []"

fun tx_to_instruction_memory :: "hash_library \<Rightarrow> PeerId \<Rightarrow> EventHash \<Rightarrow> Transaction \<Rightarrow> IsInEvent list" where
  "tx_to_instruction_memory lib from h (ExecuteTx ins) =
     (case Program_new lib ins (hash_from_event h) of Ok p \<Rightarrow> [FinalizedProgram p] | _ \<Rightarrow> [])"
| "tx_to_instruction_memory lib from h (Executed program_id) = [ExecutedProgram from program_id]"
| "tx_to_instruction_memory lib from h _ = []"

fun cs_to_data_memory :: "'ev CsOutEvent \<Rightarrow> DmInEvent list" where
  "cs_to_data_memory (RecognizedTransaction from h tx) = tx_to_data_memory from tx"
| "cs_to_data_memory _ = []"

fun cs_to_instruction_memory :: "hash_library \<Rightarrow> 'ev CsOutEvent \<Rightarrow> IsInEvent list" where
  "cs_to_instruction_memory lib (RecognizedTransaction from h tx) = tx_to_instruction_memory lib from h tx"
| "cs_to_instruction_memory lib _ = []"

fun is_to_processor :: "IsOutEvent \<Rightarrow> ProcInEvent list" where
  "is_to_processor (NextProgram program) = [Execute program]"
| "is_to_processor _ = []"

fun is_to_user :: "IsOutEvent \<Rightarrow> UiOutEvent list" where
  "is_to_user (IsFinishedExecution program_id) = [ProgramExecuted program_id]"
| "is_to_user _ = []"

fun is_to_data_memory :: "IsOutEvent \<Rightarrow> DmInEvent list" where
  "is_to_data_memory (IsPeerShardsActualized program_id peer ids) = [PeerShardsActualized peer ids]"
| "is_to_data_memory _ = []"

definition waiting :: "Request \<Rightarrow> 'ev Behaviour \<Rightarrow> (RequestId \<times> ResponseChannel) list" where
  "waiting request b = (case fmlookup (processed_requests b) request of None \<Rightarrow> [] | Some ws \<Rightarrow> ws)"

fun incoming :: "Request \<Rightarrow> RrOutEvent \<Rightarrow> (RequestId \<times> ResponseChannel) list" where
  "incoming request (IncomingRequest request_id request' channel) =
     (if request' = request then [(request_id, channel)] else [])"
| "incoming request _ = []"

lemma must_send_keeps:
  assumes "\<And>f b. q (upd f b) = q b"
  shows "keeps (must_send get upd e) q"
  using assms by (simp add: keeps_def must_send_None)

lemma answer_request_keeps:
  assumes "\<And>b c. q (b\<lparr>rr_input := c\<rparr>) = q b" and "\<And>b m. q (b\<lparr>processed_requests := m\<rparr>) = q b"
  shows "keeps (answer_request request response) q"
  using respond_all_keeps [of q, OF assms(1)] assms(2)
  by (simp add: keeps_def answer_request_def Let_def)

lemma keeps_gains: "keeps f q \<Longrightarrow> gains f q []"
  by (simp add: gains_Nil)

lemma stays_keeps: "keeps (\<lambda>b. (None, b)) q"
  by (simp add: keeps_def)

lemmas send_rules = gains_sends must_send_keeps schedule_and_hurry_gains schedule_and_hurry_keeps
  answer_request_keeps stays_keeps keeps_gains

lemma on_data_memory_event_eq:
  "on_data_memory_event env (OutServeShardRequest fid location) = to_network (MakeRequest (ServeShard fid) location)"
  "on_data_memory_event env (OutServeShardResponse fid shard) = answer_request (ServeShard fid) (ServeShardResponse shard)"
  "on_data_memory_event env (AssignedStoreSuccess fid) = schedule_and_hurry env (Stored (fst fid) (snd fid))"
  "on_data_memory_event env (OutAssignedResponse fid shard) = answer_request (GetShard fid) (GetShardResponse shard)"
  "on_data_memory_event env (DistributionSufficient data_id) = (\<lambda>b. (None, b))"
  "on_data_memory_event env (DistributionFull data_id) = to_user (PutConfirmed data_id)"
  "on_data_memory_event env (OutListDistributed xs) = to_user (ListStoredResponse xs)"
  "on_data_memory_event env (PreparedServiceResponse data_id) = schedule_and_hurry env (StorageRequest data_id)"
  "on_data_memory_event env (OutAssignedRequest fid location) = to_network (MakeRequest (GetShard fid) location)"
  "on_data_memory_event env (RecollectResponse response) = to_user (GetResponse response)"
  "on_data_memory_event env DmInitialized = to_user StorageInitialized"
  by (simp_all add: fun_eq_iff)

lemma on_data_memory_event_keeps:
  assumes "\<And>b t. q (b\<lparr>consensus_gossip_timer := t\<rparr>) = q b" "\<And>b m. q (b\<lparr>metrics := m\<rparr>) = q b"
    "\<And>b c. q (b\<lparr>rr_input := c\<rparr>) = q b" "\<And>b m. q (b\<lparr>processed_requests := m\<rparr>) = q b"
    "\<And>b f. q (consensus_input_update f b) = q b" "\<And>b f. q (user_output_update f b) = q b"
    "\<And>b f. q (rr_input_update f b) = q b"
  shows "keeps (on_data_memory_event env e) q"
  using assms by (cases e) (simp_all add: on_data_memory_event_eq send_rules)

interpretation dm_loop: event_loop data_output data_output_update "on_data_memory_event env" for env
  by unfold_locales (simp_all add: on_data_memory_event_keeps)

interpretation dm_consensus: event_route data_output data_output_update "on_data_memory_event env"
    "\<lambda>b. queue (consensus_input b)" dm_to_consensus for env
proof unfold_locales
  show "gains (on_data_memory_event env e) (\<lambda>b. queue (consensus_input b)) (dm_to_consensus e)" for e
    by (cases e) (simp_all add: on_data_memory_event_eq send_rules)
qed simp

interpretation dm_user: event_route data_output data_output_update "on_data_memory_event env"
    "\<lambda>b. queue (user_output b)" dm_to_user for env
proof unfold_locales
  show "gains (on_data_memory_event env e) (\<lambda>b. queue (user_output b)) (dm_to_user e)" for e
    by (cases e) (simp_all add: on_data_memory_event_eq send_rules)
qed simp

lemmas handle_tx_eq = handle_storage_request_tx_def handle_stored_ts_def handle_executed_tx_def
  handle_initialize_storage_tx_def

lemma handle_execute_tx_rules:
  "gains (handle_execute_tx env h ins) (\<lambda>b. queue (instruction_input b))
     (tx_to_instruction_memory (hashing env) peer h (ExecuteTx ins))"
  "(\<And>b f. q (instruction_input_update f b) = q b) \<Longrightarrow> keeps (handle_execute_tx env h ins) q"
  by (auto simp: gains_def keeps_def handle_execute_tx_def must_send_None split: outcome.splits)

lemma handle_tx_gains_data:
  "gains (handle_tx env from tx h) (\<lambda>b. queue (data_input b)) (tx_to_data_memory from tx)"
  by (cases tx) (simp_all add: handle_tx_eq send_rules handle_execute_tx_rules(2))

lemma handle_tx_gains_instructions:
  "gains (handle_tx env from tx h) (\<lambda>b. queue (instruction_input b)) (tx_to_instruction_memory (hashing env) from h tx)"
proof (cases tx)
  case (ExecuteTx ins)
  then show ?thesis using handle_execute_tx_rules(1) by (simp del: tx_to_instruction_memory.simps)
qed (simp_all add: handle_tx_eq send_rules)

lemma handle_tx_keeps:
  assumes "\<And>b f. q (instruction_input_update f b) = q b" and "\<And>b f. q (data_input_update f b) = q b"
  shows "keeps (handle_tx env from tx h) q"
  using assms by (cases tx) (simp_all add: handle_tx_eq send_rules handle_execute_tx_rules(2))

lemmas handle_tx_rules = handle_tx_gains_data handle_tx_gains_instructions handle_tx_keeps

lemma log_recognized_keeps [step_rules]: "keeps (log_recognized env tx) q"
  by (auto simp: keeps_def log_recognized_def split: if_splits outcome.splits)

lemma gains_after_keeps: "keeps f q \<Longrightarrow> gains g q xs \<Longrightarrow> gains (and_then f g) q xs"
  using gains_and_then [of f q "[]" g xs] by (simp add: gains_Nil)

lemma on_consensus_event_eq:
  "on_consensus_event env (RecognizedTransaction from h tx)
     = and_then (log_recognized env tx) (and_then (hurry_gossip env) (handle_tx env from tx h))"
  "on_consensus_event env (FinalizedTransaction from h tx) = (\<lambda>b. (None, b))"
  by (simp_all add: fun_eq_iff)

lemma sync_response_rules:
  "gains (on_consensus_event env (GenerateSyncResponse to jobs)) q xs"
  "keeps (on_consensus_event env (GenerateSyncResponse to jobs)) q'"
  by (simp_all add: gains_def keeps_def)

lemma known_peers_rules:
  "(\<And>b t. q (b\<lparr>consensus_gossip_timer := t\<rparr>) = q b) \<Longrightarrow> (\<And>b m. q (b\<lparr>metrics := m\<rparr>) = q b)
     \<Longrightarrow> (\<And>b c. q (b\<lparr>consensus_input := c\<rparr>) = q b) \<Longrightarrow> keeps (on_consensus_event env (KnownPeersResponse peers)) q"
  using schedule_and_hurry_keeps [of q env] by (simp add: keeps_def)

lemma on_consensus_event_keeps:
  assumes "\<And>b t. q (b\<lparr>consensus_gossip_timer := t\<rparr>) = q b" "\<And>b m. q (b\<lparr>metrics := m\<rparr>) = q b"
    "\<And>b c. q (b\<lparr>consensus_input := c\<rparr>) = q b" "\<And>b f. q (instruction_input_update f b) = q b"
    "\<And>b f. q (data_input_update f b) = q b"
  shows "keeps (on_consensus_event env e) q"
  using assms
  by (cases e)
    (simp_all only: on_consensus_event_eq known_peers_rules sync_response_rules,
     simp_all add: step_rules handle_tx_rules send_rules)

interpretation cs_data: event_route consensus_output consensus_output_update "on_consensus_event env"
    "\<lambda>b. queue (data_input b)" cs_to_data_memory for env
proof unfold_locales
  show "gains (on_consensus_event env e) (\<lambda>b. queue (data_input b)) (cs_to_data_memory e)" for e
    by (cases e) (simp_all only: on_consensus_event_eq sync_response_rules,
      simp_all add: gains_after_keeps step_rules handle_tx_rules known_peers_rules send_rules
      del: on_consensus_event.simps)
qed (simp_all add: on_consensus_event_keeps)

interpretation cs_instructions: event_route consensus_output consensus_output_update "on_consensus_event env"
    "\<lambda>b. queue (instruction_input b)" "cs_to_instruction_memory (hashing env)" for env
proof unfold_locales
  show "gains (on_consensus_event env e) (\<lambda>b. queue (instruction_input b)) (cs_to_instruction_memory (hashing env) e)" for e
    by (cases e) (simp_all only: on_consensus_event_eq sync_response_rules,
      simp_all add: gains_after_keeps step_rules handle_tx_rules known_peers_rules send_rules
      del: on_consensus_event.simps)
qed (simp_all add: on_consensus_event_keeps)

lemma on_instruction_event_eq:
  "on_instruction_event (NextProgram program) = to_processor (Execute program)"
  "on_instruction_event (IsFinishedExecution program_id) = to_user (ProgramExecuted program_id)"
  "on_instruction_event (IsPeerShardsActualized program_id peer ids) = to_data_memory (PeerShardsActualized peer ids)"
  by (simp_all add: fun_eq_iff)

lemma on_instruction_event_keeps:
  assumes "\<And>b f. q (processor_input_update f b) = q b" "\<And>b f. q (user_output_update f b) = q b"
    "\<And>b f. q (data_input_update f b) = q b"
  shows "keeps (on_instruction_event e) q"
  using assms by (cases e) (simp_all add: on_instruction_event_eq send_rules)

interpretation is_processor: event_route instruction_output instruction_output_update on_instruction_event
    "\<lambda>b. queue (processor_input b)" is_to_processor
proof unfold_locales
  show "gains (on_instruction_event e) (\<lambda>b. queue (processor_input b)) (is_to_processor e)" for e
    by (cases e) (simp_all add: on_instruction_event_eq send_rules)
qed (simp_all add: on_instruction_event_keeps)

interpretation is_user: event_route instruction_output instruction_output_update on_instruction_event
    "\<lambda>b. queue (user_output b)" is_to_user
proof unfold_locales
  show "gains (on_instruction_event e) (\<lambda>b. queue (user_output b)) (is_to_user e)" for e
    by (cases e) (simp_all add: on_instruction_event_eq send_rules)
qed (simp_all add: on_instruction_event_keeps)

interpretation is_data: event_route instruction_output instruction_output_update on_instruction_event
    "\<lambda>b. queue (data_input b)" is_to_data_memory
proof unfold_locales
  show "gains (on_instruction_event e) (\<lambda>b. queue (data_input b)) (is_to_data_memory e)" for e
    by (cases e) (simp_all add: on_instruction_event_eq send_rules)
qed (simp_all add: on_instruction_event_keeps)

interpretation rr_waiting: event_route rr_output rr_output_update on_rr_event
    "waiting request" "incoming request" for request
proof unfold_locales
  show "gains (on_rr_event e) (waiting request) (incoming request e)" for e
    by (cases e)
      (auto simp: gains_def and_then_None must_send_None waiting_def split: option.splits Request.splits
        ProtoResponse.splits)
  show "keeps (on_rr_event e) (\<lambda>b. queue (rr_output b))" for e
    by (cases e)
      (auto simp: keeps_def and_then_None must_send_None split: option.splits Request.splits
        ProtoResponse.splits)
qed (simp_all add: waiting_def)

lemma answer_request_waiting:
  assumes "answer_request request response b = (None, b')"
  shows "queue (rr_input b') = queue (rr_input b) @ map (\<lambda>(i, c). Respond i c response) (waiting request b)
    \<and> waiting request' b' = (if request' = request then [] else waiting request' b)"
proof -
  let ?b = "b\<lparr>processed_requests := fmdrop request (processed_requests b)\<rparr>"
  have r: "respond_all response (waiting request b) ?b = (None, b')"
    using assms by (simp add: answer_request_def waiting_def)
  have "keeps (respond_all response (waiting request b)) (waiting request')"
    by (rule respond_all_keeps) (simp add: waiting_def)
  with r have "waiting request' b' = waiting request' ?b"
    unfolding keeps_def by blast
  also have "\<dots> = (if request' = request then [] else waiting request' b)"
    by (simp add: waiting_def)
  finally show ?thesis using r respond_all_gains [of response "waiting request b"]
    by (fastforce simp: gains_def)
qed

subsection \<open>Connections and gossip messages\<close>

text \<open>The open connections per peer as libp2p counts them, and event sequences that report these
  counts correctly.\<close>

fun connections :: "swarm_event list \<Rightarrow> PeerId \<Rightarrow> nat" where
  "connections [] p = 0"
| "connections (ConnectionEstablished p' _ # evs) p = connections evs p + (if p' = p then 1 else 0)"
| "connections (ConnectionClosed p' _ # evs) p = connections evs p - (if p' = p then 1 else 0)"
| "connections (OtherSwarmEvent # evs) p = connections evs p"

text \<open>The latest event is the head of the list.\<close>

fun counts_correct :: "swarm_event list \<Rightarrow> bool" where
  "counts_correct [] \<longleftrightarrow> True"
| "counts_correct (ConnectionEstablished p n # evs) \<longleftrightarrow> n = connections evs p \<and> counts_correct evs"
| "counts_correct (ConnectionClosed p n # evs) \<longleftrightarrow> Suc n = connections evs p \<and> counts_correct evs"
| "counts_correct (OtherSwarmEvent # evs) \<longleftrightarrow> counts_correct evs"

lemma connected_peers_foldr:
  "counts_correct evs \<Longrightarrow> connected_peers b = {||}
     \<Longrightarrow> p |\<in>| connected_peers (foldr on_swarm_event evs b) \<longleftrightarrow> 0 < connections evs p"
  by (induction evs rule: counts_correct.induct) (auto split: if_splits)

text \<open>What a response forwards depends on the requests noted before it.\<close>

lemma on_rr_event_None:
  assumes "on_rr_event e b = (None, b')"
  obtains (noted) request_id request where "e = AssignedRequestId request_id request"
    "pending_response b' = fmupd request_id request (pending_response b)" "data_input b' = data_input b"
  | (received) request_id response where "e = RrResponse request_id response"
      "pending_response b' = pending_response b"
      "queue (data_input b') = queue (data_input b) @
         (case (fmlookup (pending_response b) request_id, response) of
            (Some (GetShard fid), GetShardResponse shard) \<Rightarrow> [InAssignedResponse fid shard]
          | (Some (ServeShard fid), ServeShardResponse shard) \<Rightarrow> [InServeShardResponse fid shard]
          | _ \<Rightarrow> [])"
  | (asked) request_id request channel where "e = IncomingRequest request_id request channel"
      "pending_response b' = pending_response b"
      "queue (data_input b') = queue (data_input b) @
         [case request of GetShard fid \<Rightarrow> InAssignedRequest fid | ServeShard fid \<Rightarrow> InServeShardRequest fid]"
proof (cases e)
  case (AssignedRequestId request_id request)
  with assms noted show thesis by auto
next
  case (RrResponse request_id response)
  show thesis
    by (rule received [OF RrResponse])
      (use assms in \<open>auto simp: RrResponse must_send_None split: option.splits Request.splits ProtoResponse.splits\<close>)
next
  case (IncomingRequest request_id request channel)
  show thesis
    by (rule asked [OF IncomingRequest]) (use assms in \<open>auto simp: IncomingRequest and_then_None must_send_None\<close>)
qed

text \<open>The request that an event of the network answers, as the data memory gets it, and the answer.\<close>

fun shard_answer :: "DmInEvent \<Rightarrow> (Request \<times> ProtoResponse) option" where
  "shard_answer (InAssignedResponse fid shard) = Some (GetShard fid, GetShardResponse shard)"
| "shard_answer (InServeShardResponse fid shard) = Some (ServeShard fid, ServeShardResponse shard)"
| "shard_answer _ = None"

lemma drain_events_appends:
  "drain_events on_rr_event (\<lambda>es. rr_output_update (\<lambda>ch. ch\<lparr>queue := es\<rparr>)) es b = (None, b2)
     \<Longrightarrow> \<exists>new. queue (data_input b2) = queue (data_input b) @ new"
proof (induction es arbitrary: b)
  case (Cons e es)
  obtain b1 where step: "on_rr_event e (rr_output_update (\<lambda>ch. ch\<lparr>queue := es\<rparr>) b) = (None, b1)"
      and rest: "drain_events on_rr_event (\<lambda>es. rr_output_update (\<lambda>ch. ch\<lparr>queue := es\<rparr>)) es b1 = (None, b2)"
    using Cons.prems by (auto split: prod.splits option.splits)
  from step obtain now where "queue (data_input b1) = queue (data_input b) @ now"
    by (cases rule: on_rr_event_None) auto
  with Cons.IH [OF rest] show ?case by auto
qed simp

lemma responses_solicited:
  assumes "drain_events on_rr_event (\<lambda>es. rr_output_update (\<lambda>ch. ch\<lparr>queue := es\<rparr>)) es b = (None, b')"
    and "queue (data_input b') = queue (data_input b) @ new" and "d \<in> set new" and "shard_answer d = Some (request, response)"
  shows "\<exists>xs ys i. es = xs @ RrResponse i response # ys
    \<and> (fmlookup (pending_response b) i = Some request \<or> AssignedRequestId i request \<in> set xs)"
  using assms(1-3)
proof (induction es arbitrary: b new)
  case (Cons e es)
  let ?b = "rr_output_update (\<lambda>ch. ch\<lparr>queue := es\<rparr>) b"
  obtain b1 where step: "on_rr_event e ?b = (None, b1)"
      and rest: "drain_events on_rr_event (\<lambda>es. rr_output_update (\<lambda>ch. ch\<lparr>queue := es\<rparr>)) es b1 = (None, b')"
    using Cons.prems(1) by (auto split: prod.splits option.splits)
  obtain now where now: "queue (data_input b1) = queue (data_input b) @ now"
    using step by (cases rule: on_rr_event_None) auto
  obtain later where later: "queue (data_input b') = queue (data_input b1) @ later"
    using drain_events_appends [OF rest] by blast
  show ?case
  proof (cases "d \<in> set now")
    case True
    with step now assms(4) obtain i where "e = RrResponse i response" "fmlookup (pending_response b) i = Some request"
      by (cases rule: on_rr_event_None) (auto split: option.splits Request.splits ProtoResponse.splits)
    then show ?thesis by (intro exI [of _ "[]"] exI [of _ es] exI [of _ i]) auto
  next
    case False
    with Cons.prems(2,3) now later have "d \<in> set later" by auto
    with Cons.IH [OF rest later] obtain xs ys i where xs: "es = xs @ RrResponse i response # ys"
      "fmlookup (pending_response b1) i = Some request \<or> AssignedRequestId i request \<in> set xs" by blast
    from step have "fmlookup (pending_response b1) i = Some request
        \<Longrightarrow> fmlookup (pending_response b) i = Some request \<or> e = AssignedRequestId i request"
      by (cases rule: on_rr_event_None) (auto split: if_splits)
    with xs show ?thesis by (intro exI [of _ "e # xs"] exI [of _ ys] exI [of _ i]) auto
  qed
qed simp

subsection \<open>Requests and answers\<close>

text \<open>The request that an event asks the data memory to answer, and the answers among its events.\<close>

fun asks_for :: "DmInEvent \<Rightarrow> Request list" where
  "asks_for (InAssignedRequest fid) = [GetShard fid]"
| "asks_for (InServeShardRequest fid) = [ServeShard fid]"
| "asks_for _ = []"

fun answers_of :: "DmOutEvent \<Rightarrow> (Request \<times> ProtoResponse) list" where
  "answers_of (OutAssignedResponse fid shard) = [(GetShard fid, GetShardResponse shard)]"
| "answers_of (OutServeShardResponse fid shard) = [(ServeShard fid, ServeShardResponse shard)]"
| "answers_of _ = []"

definition answers_in :: "DmOutEvent list \<Rightarrow> (Request \<times> ProtoResponse) list" where
  "answers_in ds = concat (map answers_of ds)"

text \<open>What the network is given for events of the data memory: own requests, and each first answer to a request, for all
  that wait for it.\<close>

fun passed_to_network :: "(Request \<Rightarrow> (RequestId \<times> ResponseChannel) list) \<Rightarrow> DmOutEvent list \<Rightarrow> RrInEvent list" where
  "passed_to_network w [] = []"
| "passed_to_network w (OutServeShardRequest fid location # ds) =
     MakeRequest (ServeShard fid) location # passed_to_network w ds"
| "passed_to_network w (OutAssignedRequest fid location # ds) =
     MakeRequest (GetShard fid) location # passed_to_network w ds"
| "passed_to_network w (d # ds) = (case answers_of d of
       (request, response) # _ \<Rightarrow> map (\<lambda>(i, c). Respond i c response) (w request) @ passed_to_network (w(request := [])) ds
     | [] \<Rightarrow> passed_to_network w ds)"

text \<open>The data memory answers each question once, in their order.\<close>

lemma answers_in_simps [simp]:
  "answers_in [] = []" "answers_in (d # ds) = answers_of d @ answers_in ds" "answers_in (ds @ ds') = answers_in ds @ answers_in ds'"
  by (simp_all add: answers_in_def)

lemma send_or_return_answers:
  "send_or_return d (dm, c) = (Dm_Continue, dm', c') \<Longrightarrow> answers_in (sent c') = answers_in (sent c) @ answers_of d"
  by (auto dest: sink_send_sent split: prod.splits if_splits)

lemma handle_assigned_response_answers:
  "handled (handle_assigned_response env fid shard (dm, c)) = (Dm_Continue, dm', c') \<Longrightarrow> answers_in (sent c') = answers_in (sent c)"
  by (cases "(env, fid, shard, (dm, c))" rule: handle_assigned_response.cases)
    (auto simp: Let_def dest: sink_send_sent split: option.splits outcome.splits prod.splits if_splits)

lemma handle_serve_shard_response_answers:
  "handled (handle_serve_shard_response fid shard (dm, c)) = (Dm_Continue, dm', c') \<Longrightarrow> answers_in (sent c') = answers_in (sent c)"
  by (cases shard) (auto simp: Let_def dest: sink_send_sent split: prod.splits if_splits)

lemma request_shards_answers:
  "request_shards env v ls (dm, c) = (Dm_Continue, dm', c') \<Longrightarrow> answers_in (sent c') = answers_in (sent c)"
proof (induction env v ls "(dm, c)" arbitrary: dm c rule: request_shards.induct)
  case (2 env v sid owner rest dm c)
  obtain ctl dm1 c1 where step: "(if owner = local_id dm
      then handled (handle_assigned_response env (v, sid) (get_shard (v, sid) dm) (dm, c))
      else send_or_return (OutAssignedRequest (v, sid) owner) (dm, c)) = (ctl, dm1, c1)" (is "?s = _") by (cases ?s) auto
  with 2 have "ctl = Dm_Continue" "request_shards env v rest (dm1, c1) = (Dm_Continue, dm', c')"
    by (auto split: dm_ctl.splits)
  with 2 step handle_assigned_response_answers send_or_return_answers show ?case
    by (fastforce simp del: handled.simps send_or_return.simps split: if_splits)
qed simp

lemma dm_event_answers_asked:
  "dm_event env e (dm, c) = (Dm_Continue, dm', c') \<Longrightarrow> map fst (answers_in (sent c')) = map fst (answers_in (sent c)) @ asks_for e"
  by (cases e)
    (auto simp: Let_def dest!: send_or_return_answers handle_assigned_response_answers handle_serve_shard_response_answers
      request_shards_answers dest: sink_send_sent simp del: send_or_return.simps
      split: option.splits outcome.splits prod.splits if_splits)

lemma dm_run_answers:
  "dm_run env (map (DmInput \<circ> Some) es) ((dm, c), as) = (Dm_Continue, (dm', c'), as')
     \<Longrightarrow> map fst (answers_in (sent c')) = map fst (answers_in (sent c)) @ concat (map asks_for es)"
proof (induction es arbitrary: dm c)
  case (Cons e es)
  obtain ctl dm1 c1 where e: "dm_event env e (dm, c) = (ctl, dm1, c1)" by (metis surj_pair)
  with Cons.prems have "ctl = Dm_Continue" by (cases ctl) simp_all
  with e Cons dm_event_answers_asked [of env e dm c dm1 c1] show ?case by simp
qed simp

text \<open>Every incoming request becomes a question.\<close>

lemma incoming_asked:
  "gains (on_rr_event e) (\<lambda>b :: 'ev Behaviour. concat (map asks_for (queue (data_input b))))
     (case e of IncomingRequest i request c \<Rightarrow> [request] | _ \<Rightarrow> [])"
proof -
  have "concat (map asks_for (queue (data_input b'))) = concat (map asks_for (queue (data_input b)))
      @ (case e of IncomingRequest i request c \<Rightarrow> [request] | _ \<Rightarrow> [])" if "on_rr_event e b = (None, b')" for b b' :: "'ev Behaviour"
    using that by (cases rule: on_rr_event_None)
      (auto split: option.splits Request.splits ProtoResponse.splits)
  then show ?thesis by (simp add: gains_def)
qed

interpretation rr_asked: event_route rr_output rr_output_update on_rr_event "\<lambda>b. concat (map asks_for (queue (data_input b)))"
    "\<lambda>e. case e of IncomingRequest i request c \<Rightarrow> [request] | _ \<Rightarrow> []"
  by unfold_locales (simp_all add: incoming_asked)

text \<open>What a poll passes to the network for the events of the data memory.\<close>

lemma on_data_memory_event_network:
  assumes "on_data_memory_event env d b = (None, b')"
  shows "queue (rr_input b') = queue (rr_input b) @ passed_to_network (\<lambda>r. waiting r b) [d]
    \<and> (\<lambda>r. waiting r b') = (\<lambda>r. if r \<in> set (map fst (answers_of d)) then [] else waiting r b)"
proof -
  have keeps: "q b' = q b" if "keeps (on_data_memory_event env d) q" for q :: "'a Behaviour \<Rightarrow> 'x"
    using that assms by (simp add: keeps_def)
  show ?thesis
  proof (cases d)
    case (OutServeShardResponse fid shard)
    with assms answer_request_waiting show ?thesis by (fastforce simp: on_data_memory_event_eq)
  next
    case (OutAssignedResponse fid shard)
    with assms answer_request_waiting show ?thesis by (fastforce simp: on_data_memory_event_eq)
  next
    case (OutServeShardRequest fid location)
    with assms show ?thesis by (auto simp: on_data_memory_event_eq must_send_None waiting_def)
  next
    case (OutAssignedRequest fid location)
    with assms show ?thesis by (auto simp: on_data_memory_event_eq must_send_None waiting_def)
  qed (use keeps [of "\<lambda>b. queue (rr_input b)"] keeps [of "waiting r" for r] in
      \<open>auto simp: on_data_memory_event_eq send_rules waiting_def\<close>)
qed

lemma drain_data_memory_network:
  assumes "drain_events (on_data_memory_event env) put ds b = (None, b')"
    and "\<And>ds b. rr_input (put ds b) = rr_input b" and "\<And>ds b. processed_requests (put ds b) = processed_requests b"
  shows "queue (rr_input b') = queue (rr_input b) @ passed_to_network (\<lambda>r. waiting r b) ds
    \<and> (\<lambda>r. waiting r b') = (\<lambda>r. if r \<in> fst ` set (answers_in ds) then [] else waiting r b)"
  using assms(1)
proof (induction ds arbitrary: b)
  case (Cons d ds)
  obtain b1 where d: "on_data_memory_event env d (put ds b) = (None, b1)"
      and ds: "drain_events (on_data_memory_event env) put ds b1 = (None, b')"
    using Cons.prems by (auto split: prod.splits option.splits)
  have w: "waiting r (put ds b) = waiting r b" for r by (simp add: waiting_def assms(3))
  show ?case using on_data_memory_event_network [OF d, unfolded w] Cons.IH [OF ds]
    by (cases d) (auto simp: assms(2) fun_eq_iff fun_upd_def)
qed simp

lemma data_memory_section_network:
  assumes "data_memory_section env b = (None, b')"
  shows "queue (rr_input b') = queue (rr_input b) @ passed_to_network (\<lambda>r. waiting r b) (queue (data_output b))"
    and "waiting r b' = (if r \<in> fst ` set (answers_in (queue (data_output b))) then [] else waiting r b)"
proof -
  have "drain_events (on_data_memory_event env) (\<lambda>es. data_output_update (\<lambda>ch. ch\<lparr>queue := es\<rparr>)) (queue (data_output b)) b = (None, b')"
    using assms unfolding data_memory_section_def recv_loop_def by (auto simp: and_then_None split: if_splits)
  note drained = drain_data_memory_network [OF this]
  from drained show "queue (rr_input b') = queue (rr_input b) @ passed_to_network (\<lambda>r. waiting r b) (queue (data_output b))" by simp
  from drained have "(\<lambda>r. waiting r b') = (\<lambda>r. if r \<in> fst ` set (answers_in (queue (data_output b))) then [] else waiting r b)" by simp
  from fun_cong [OF this, of r] show "waiting r b' = (if r \<in> fst ` set (answers_in (queue (data_output b))) then [] else waiting r b)" .
qed

lemma rr_section_sends_nothing:
  assumes "rr_section b = (None, b')"
  shows "queue (rr_input b') = queue (rr_input b)"
proof -
  have "gains (on_rr_event r) (\<lambda>b :: 'a Behaviour. queue (rr_input b)) []" for r
    by (cases r) (auto simp: gains_def and_then_None must_send_None split: option.splits Request.splits ProtoResponse.splits)
  from recv_loop_gains [OF this _ assms [unfolded rr_section_def]] show ?thesis by simp
qed

lemma passed_to_network_answers:
  "(r, x) \<in> set (answers_in ds) \<Longrightarrow> (i, c) \<in> set (w r) \<Longrightarrow> \<exists>x. (r, x) \<in> set (answers_in ds) \<and> Respond i c x \<in> set (passed_to_network w ds)"
proof (induction ds arbitrary: w)
  case (Cons d ds)
  show ?case
  proof (cases "r \<in> fst ` set (answers_of d)")
    case True
    with Cons.prems(2) show ?thesis by (cases d) force+
  next
    case False
    with Cons.prems Cons.IH [of "case answers_of d of (request, _) # _ \<Rightarrow> w(request := []) | [] \<Rightarrow> w"] show ?thesis by (cases d) force+
  qed
qed simp

lemma oneshot_gains:
  "gains (on_oneshot env m) (\<lambda>b. queue (consensus_input b))
     [case m of (peer, GossipGraph jobs) \<Rightarrow> ApplySync peer jobs]"
proof -
  obtain peer jobs where m: "m = (peer, GossipGraph jobs)" by (metis Simple.exhaust surj_pair)
  from gains_and_then [OF gains_sends(1) [of "ApplySync peer jobs"] keeps_gains [of "note_queue_size env"]]
  show ?thesis by (simp add: m step_rules)
qed

lemma drain_oneshot_empties:
  "drain_events (on_oneshot env) (\<lambda>ms b. b\<lparr>oneshot_messages := rev ms\<rparr>) ms b = (None, b')
     \<Longrightarrow> oneshot_messages b = rev ms \<Longrightarrow> oneshot_messages b' = []"
proof (induction ms arbitrary: b)
  case (Cons m ms)
  obtain peer jobs where m: "m = (peer, GossipGraph jobs)" by (metis Simple.exhaust surj_pair)
  from Cons.prems(1) obtain b1 where b1: "on_oneshot env m (b\<lparr>oneshot_messages := rev ms\<rparr>) = (None, b1)"
      "drain_events (on_oneshot env) (\<lambda>ms b. b\<lparr>oneshot_messages := rev ms\<rparr>) ms b1 = (None, b')"
    by (auto split: prod.splits option.splits)
  from b1(1) have "oneshot_messages b1 = rev ms"
    by (auto simp: m and_then_None must_send_None note_queue_size_def)
  with b1(2) Cons.IH show ?case by blast
qed simp

subsection \<open>Properties\<close>

text \<open>The events of the data memory reach their receivers. When the poll gets past this
  section, the channel is used up; confirmations and storage announcements have been scheduled as
  transactions, answers have been passed to the user, each in the order of the events and nothing
  besides.\<close>

lemma data_memory_events_delivered:
  assumes "data_memory_section env b = (None, b')"
  shows "queue (data_output b') = []
    \<and> queue (consensus_input b') = queue (consensus_input b) @ concat (map dm_to_consensus (queue (data_output b)))
    \<and> queue (user_output b') = queue (user_output b) @ concat (map dm_to_user (queue (data_output b)))"
  using assms unfolding data_memory_section_def
  by (intro conjI) (rule dm_loop.uses_up dm_consensus.delivers dm_user.delivers; assumption)+

subsection \<open>Finalized transactions\<close>

text \<open>A step that does not look at the queue of the consensus: changing it before or after is the same.\<close>

definition unaware :: "'ev bh_step \<Rightarrow> bool" where
  "unaware f \<longleftrightarrow> (\<forall>u b. f (consensus_output_update u b) = apsnd (consensus_output_update u) (f b))"

lemma unaware_and_then: "unaware f \<Longrightarrow> unaware g \<Longrightarrow> unaware (and_then f g)"
  by (auto simp: unaware_def and_then_def split: prod.split option.split)

lemma unaware_sends:
  "unaware (to_consensus c)" "unaware (to_data_memory d)" "unaware (to_instruction_memory i)"
  by (auto simp: unaware_def must_send_def split: prod.split Poll.split bool.split)

lemma unaware_housekeeping:
  "unaware (hurry_gossip env)" "unaware (note_queue_size env)" "unaware (log_recognized env tx)" "unaware (\<lambda>b. (None, b))"
  by (auto simp: unaware_def hurry_gossip_def note_queue_size_def log_recognized_def Let_def split: outcome.split)

lemma unaware_handle_tx: "unaware (handle_tx env from tx h)"
proof (cases tx)
  case (ExecuteTx ins)
  show ?thesis
    by (cases "Program_new (hashing env) ins (hash_from_event h)")
      (use unaware_sends(3) in \<open>auto simp: ExecuteTx unaware_def handle_execute_tx_def\<close>)
qed (simp_all add: handle_tx_eq unaware_sends)

lemma unaware_schedule: "unaware (schedule_and_hurry env tx)"
  unfolding schedule_and_hurry_def by (intro unaware_and_then unaware_sends unaware_housekeeping)

lemma unaware_consensus_event: "unaware (on_consensus_event env e)"
proof (cases e)
  case (KnownPeersResponse peers)
  show ?thesis unfolding KnownPeersResponse unaware_def
    by (simp add: unaware_schedule [unfolded unaware_def, rule_format])
next
  case (RecognizedTransaction author h tx)
  show ?thesis unfolding RecognizedTransaction on_consensus_event_eq
    by (intro unaware_and_then unaware_housekeeping unaware_handle_tx)
next
  case (GenerateSyncResponse to jobs)
  then show ?thesis by (simp add: unaware_def)
next
  case (FinalizedTransaction author h tx)
  then show ?thesis by (simp add: unaware_def)
qed

fun is_finalized :: "'ev CsOutEvent \<Rightarrow> bool" where
  "is_finalized (FinalizedTransaction by_peer h tx) \<longleftrightarrow> True"
| "is_finalized _ \<longleftrightarrow> False"

text \<open>The behaviour when these events wait in the channel of the consensus.\<close>

definition consensus_says :: "'ev CsOutEvent list \<Rightarrow> 'ev Behaviour \<Rightarrow> 'ev Behaviour" where
  "consensus_says es = consensus_output_update (\<lambda>ch. ch\<lparr>queue := es\<rparr>)"

lemma drain_skips_finalized:
  "drain_events (on_consensus_event env) consensus_says es (consensus_says es b) = r
    \<Longrightarrow> fst r = None \<Longrightarrow> drain_events (on_consensus_event env) consensus_says (filter (\<lambda>e. \<not> is_finalized e) es)
      (consensus_says (filter (\<lambda>e. \<not> is_finalized e) es) b) = r"
proof (induction es arbitrary: b)
  case (Cons e es)
  have put: "consensus_says xs (consensus_says ys c) = consensus_says xs c" for xs ys and c :: "'a Behaviour"
    by (simp add: consensus_says_def)
  have step: "on_consensus_event env e (consensus_says xs b) = apsnd (consensus_says xs) (on_consensus_event env e b)" for xs
    using unaware_consensus_event [of env e] by (simp add: unaware_def consensus_says_def)
  show ?case
  proof (cases "is_finalized e")
    case True
    then show ?thesis using Cons.IH [of b] Cons.prems by (cases e) (simp_all add: put)
  next
    case False
    obtain x b1 where x: "on_consensus_event env e b = (x, b1)" by force
    with Cons.prems have "x = None" by (auto simp: put step split: option.splits)
    with False Cons.IH [of b1] Cons.prems x show ?thesis by (simp add: put step)
  qed
qed simp

lemma consensus_section_says:
  "consensus_section env (consensus_says es b) = and_then (drain_events (on_consensus_event env) consensus_says es)
     (\<lambda>b. if tx_alive (consensus_output b) then (None, b) else (Some (GenerateError UnableToOperate), b)) (consensus_says es b)"
  by (simp add: consensus_section_def recv_loop_def consensus_says_def [abs_def])

lemma consensus_section_skips_finalized:
  assumes "consensus_section env b = (None, b')"
  shows "consensus_section env (consensus_says (filter (\<lambda>e. \<not> is_finalized e) (queue (consensus_output b))) b) = (None, b')"
proof -
  let ?es = "queue (consensus_output b)"
  have "consensus_section env (consensus_says ?es b) = (None, b')"
    using assms by (cases b) (simp add: consensus_says_def)
  then have "drain_events (on_consensus_event env) consensus_says ?es (consensus_says ?es b) = (None, b')" "tx_alive (consensus_output b')"
    unfolding consensus_section_says by (auto simp: and_then_None split: if_splits)
  then show ?thesis unfolding consensus_section_says using drain_skips_finalized [of env ?es b] by (simp add: and_then_def)
qed

text \<open>C21: recognized transactions reach the modules they concern: storage requests, confirmations
  and initializations the data memory, programs and reports of executions the instruction memory,
  in the order of the consensus. The user, the processor and the network get nothing from the consensus. Finalized
  transactions reach nobody: without them the poll leaves the very same behaviour.\<close>

theorem recognized_transactions_delivered:
  assumes "consensus_section env b = (None, b')"
  shows "queue (consensus_output b') = []
    \<and> queue (data_input b') = queue (data_input b) @ concat (map cs_to_data_memory (queue (consensus_output b)))
    \<and> queue (instruction_input b') =
      queue (instruction_input b) @ concat (map (cs_to_instruction_memory (hashing env)) (queue (consensus_output b)))
    \<and> queue (user_output b') = queue (user_output b) \<and> queue (processor_input b') = queue (processor_input b)
    \<and> queue (rr_input b') = queue (rr_input b)
    \<and> consensus_section env (consensus_says (filter (\<lambda>e. \<not> is_finalized e) (queue (consensus_output b))) b) = (None, b')"
proof -
  have same: "q b' = q b" if "\<And>e. keeps (on_consensus_event env e) q" "\<And>u b. q (consensus_output_update u b) = q b"
    for q :: "'a Behaviour \<Rightarrow> 'x list"
    using recv_loop_gains [of "on_consensus_event env" q "\<lambda>_. []" consensus_output_update consensus_output b b'] that assms
    by (simp add: consensus_section_def keeps_gains)
  have "queue (user_output b') = queue (user_output b)" "queue (processor_input b') = queue (processor_input b)"
    "queue (rr_input b') = queue (rr_input b)"
    by (rule same; simp add: on_consensus_event_keeps)+
  then show ?thesis
    using assms consensus_section_skips_finalized [OF assms] unfolding consensus_section_def
    by (simp add: cs_data.uses_up cs_data.delivers cs_instructions.delivers)
qed

theorem recognized_transactions_delivered_witness:
  "\<exists>b'. consensus_section example_env (example_behaviour\<lparr>consensus_output := (consensus_output example_behaviour)\<lparr>queue :=
        [RecognizedTransaction 2 (EventHash (replicate 64 0)) (StorageRequest (Vid 1)), FinalizedTransaction 2 (EventHash (replicate 64 0)) (StorageRequest (Vid 1))]\<rparr>\<rparr>)
        = (None, b') \<and> queue (data_input b') = [StorageRequestTx (Vid 1) 2] \<and> queue (instruction_input b') = []"
proof -
  let ?b = "example_behaviour\<lparr>consensus_output := (consensus_output example_behaviour)\<lparr>queue :=
        [RecognizedTransaction 2 (EventHash (replicate 64 0)) (StorageRequest (Vid 1)), FinalizedTransaction 2 (EventHash (replicate 64 0)) (StorageRequest (Vid 1))]\<rparr>\<rparr>"
  obtain b' where b': "consensus_section example_env ?b = (None, b')"
    by (auto simp: consensus_section_def recv_loop_def log_recognized_def and_then_def Behaviour_new_def must_send_def poll_send_def
        handle_storage_request_tx_def hurry_gossip_def module_channels_new_def mpsc_channel_def
        DynamicTimer_new_def next_duration_def start_next_def Let_def)
  with recognized_transactions_delivered [OF b'] show ?thesis
    by (simp add: Behaviour_new_def module_channels_new_def mpsc_channel_def)
qed

text \<open>While the processor is busy nothing is taken from the instruction memory; otherwise the
  programs go to the processor, finished programs to the user and the updates of other peers to
  the data memory, in order.\<close>

lemma instruction_events_delivered:
  assumes "instruction_section env b = (None, b')"
  shows "if client_accepts_input proc_accepts_input (processor_locked env) (processor_state b)
    then queue (instruction_output b') = []
      \<and> queue (processor_input b') = queue (processor_input b) @ concat (map is_to_processor (queue (instruction_output b)))
      \<and> queue (user_output b') = queue (user_output b) @ concat (map is_to_user (queue (instruction_output b)))
      \<and> queue (data_input b') = queue (data_input b) @ concat (map is_to_data_memory (queue (instruction_output b)))
    else b' = b"
  using assms
  by (auto simp: instruction_section_def is_processor.uses_up is_processor.delivers is_user.delivers
      is_data.delivers split: if_splits)

text \<open>C22: every incoming request is answered exactly once. A poll notes the requests in the order they come in and asks_for
  the data memory for all of them; an initialized memory that works off its channel answers each question once, in
  their order; the next poll passes the first answer to a request to all that wait for it, in the order
  they came, leaves none of them waiting, and has nobody left to pass later answers to. Only requests the memory was
  not asked for keep waiting.\<close>

theorem requests_answered_once:
  assumes polled: "rr_section b = (None, b1)"
    and memory: "dm_run env (map (DmInput \<circ> Some) (queue (data_input b1))) ((dm, open_sink), []) = (Dm_Continue, (dm', c), as)"
    and answered: "data_memory_section e (b1\<lparr>data_output := (data_output b1)\<lparr>queue := sent c\<rparr>\<rparr>) = (None, b2)"
  shows "map fst (answers_in (sent c)) = concat (map asks_for (queue (data_input b))) @
      concat (map (\<lambda>e. case e of IncomingRequest i request ch \<Rightarrow> [request] | _ \<Rightarrow> []) (queue (rr_output b)))
    \<and> queue (rr_input b2) = queue (rr_input b) @ 
        passed_to_network (\<lambda>r. waiting r b @ concat (map (incoming r) (queue (rr_output b)))) (sent c)
    \<and> (\<forall>i request ch. IncomingRequest i request ch \<in> set (queue (rr_output b)) \<longrightarrow>
        waiting request b2 = [] \<and> (\<exists>x. (request, x) \<in> set (answers_in (sent c)) \<and> Respond i ch x \<in> set (queue (rr_input b2))))
    \<and> (\<forall>request. request \<notin> fst ` set (answers_in (sent c)) \<longrightarrow> waiting request b2 = waiting request b)"
proof -
  let ?w = "\<lambda>r. waiting r b @ concat (map (incoming r) (queue (rr_output b)))"
  let ?b = "b1\<lparr>data_output := (data_output b1)\<lparr>queue := sent c\<rparr>\<rparr>"
  have w: "(\<lambda>r. waiting r ?b) = ?w"
    using rr_waiting.delivers [OF polled [unfolded rr_section_def]] by (simp add: waiting_def fun_eq_iff)
  have asked: "map fst (answers_in (sent c)) = concat (map asks_for (queue (data_input b))) @
      concat (map (\<lambda>e. case e of IncomingRequest i request ch \<Rightarrow> [request] | _ \<Rightarrow> []) (queue (rr_output b)))"
    using dm_run_answers [OF memory] rr_asked.delivers [OF polled [unfolded rr_section_def]] by simp
  have out: "queue (rr_input b2) = queue (rr_input b) @ passed_to_network ?w (sent c)"
    "waiting r b2 = (if r \<in> fst ` set (answers_in (sent c)) then [] else ?w r)" for r
    using data_memory_section_network [OF answered, unfolded w] rr_section_sends_nothing [OF polled]
    by (simp_all add: fun_cong [OF w])
  have "waiting r b2 = [] \<and> (\<exists>x. (r, x) \<in> set (answers_in (sent c)) \<and> Respond i ch x \<in> set (queue (rr_input b2)))"
    if "IncomingRequest i r ch \<in> set (queue (rr_output b))" for i r ch
  proof -
    have "r \<in> set (map fst (answers_in (sent c)))" unfolding asked using that by force
    then obtain y where y: "(r, y) \<in> set (answers_in (sent c))" by auto
    have "(i, ch) \<in> set (?w r)" using that by force
    from passed_to_network_answers [where w = ?w, OF y this] obtain x where
      "(r, x) \<in> set (answers_in (sent c))" "Respond i ch x \<in> set (passed_to_network ?w (sent c))" by blast
    with y out show ?thesis by force
  qed
  moreover have "waiting r b2 = waiting r b" if r: "r \<notin> fst ` set (answers_in (sent c))" for r
  proof -
    have "r \<notin> set (map fst (answers_in (sent c)))" using r by simp
    then have "incoming r x = []" if "x \<in> set (queue (rr_output b))" for x using that unfolding asked by (cases x) auto
    with out(2) [of r] r show ?thesis by simp
  qed
  ultimately show ?thesis using asked out(1) by blast
qed

text \<open>Two requests for the same shard: the memory answers each, the first answer goes to both.\<close>

theorem requests_answered_once_witness:
  "\<exists>b1 dm' c as b2. rr_section (example_behaviour\<lparr>rr_output := (rr_output example_behaviour)\<lparr>queue :=
        [IncomingRequest 7 (GetShard (Vid 1, Sid 0)) 70, IncomingRequest 8 (GetShard (Vid 1, Sid 0)) 80]\<rparr>\<rparr>) = (None, b1)
     \<and> dm_run \<lparr>feature = Default_Array, shards_order = sorted_list_of_fmap, locations_order = sorted_list_of_fmap,
             known_order = sorted_list_of_fmap\<rparr> (map (DmInput \<circ> Some) (queue (data_input b1)))
         ((initialize \<lparr>un_encoding = parity_wrapper, un_local_id = 1\<rparr> fmempty, open_sink), []) = (Dm_Continue, (dm', c), as)
     \<and> data_memory_section example_env (b1\<lparr>data_output := (data_output b1)\<lparr>queue := sent c\<rparr>\<rparr>) = (None, b2)
     \<and> map fst (answers_in (sent c)) = [GetShard (Vid 1, Sid 0), GetShard (Vid 1, Sid 0)]
     \<and> waiting (GetShard (Vid 1, Sid 0)) b2 = [] \<and> (\<exists>x. Respond 8 80 x \<in> set (queue (rr_input b2)))"
proof -
  let ?b = "example_behaviour\<lparr>rr_output := (rr_output example_behaviour)\<lparr>queue :=
        [IncomingRequest 7 (GetShard (Vid 1, Sid 0)) 70, IncomingRequest 8 (GetShard (Vid 1, Sid 0)) 80]\<rparr>\<rparr>"
  obtain b1 dm' c as b2 where b: "rr_section ?b = (None, b1)"
      "dm_run \<lparr>feature = Default_Array, shards_order = sorted_list_of_fmap, locations_order = sorted_list_of_fmap,
             known_order = sorted_list_of_fmap\<rparr> (map (DmInput \<circ> Some) (queue (data_input b1)))
         ((initialize \<lparr>un_encoding = parity_wrapper, un_local_id = 1\<rparr> fmempty, open_sink), []) = (Dm_Continue, (dm', c), as)"
      "data_memory_section example_env (b1\<lparr>data_output := (data_output b1)\<lparr>queue := sent c\<rparr>\<rparr>) = (None, b2)"
    by (auto simp: rr_section_def recv_loop_def and_then_def Behaviour_new_def must_send_def poll_send_def
        answer_request_def module_channels_new_def mpsc_channel_def data_memory_section_def sink_simps)
  from requests_answered_once [OF b] b show ?thesis by (fastforce simp: Behaviour_new_def module_channels_new_def mpsc_channel_def)
qed

text \<open>C23: no unsolicited shard gets in. What a poll hands to the data memory as a shard of another peer, to be stored
  or for a recollection, is the answer to a request of this node that was noted before, of the same kind and under the
  id this node asked for, not one the other peer names.\<close>

theorem no_unsolicited_shard:
  assumes "rr_section b = (None, b')" and "shard_answer d = Some (request, response)"
  shows "\<exists>new. queue (data_input b') = queue (data_input b) @ new
    \<and> (d \<in> set new \<longrightarrow> (\<exists>xs ys i. queue (rr_output b) = xs @ RrResponse i response # ys
        \<and> (fmlookup (pending_response b) i = Some request \<or> AssignedRequestId i request \<in> set xs)))"
proof -
  from assms(1) have rest: "drain_events on_rr_event (\<lambda>es. rr_output_update (\<lambda>ch. ch\<lparr>queue := es\<rparr>)) (queue (rr_output b)) b = (None, b')"
    unfolding rr_section_def recv_loop_def by (auto simp: and_then_None split: if_splits)
  from drain_events_appends [OF this] obtain new where "queue (data_input b') = queue (data_input b) @ new" by blast
  with responses_solicited [OF rest this _ assms(2)] show ?thesis by blast
qed

theorem no_unsolicited_shard_witness:
  "\<exists>b'. rr_section (example_behaviour\<lparr>rr_output := (rr_output example_behaviour)\<lparr>queue :=
        [AssignedRequestId 7 (ServeShard (Vid 1, Sid 0)), RrResponse 7 (ServeShardResponse None)]\<rparr>\<rparr>) = (None, b')
     \<and> queue (data_input b') = [InServeShardResponse (Vid 1, Sid 0) None]
     \<and> (\<exists>request_id. AssignedRequestId request_id (ServeShard (Vid 1, Sid 0)) \<in>
         set [AssignedRequestId 7 (ServeShard (Vid 1, Sid 0)), RrResponse 7 (ServeShardResponse None)])"
proof -
  let ?es = "[AssignedRequestId 7 (ServeShard (Vid 1, Sid 0)), RrResponse 7 (ServeShardResponse None)]"
  let ?b = "example_behaviour\<lparr>rr_output := (rr_output example_behaviour)\<lparr>queue := ?es\<rparr>\<rparr>"
  obtain b' where b: "rr_section ?b = (None, b')" "queue (data_input b') = [InServeShardResponse (Vid 1, Sid 0) None]"
    by (auto simp: rr_section_def recv_loop_def and_then_def Behaviour_new_def must_send_def poll_send_def
        module_channels_new_def mpsc_channel_def)
  have "queue (data_input ?b) = []" "pending_response ?b = fmempty" "queue (rr_output ?b) = ?es"
    by (simp_all add: Behaviour_new_def module_channels_new_def mpsc_channel_def)
  with no_unsolicited_shard [OF b(1), of "InServeShardResponse (Vid 1, Sid 0) None"] b(2) obtain xs ys i where
    "?es = xs @ RrResponse i (ServeShardResponse None) # ys" "AssignedRequestId i (ServeShard (Vid 1, Sid 0)) \<in> set xs"
    by auto
  with b show ?thesis by (metis Un_iff set_append)
qed

text \<open>Gossip messages are applied in the order in which they came in, all of them, before
  anything else of the poll is sent to the consensus.\<close>

lemma gossip_in_arrival_order:
  assumes "oneshot_section env (fold (\<lambda>(peer, m). on_connection_handler_event peer m) ms b) = (None, b')"
    and "oneshot_messages b = []"
  shows "queue (consensus_input b') = queue (consensus_input b)
      @ concat (map (\<lambda>(peer, m). case m of Rx (GossipGraph jobs) \<Rightarrow> [ApplySync peer jobs] | Sent \<Rightarrow> []) ms)
    \<and> oneshot_messages b' = []"
proof -
  let ?rx = "\<lambda>(peer, m). case m of Rx msg \<Rightarrow> [(peer, msg)] | Sent \<Rightarrow> []"
  let ?arrive = "fold (\<lambda>(peer, m). on_connection_handler_event peer m)"
  let ?sync = "\<lambda>m. case m of (peer, GossipGraph jobs) \<Rightarrow> ApplySync peer jobs"
  have arrived: "oneshot_messages (?arrive ms b) = rev (concat (map ?rx ms)) @ oneshot_messages b
      \<and> consensus_input (?arrive ms b) = consensus_input b" for ms :: "(PeerId \<times> 'a InnerMessage) list" and b
  proof (induction ms arbitrary: b)
    case (Cons m ms)
    then show ?case by (cases m; cases "snd m") auto
  qed simp
  have drain: "drain_events (on_oneshot env) (\<lambda>ms b. b\<lparr>oneshot_messages := rev ms\<rparr>) (concat (map ?rx ms))
      ((?arrive ms b)\<lparr>bh_state_updated := False\<rparr>) = (None, b')"
    using assms arrived [of ms b] by (simp add: oneshot_section_def)
  have "oneshot_messages b' = []"
    by (rule drain_oneshot_empties [OF drain]) (simp add: arrived assms(2))
  moreover have "gains (drain_events (on_oneshot env) (\<lambda>ms b. b\<lparr>oneshot_messages := rev ms\<rparr>) (concat (map ?rx ms)))
      (\<lambda>b. queue (consensus_input b)) (concat (map (\<lambda>m. [?sync m]) (concat (map ?rx ms))))"
    by (rule drain_events_gains [OF oneshot_gains]) simp
  moreover have "concat (map (\<lambda>m. [?sync m]) (concat (map ?rx ms)))
      = concat (map (\<lambda>(peer, m). case m of Rx (GossipGraph jobs) \<Rightarrow> [ApplySync peer jobs] | Sent \<Rightarrow> []) ms)"
    by (induction ms) (auto split: InnerMessage.splits Simple.splits)
  ultimately show ?thesis using drain arrived [of ms b] unfolding gains_def by auto
qed

end
