(* ===== verification/Swarm_Contract.thy ===== *)
theory Swarm_Contract
  imports Swarm_Routing
begin

text \<open>
  Hoare triples over the steps of a poll, with a second postcondition for the steps that return from
  it, and what a property of the state needs to be an invariant of the whole poll: a contract for each
  handler (locale \<open>poll_contract\<close>). For properties that do not depend on timer and metrics, \<open>poll_steps\<close>
  gives the triples of all handlers from what may be sent to each module, and \<open>open_invariant\<close> the whole
  contract when anything may be sent. The theorems about polls are interpretations of these locales.
\<close>

subsection \<open>Triples\<close>

definition triple ::
  "('ev Behaviour \<Rightarrow> bool) \<Rightarrow> 'ev bh_step \<Rightarrow> ('ev Behaviour \<Rightarrow> bool) \<Rightarrow> ('ev bh_result \<Rightarrow> 'ev Behaviour \<Rightarrow> bool) \<Rightarrow> bool" where
  "triple P f R Q \<longleftrightarrow> (\<forall>b. P b \<longrightarrow> (case f b of (None, b') \<Rightarrow> R b' | (Some r, b') \<Rightarrow> Q r b'))"

named_theorems triple_rules \<open>triples of the combinators and the basic steps\<close>

lemma tripleI:
  assumes "\<And>b b'. P b \<Longrightarrow> f b = (None, b') \<Longrightarrow> R b'" and "\<And>b r b'. P b \<Longrightarrow> f b = (Some r, b') \<Longrightarrow> Q r b'"
  shows "triple P f R Q"
  using assms by (auto simp: triple_def split: prod.splits option.splits)

lemma triple_goes_on: "triple P f R Q \<Longrightarrow> P b \<Longrightarrow> f b = (None, b') \<Longrightarrow> R b'"
  by (fastforce simp: triple_def)

lemma triple_returns: "triple P f R Q \<Longrightarrow> P b \<Longrightarrow> f b = (Some r, b') \<Longrightarrow> Q r b'"
  by (fastforce simp: triple_def)

lemma triple_case: "triple P f R Q \<Longrightarrow> P b \<Longrightarrow> case f b of (None, b') \<Rightarrow> R b' | (Some r, b') \<Rightarrow> Q r b'"
  by (simp add: triple_def)

lemma triple_weaken:
  assumes "triple P f R Q" and "\<And>b. P' b \<Longrightarrow> P b"
  shows "triple P' f R Q"
  using assms by (simp add: triple_def)

lemma triple_post:
  assumes "triple P f R Q" and "\<And>b. R b \<Longrightarrow> R' b"
  shows "triple P f R' Q"
  using assms by (auto simp: triple_def split: prod.splits option.splits)

lemma triple_and_then [triple_rules]:
  "triple P f S Q \<Longrightarrow> triple S g R Q \<Longrightarrow> triple P (and_then f g) R Q"
  by (fastforce simp: triple_def and_then_def split: prod.splits option.splits)

lemma triple_stays [triple_rules]: "(\<And>b. P b \<Longrightarrow> R b) \<Longrightarrow> triple P (Pair None) R Q"
  by (simp add: triple_def)

lemma triple_shift:
  assumes "\<And>x. triple P' (f x) R Q" and "\<And>b. P b \<Longrightarrow> P' (u b)"
  shows "triple P (\<lambda>b. f (g b) (u b)) R Q"
  using assms by (simp add: triple_def)

lemma triple_must_send:
  assumes "\<And>b. P b \<Longrightarrow> R (upd (\<lambda>_. (get b)\<lparr>queue := queue (get b) @ [e]\<rparr>) b)"
    and "\<And>b. P b \<Longrightarrow> Q (GenerateError UnableToOperate) b"
  shows "triple P (must_send get upd e) R Q"
  using assms by (auto simp: triple_def must_send_def poll_send_def split: prod.splits Poll.splits bool.splits)

lemma triple_note_queue_size: "(\<And>b m. P b \<Longrightarrow> R (b\<lparr>metrics := m\<rparr>)) \<Longrightarrow> triple P (note_queue_size env) R Q"
  by (simp add: triple_def note_queue_size_def)

lemma triple_note_sync_start: "(\<And>b m. P b \<Longrightarrow> R (b\<lparr>metrics := m\<rparr>)) \<Longrightarrow> triple P (note_sync_start env) R Q"
  by (simp add: triple_def note_sync_start_def)

lemma triple_hurry_gossip:
  assumes "\<And>b t. P b \<Longrightarrow> R (b\<lparr>consensus_gossip_timer := t\<rparr>)" and "\<And>b. P b \<Longrightarrow> Q PollPanic b"
  shows "triple P (hurry_gossip env) R Q"
  using assms by (auto simp: triple_def hurry_gossip_def Let_def split: outcome.splits)

lemma triple_log_recognized:
  assumes "\<And>b. P b \<Longrightarrow> R b" and "\<And>b. P b \<Longrightarrow> Q PollPanic b"
  shows "triple P (log_recognized env tx) R Q"
  using assms by (auto simp: triple_def log_recognized_def split: outcome.splits)

subsection \<open>Loops\<close>

text \<open>The state in which the handler of an event runs: the event has been taken from the channel.\<close>

definition taken ::
  "('ev Behaviour \<Rightarrow> 'e chan) \<Rightarrow> (('e chan \<Rightarrow> 'e chan) \<Rightarrow> 'ev Behaviour \<Rightarrow> 'ev Behaviour)
   \<Rightarrow> ('ev Behaviour \<Rightarrow> bool) \<Rightarrow> 'e \<Rightarrow> 'ev Behaviour \<Rightarrow> bool" where
  "taken get upd I e b \<longleftrightarrow> (\<exists>b0 es. I b0 \<and> queue (get b0) = e # es \<and> b = upd (\<lambda>ch. ch\<lparr>queue := es\<rparr>) b0)"

lemma drain_events_Cons: "drain_events h put (e # es) b = and_then (h e) (drain_events h put es) (put es b)"
  by (simp add: and_then_def)

lemma triple_drain_events:
  assumes "event_loop get upd h" and "\<And>e. triple (taken get upd I e) (h e) I Q"
  shows "triple (\<lambda>b. I b \<and> queue (get b) = es) (drain_events h (\<lambda>es. upd (\<lambda>ch. ch\<lparr>queue := es\<rparr>)) es) I Q"
proof (induction es)
  case (Cons e es)
  let ?put = "\<lambda>es. upd (\<lambda>ch. ch\<lparr>queue := es\<rparr>)"
  have "triple (\<lambda>b. taken get upd I e b \<and> queue (get b) = es) (h e) (\<lambda>b. I b \<and> queue (get b) = es) Q"
    using assms(2) [of e] event_loop.leaves_queue [OF assms(1), of e]
    by (auto intro!: tripleI dest: triple_goes_on triple_returns simp: keeps_def)
  from triple_and_then [OF this Cons]
  have step: "triple (\<lambda>b. taken get upd I e b \<and> queue (get b) = es) (and_then (h e) (drain_events h ?put es)) I Q" .
  have "taken get upd I e (?put es b) \<and> queue (get (?put es b)) = es" if "I b" "queue (get b) = e # es" for b
    using that event_loop.set_queue [OF assms(1)] by (auto simp: taken_def)
  with step show ?case by (simp add: triple_def drain_events_Cons del: drain_events.simps)
qed (simp add: triple_def)

lemma triple_recv_loop:
  assumes "event_loop get upd h" and "\<And>e. triple (taken get upd I e) (h e) I Q"
    and "\<And>b. I b \<Longrightarrow> Q (GenerateError UnableToOperate) b"
  shows "triple I (recv_loop get upd h) I Q"
proof -
  let ?drain = "\<lambda>b. drain_events h (\<lambda>es. upd (\<lambda>ch. ch\<lparr>queue := es\<rparr>)) (queue (get b))"
  let ?last = "\<lambda>b. if tx_alive (get b) then (None, b) else (Some (GenerateError UnableToOperate), b)"
  have "triple I ?last I Q" using assms(3) by (simp add: triple_def)
  then have "triple (\<lambda>b'. I b' \<and> queue (get b') = queue (get b)) (and_then (?drain b) ?last) I Q" for b
    by (rule triple_and_then [OF triple_drain_events [OF assms(1,2)]])
  then show ?thesis by (simp add: triple_def recv_loop_def)
qed

subsection \<open>The handlers of the user and the processor\<close>

lemma on_user_event_eq:
  "on_user_event env (ScheduleProgram ins) = and_then (to_consensus (ScheduleTx (ExecuteTx ins)))
     (and_then (note_queue_size env) (and_then (to_user ScheduleOk) (hurry_gossip env)))"
  "on_user_event env (Get data_id) = to_data_memory (RecollectRequest data_id)"
  "on_user_event env (Put data_id data) = to_data_memory (PrepareServiceRequest data_id data)"
  "on_user_event env ListStored = to_data_memory InListDistributed"
  "on_user_event env InitializeStorageUi = and_then (to_consensus KnownPeersRequest) (note_queue_size env)"
  by (simp_all add: fun_eq_iff)

lemma on_consensus_event_known:
  "on_consensus_event env (KnownPeersResponse peers) =
     (\<lambda>b. schedule_and_hurry env (InitializeStorage (known_distribution env peers (connected_peers b))) b)"
  by (simp add: fun_eq_iff)

lemma on_oneshot_eq:
  "on_oneshot env (peer, GossipGraph jobs) = and_then (to_consensus (ApplySync peer jobs)) (note_queue_size env)"
  by (simp add: fun_eq_iff)

lemma on_processor_event_eq:
  "on_processor_event env (FinishedExecution program_id results) = schedule_and_hurry env (Executed program_id)"
  by (simp add: fun_eq_iff)

interpretation user_loop: event_loop user_input user_input_update "on_user_event env" for env
proof unfold_locales
  show "keeps (on_user_event env e) (\<lambda>b. queue (user_input b))" for e
  proof (cases e)
    case GetMetrics
    then show ?thesis by (simp add: keeps_def must_send_None)
  qed (simp_all add: on_user_event_eq step_rules send_rules)
qed simp

interpretation processor_loop: event_loop processor_output processor_output_update "on_processor_event env" for env
proof unfold_locales
  show "keeps (on_processor_event env e) (\<lambda>b. queue (processor_output b))" for e
    by (cases e) (simp add: on_processor_event_eq send_rules)
qed simp

subsection \<open>The contract of a poll\<close>

definition poll_sections :: "bh_env \<Rightarrow> 'ev bh_step" where
  "poll_sections env = and_then shutdown_section (and_then discovery_section (and_then (oneshot_section env)
    (and_then (data_memory_section env) (and_then (user_section env) (and_then (processor_section env)
    (and_then (instruction_section env) (and_then (consensus_section env) (and_then (gossip_section env)
    rr_section))))))))"

lemma bh_poll_sections:
  "bh_poll env b = (case poll_sections env b of (None, b) \<Rightarrow> (PollPending, b) | (Some r, b) \<Rightarrow> (r, b))"
  by (simp add: bh_poll_def poll_sections_def)

locale poll_contract =
  fixes env :: bh_env
    and I :: "'ev Behaviour \<Rightarrow> bool"
    and Q :: "'ev bh_result \<Rightarrow> 'ev Behaviour \<Rightarrow> bool"
  assumes stops: "I b \<Longrightarrow> Q (GenerateError e) b"
    and dials: "I b \<Longrightarrow> discovered_peers b \<noteq> [] \<Longrightarrow> Q (Dial p) (b\<lparr>discovered_peers := butlast (discovered_peers b)\<rparr>)"
    and messages: "I b \<Longrightarrow> I (b\<lparr>oneshot_messages := ms\<rparr>)" "I b \<Longrightarrow> I (b\<lparr>bh_state_updated := x\<rparr>)"
    and oneshot: "triple I (on_oneshot env m) I Q"
    and data_memory: "triple (taken data_output data_output_update I d) (on_data_memory_event env d) I Q"
    and user: "triple (taken user_input user_input_update I u) (on_user_event env u) I Q"
    and processor: "triple (taken processor_output processor_output_update I f) (on_processor_event env f) I Q"
    and instructions: "triple (taken instruction_output instruction_output_update I i) (on_instruction_event i) I Q"
    and consensus: "triple (taken consensus_output consensus_output_update I c) (on_consensus_event env c) I Q"
    and network: "triple (taken rr_output rr_output_update I n) (on_rr_event n) I Q"
    and gossip: "triple I (gossip_section env) I Q"
begin

lemma oneshot_section: "triple I (oneshot_section env) I Q"
proof -
  have "triple I (drain_events (on_oneshot env) (\<lambda>ms b. b\<lparr>oneshot_messages := rev ms\<rparr>) ms) I Q" for ms
  proof (induction ms)
    case (Cons m ms)
    with oneshot have "triple I (and_then (on_oneshot env m)
        (drain_events (on_oneshot env) (\<lambda>ms b. b\<lparr>oneshot_messages := rev ms\<rparr>) ms)) I Q"
      by (rule triple_and_then)
    then show ?case using messages(1) by (simp add: triple_def drain_events_Cons del: drain_events.simps)
  qed (simp add: triple_def)
  then show ?thesis using messages(2) by (simp add: triple_def oneshot_section_def)
qed

lemma instruction_section: "triple I (instruction_section env) I Q"
  using triple_recv_loop [OF is_processor.event_loop_axioms instructions stops]
  by (simp add: triple_def instruction_section_def)

lemma sections: "triple I shutdown_section I Q" "triple I discovery_section I Q"
  "triple I (data_memory_section env) I Q" "triple I (user_section env) I Q" "triple I (processor_section env) I Q"
  "triple I (consensus_section env) I Q" "triple I rr_section I Q"
proof -
  show "triple I shutdown_section I Q" using stops by (simp add: triple_def shutdown_section_def)
  show "triple I discovery_section I Q"
    using dials by (simp add: triple_def discovery_section_def pop_back_def)
  show "triple I (data_memory_section env) I Q"
    unfolding data_memory_section_def by (rule triple_recv_loop [OF dm_loop.event_loop_axioms data_memory stops])
  show "triple I (user_section env) I Q"
    unfolding user_section_def by (rule triple_recv_loop [OF user_loop.event_loop_axioms user stops])
  show "triple I (processor_section env) I Q"
    unfolding processor_section_def by (rule triple_recv_loop [OF processor_loop.event_loop_axioms processor stops])
  show "triple I (consensus_section env) I Q"
    unfolding consensus_section_def by (rule triple_recv_loop [OF cs_data.event_loop_axioms consensus stops])
  show "triple I rr_section I Q"
    unfolding rr_section_def by (rule triple_recv_loop [OF rr_waiting.event_loop_axioms network stops])
qed

lemma all_sections: "triple I (poll_sections env) I Q"
  unfolding poll_sections_def
  by (intro triple_and_then [of I _ I] sections oneshot_section instruction_section gossip)

lemma poll:
  assumes "I b" and "bh_poll env b = (r, b')"
  shows "r = PollPending \<and> I b' \<or> Q r b'"
  using triple_case [OF all_sections assms(1)] assms(2)
  by (cases "poll_sections env b") (auto simp: bh_poll_sections split: option.splits)

end

subsection \<open>Properties of the channels\<close>

fun is_schedule :: "'ev CsInEvent \<Rightarrow> bool" where
  "is_schedule (ScheduleTx _) \<longleftrightarrow> True"
| "is_schedule _ \<longleftrightarrow> False"

text \<open>Properties that do not depend on timer, metrics and waiting gossip messages, nor on what the
  consensus is asked besides transactions.\<close>

locale local_invariant =
  fixes I :: "'ev Behaviour \<Rightarrow> bool"
    and Q :: "'ev bh_result \<Rightarrow> 'ev Behaviour \<Rightarrow> bool"
  assumes stops: "I b \<Longrightarrow> Q (GenerateError e) b" "I b \<Longrightarrow> Q PollPanic b"
    and timer: "I b \<Longrightarrow> I (b\<lparr>consensus_gossip_timer := t\<rparr>)"
    and measured: "I b \<Longrightarrow> I (b\<lparr>metrics := m\<rparr>)"
    and messages: "I b \<Longrightarrow> I (b\<lparr>oneshot_messages := ms\<rparr>)" "I b \<Longrightarrow> I (b\<lparr>bh_state_updated := x\<rparr>)"
    and asks: "I b \<Longrightarrow> \<not> is_schedule c
      \<Longrightarrow> I (b\<lparr>consensus_input := (consensus_input b)\<lparr>queue := queue (consensus_input b) @ [c]\<rparr>\<rparr>)"
begin

lemma housekeeping:
  "triple I (note_queue_size env) I Q" "triple I (note_sync_start env) I Q"
  "triple I (hurry_gossip env) I Q" "triple I (log_recognized env tx) I Q"
  by (simp_all add: triple_note_queue_size triple_note_sync_start triple_hurry_gossip triple_log_recognized
      measured timer stops)

lemma asks_consensus: "\<not> is_schedule c \<Longrightarrow> triple I (to_consensus c) I Q"
  by (rule triple_must_send) (simp_all add: asks stops)

lemma oneshot: "triple I (on_oneshot env m) I Q"
proof -
  obtain peer jobs where m: "m = (peer, GossipGraph jobs)" by (metis Simple.exhaust surj_pair)
  have "triple I (to_consensus (ApplySync peer jobs)) I Q" by (simp add: asks_consensus)
  then show ?thesis unfolding m on_oneshot_eq using housekeeping(1) by (rule triple_and_then)
qed

text \<open>A recognized transaction, and the program of one.\<close>

lemma recognized:
  assumes "triple I (handle_tx env from tx h) R Q"
  shows "triple I (on_consensus_event env (RecognizedTransaction from h tx)) R Q"
  unfolding on_consensus_event_eq by (intro triple_and_then [of I _ I] housekeeping assms)

lemma execute_tx:
  assumes "\<And>p. Program_new (hashing env) ins (hash_from_event h) = Ok p
    \<Longrightarrow> triple I (to_instruction_memory (FinalizedProgram p)) R Q"
  shows "triple I (handle_tx env from (ExecuteTx ins) h) R Q"
proof (cases "Program_new (hashing env) ins (hash_from_event h)")
  case (Ok p)
  with assms show ?thesis by (simp add: triple_def handle_execute_tx_def)
qed (simp_all add: triple_def handle_execute_tx_def stops)

lemma may_send:
  assumes "triple I g I Q" and "\<not> is_schedule e"
  shows "triple I (may_send e g) I Q"
  using assms asks stops
  by (auto simp: triple_def may_send_def poll_send_def split: prod.splits Poll.splits bool.splits)

lemma gossip: "triple I (gossip_section env) I Q"
  unfolding triple_def
proof (intro allI impI)
  fix b assume b: "I b"
  have step: "case and_then (may_send CreateStandalone (Pair None))
      (and_then (may_send (GenerateSyncRequest p) (note_sync_start env)) (note_queue_size env)) (b\<lparr>consensus_gossip_timer := t\<rparr>)
    of (None, b') \<Rightarrow> I b' | (Some r, b') \<Rightarrow> Q r b'" for p t
    by (rule triple_case [of I], intro triple_and_then [of I _ I] may_send housekeeping triple_stays)
      (simp_all add: timer b)
  show "case gossip_section env b of (None, b') \<Rightarrow> I b' | (Some r, b') \<Rightarrow> Q r b'"
    using b step
    by (auto simp: gossip_section_def Let_def timer stops split: outcome.split option.split)
qed

end

fun dm_to_network :: "DmOutEvent \<Rightarrow> RrInEvent list" where
  "dm_to_network (OutServeShardRequest fid location) = [MakeRequest (ServeShard fid) location]"
| "dm_to_network (OutAssignedRequest fid location) = [MakeRequest (GetShard fid) location]"
| "dm_to_network _ = []"

fun dm_to_answer :: "DmOutEvent \<Rightarrow> (Request \<times> ProtoResponse) option" where
  "dm_to_answer (OutServeShardResponse fid shard) = Some (ServeShard fid, ServeShardResponse shard)"
| "dm_to_answer (OutAssignedResponse fid shard) = Some (GetShard fid, GetShardResponse shard)"
| "dm_to_answer _ = None"

fun ui_to_data_memory :: "UiInEvent \<Rightarrow> DmInEvent list" where
  "ui_to_data_memory (Get data_id) = [RecollectRequest data_id]"
| "ui_to_data_memory (Put data_id data) = [PrepareServiceRequest data_id data]"
| "ui_to_data_memory ListStored = [InListDistributed]"
| "ui_to_data_memory _ = []"

text \<open>What may be sent to each module without breaking the property.\<close>

locale poll_steps = local_invariant I Q for I :: "'ev Behaviour \<Rightarrow> bool" and Q +
  fixes tx_ok :: "Transaction \<Rightarrow> bool" and dm_ok :: "DmInEvent \<Rightarrow> bool" and is_ok :: "IsInEvent \<Rightarrow> bool"
    and pr_ok :: "ProcInEvent \<Rightarrow> bool" and ui_ok :: "UiOutEvent \<Rightarrow> bool" and rr_ok :: "RrInEvent \<Rightarrow> bool"
  assumes send_tx: "I b \<Longrightarrow> tx_ok tx
        \<Longrightarrow> I (b\<lparr>consensus_input := (consensus_input b)\<lparr>queue := queue (consensus_input b) @ [ScheduleTx tx]\<rparr>\<rparr>)"
    and send_dm: "I b \<Longrightarrow> dm_ok d \<Longrightarrow> I (b\<lparr>data_input := (data_input b)\<lparr>queue := queue (data_input b) @ [d]\<rparr>\<rparr>)"
    and send_is: "I b \<Longrightarrow> is_ok i \<Longrightarrow> I (b\<lparr>instruction_input := (instruction_input b)\<lparr>queue := queue (instruction_input b) @ [i]\<rparr>\<rparr>)"
    and send_pr: "I b \<Longrightarrow> pr_ok p \<Longrightarrow> I (b\<lparr>processor_input := (processor_input b)\<lparr>queue := queue (processor_input b) @ [p]\<rparr>\<rparr>)"
    and send_ui: "I b \<Longrightarrow> ui_ok u \<Longrightarrow> I (b\<lparr>user_output := (user_output b)\<lparr>queue := queue (user_output b) @ [u]\<rparr>\<rparr>)"
    and send_rr: "I b \<Longrightarrow> rr_ok n \<Longrightarrow> I (b\<lparr>rr_input := (rr_input b)\<lparr>queue := queue (rr_input b) @ [n]\<rparr>\<rparr>)"
begin

lemma sends:
  "tx_ok tx \<Longrightarrow> triple I (to_consensus (ScheduleTx tx)) I Q"
  "dm_ok d \<Longrightarrow> triple I (to_data_memory d) I Q"
  "is_ok i \<Longrightarrow> triple I (to_instruction_memory i) I Q"
  "pr_ok p \<Longrightarrow> triple I (to_processor p) I Q"
  "ui_ok u \<Longrightarrow> triple I (to_user u) I Q"
  "rr_ok n \<Longrightarrow> triple I (to_network n) I Q"
  by (rule triple_must_send; simp add: send_tx send_dm send_is send_pr send_ui send_rr stops)+

lemma seq: "triple I f I Q \<Longrightarrow> triple I g I Q \<Longrightarrow> triple I (and_then f g) I Q"
  by (rule triple_and_then)

lemma schedule: "tx_ok tx \<Longrightarrow> triple I (schedule_and_hurry env tx) I Q"
  by (simp add: schedule_and_hurry_def seq sends housekeeping)

lemma respond_all: "list_all (\<lambda>(i, c). rr_ok (Respond i c r)) ws \<Longrightarrow> triple I (respond_all r ws) I Q"
proof (induction ws)
  case (Cons w ws)
  then show ?case by (simp add: respond_all_Cons seq sends case_prod_beta)
qed (simp add: triple_def)

lemmas steps = seq sends schedule respond_all housekeeping asks_consensus triple_stays

lemma data_memory_event:
  assumes "\<And>tx. ScheduleTx tx \<in> set (dm_to_consensus d :: 'ev CsInEvent list) \<Longrightarrow> tx_ok tx"
    and "list_all ui_ok (dm_to_user d)" and "list_all rr_ok (dm_to_network d)"
    and "\<And>r x. dm_to_answer d = Some (r, x) \<Longrightarrow> triple I (answer_request r x) I Q"
  shows "triple I (on_data_memory_event env d) I Q"
  using assms by (cases d) (simp_all add: on_data_memory_event_eq steps)

lemma user_event:
  assumes "\<And>ins. u = ScheduleProgram ins \<Longrightarrow> tx_ok (ExecuteTx ins) \<and> ui_ok ScheduleOk"
    and "list_all dm_ok (ui_to_data_memory u)" and "\<And>m. u = GetMetrics \<Longrightarrow> ui_ok (GetMetricsResponse m)"
  shows "triple I (on_user_event env u) I Q"
proof (cases u)
  case GetMetrics
  have "triple I (\<lambda>b. to_user (GetMetricsResponse (metrics b)) b) I Q"
    by (rule triple_shift [of I "\<lambda>m. to_user (GetMetricsResponse m)"]) (use assms(3) GetMetrics in \<open>simp_all add: sends\<close>)
  then show ?thesis using GetMetrics by (simp add: triple_def)
qed (use assms in \<open>simp_all add: on_user_event_eq steps\<close>)

lemma processor_event:
  assumes "\<And>pid results. f = FinishedExecution pid results \<Longrightarrow> tx_ok (Executed pid)"
  shows "triple I (on_processor_event env f) I Q"
  using assms by (cases f) (simp add: on_processor_event_eq steps)

lemma instruction_event:
  assumes "list_all pr_ok (is_to_processor i)" and "list_all ui_ok (is_to_user i)" and "list_all dm_ok (is_to_data_memory i)"
  shows "triple I (on_instruction_event i) I Q"
  using assms by (cases i) (simp_all add: on_instruction_event_eq steps)

lemma transaction:
  assumes "list_all dm_ok (tx_to_data_memory from tx)"
    and "list_all is_ok (tx_to_instruction_memory (hashing env) from h tx)"
  shows "triple I (handle_tx env from tx h) I Q"
proof (cases tx)
  case (ExecuteTx ins)
  show ?thesis unfolding ExecuteTx by (rule execute_tx) (use assms(2) ExecuteTx in \<open>simp add: steps\<close>)
qed (use assms in \<open>simp_all add: handle_tx_eq steps\<close>)

lemma consensus_event:
  assumes "list_all dm_ok (cs_to_data_memory c)" and "list_all is_ok (cs_to_instruction_memory (hashing env) c)"
    and "\<And>d. tx_ok (InitializeStorage d)" and "\<And>b to jobs. c = GenerateSyncResponse to jobs \<Longrightarrow> I b \<Longrightarrow> Q (NotifyHandler to (GossipGraph jobs)) b"
  shows "triple I (on_consensus_event env c) I Q"
proof (cases c)
  case (GenerateSyncResponse to jobs)
  then show ?thesis using assms(4) measured by (simp add: triple_def)
next
  case (KnownPeersResponse peers)
  show ?thesis unfolding KnownPeersResponse on_consensus_event_known
    by (rule triple_shift [of I "\<lambda>d. schedule_and_hurry env (InitializeStorage d)"]) (simp_all add: steps assms(3))
next
  case (RecognizedTransaction peer h tx)
  then show ?thesis using assms(1,2) by (simp add: recognized transaction)
next
  case (FinalizedTransaction peer h tx)
  then show ?thesis by (simp add: on_consensus_event_eq steps)
qed

end

text \<open>Properties that do not depend on what is sent: only the answers of the data memory and the events of
  the network need a proof of their own.\<close>

locale open_invariant = poll_steps I Q "\<lambda>_. True" "\<lambda>_. True" "\<lambda>_. True" "\<lambda>_. True" "\<lambda>_. True" "\<lambda>_. True"
  for I :: "'ev Behaviour \<Rightarrow> bool" and Q +
  assumes takes: "I b \<Longrightarrow> queue (user_input b) = u # us \<Longrightarrow> I (user_input_update (\<lambda>ch. ch\<lparr>queue := us\<rparr>) b)"
      "I b \<Longrightarrow> queue (processor_output b) = f # fs \<Longrightarrow> I (processor_output_update (\<lambda>ch. ch\<lparr>queue := fs\<rparr>) b)"
      "I b \<Longrightarrow> queue (instruction_output b) = i # is \<Longrightarrow> I (instruction_output_update (\<lambda>ch. ch\<lparr>queue := is\<rparr>) b)"
      "I b \<Longrightarrow> queue (consensus_output b) = c # cs \<Longrightarrow> I (consensus_output_update (\<lambda>ch. ch\<lparr>queue := cs\<rparr>) b)"
    and results: "I b \<Longrightarrow> Q (Dial p) (b\<lparr>discovered_peers := ps\<rparr>)" "I b \<Longrightarrow> Q (NotifyHandler to m) b"
    and data_memory: "triple (taken data_output data_output_update I d) (on_data_memory_event env d) I Q"
    and network: "triple (taken rr_output rr_output_update I n) (on_rr_event n) I Q"

sublocale open_invariant \<subseteq> polls: poll_contract env I Q for env
proof
  show "triple (taken user_input user_input_update I u) (on_user_event env u) I Q" for u
    by (rule triple_weaken, rule user_event) (auto simp: list_all_iff taken_def takes)
  show "triple (taken processor_output processor_output_update I f) (on_processor_event env f) I Q" for f
    by (rule triple_weaken, rule processor_event) (auto simp: taken_def takes)
  show "triple (taken instruction_output instruction_output_update I e) (on_instruction_event e) I Q" for e
    by (rule triple_weaken, rule instruction_event) (auto simp: list_all_iff taken_def takes)
  show "triple (taken consensus_output consensus_output_update I e) (on_consensus_event env e) I Q" for e
    by (rule triple_weaken, rule consensus_event) (auto simp: list_all_iff taken_def takes results)
qed (assumption | rule data_memory network results stops messages oneshot gossip)+

text \<open>From a contract for the state before the event is taken.\<close>

lemma triple_taken:
  assumes "\<And>b es. I b \<Longrightarrow> queue (get b) = e # es \<Longrightarrow> P \<and> I' (upd (\<lambda>ch. ch\<lparr>queue := es\<rparr>) b)"
    and "P \<Longrightarrow> triple I' (h e) R Q"
  shows "triple (taken get upd I e) (h e) R Q"
proof (cases P)
  case True
  show ?thesis by (rule triple_weaken [OF assms(2) [OF True]]) (use assms(1) in \<open>auto simp: taken_def\<close>)
next
  case False
  then have "\<not> taken get upd I e b" for b using assms(1) by (auto simp: taken_def)
  then show ?thesis by (simp add: triple_def)
qed

end
