(* ===== verification/Swarm_Poll.thy ===== *)
theory Swarm_Poll
  imports Swarm_Contract
begin

text \<open>
  A poll of the main behaviour as a whole: none of its \<open>expect\<close>s fails, it keeps the gossip timer
  restartable, and gossip goes to a connected peer.
\<close>

subsection \<open>Steps that do not panic\<close>

text \<open>The timer keeps bounds with which it can be restarted.\<close>

definition timer_ok :: "'ev Behaviour \<Rightarrow> bool" where
  "timer_ok b \<longleftrightarrow> 0 \<le> min_duration (consensus_gossip_timer b)
     \<and> min_duration (consensus_gossip_timer b) \<le> max_duration (consensus_gossip_timer b)"

definition env_ok :: "bh_env \<Rightarrow> bool" where
  "env_ok env \<longleftrightarrow> (\<forall>n. 0 < n \<longrightarrow> gen_range env n < n)
     \<and> (\<forall>ps. distinct (peers_order env ps) \<and> set (peers_order env ps) = fset ps)
     \<and> (\<forall>bytes. length (blake2b512 (hashing env) bytes) = 64)
     \<and> (info_enabled env \<longrightarrow> (\<forall>ins. \<not> isl (bincode_instructions (hashing env) ins)))"

abbreviation calm :: "'ev bh_result \<Rightarrow> 'ev Behaviour \<Rightarrow> bool" where
  "calm r b \<equiv> r \<noteq> PollPanic \<and> timer_ok b"

abbreviation no_panic :: "'ev bh_step \<Rightarrow> bool" where
  "no_panic f \<equiv> triple timer_ok f timer_ok calm"

named_theorems no_panic_rules \<open>steps that do not panic\<close>

lemma timer_ok_cong:
  "consensus_gossip_timer b' = consensus_gossip_timer b \<Longrightarrow> timer_ok b \<Longrightarrow> timer_ok b'"
  by (simp add: timer_ok_def)

lemma no_panic_taken:
  assumes "no_panic (h e)" and "\<And>f b. consensus_gossip_timer (upd f b) = consensus_gossip_timer b"
  shows "triple (taken get upd timer_ok e) (h e) timer_ok calm"
  by (rule triple_weaken [OF assms(1)]) (auto simp: taken_def assms(2) elim: timer_ok_cong [rotated])

lemma no_panic_and_then [no_panic_rules]: "no_panic f \<Longrightarrow> no_panic g \<Longrightarrow> no_panic (and_then f g)"
  by (rule triple_and_then)

lemma no_panic_stays [no_panic_rules]: "no_panic (Pair None)"
  by (rule triple_stays)

lemma no_panic_must_send [no_panic_rules]:
  "(\<And>f b. consensus_gossip_timer (upd f b) = consensus_gossip_timer b) \<Longrightarrow> no_panic (must_send get upd e)"
  by (rule triple_must_send) (simp_all add: timer_ok_def)

lemma no_panic_note [no_panic_rules]: "no_panic (note_queue_size env)" "no_panic (note_sync_start env)"
  by (rule triple_note_queue_size triple_note_sync_start, erule timer_ok_cong [rotated], simp)+

text \<open>The timer can be restarted and reset, and stays restartable.\<close>

lemma timer_reset:
  assumes "timer_ok b"
  obtains t where "reset_full (n, n, n, n, n) (consensus_gossip_timer b) = Ok t" "timer_ok (b\<lparr>consensus_gossip_timer := t\<rparr>)"
  by (rule reset_full_ok [of "consensus_gossip_timer b" n n n n n])
    (use assms that in \<open>simp_all add: timer_ok_def del: reset_full.simps\<close>)

lemma timer_start:
  assumes "timer_ok b"
  obtains t where "start_next n n (consensus_gossip_timer b) = Ok t" "timer_ok (b\<lparr>consensus_gossip_timer := t\<rparr>)"
  by (rule start_next_ok [of "consensus_gossip_timer b" n n]) (use assms that in \<open>simp_all add: timer_ok_def\<close>)

lemma no_panic_hurry_gossip [no_panic_rules]: "no_panic (hurry_gossip env)"
  unfolding triple_def
proof (intro allI impI)
  fix b :: "'a Behaviour"
  assume "timer_ok b"
  then obtain t where "reset_full (now env, now env, now env, now env, now env) (consensus_gossip_timer b) = Ok t"
    "timer_ok (b\<lparr>consensus_gossip_timer := t\<rparr>)" by (rule timer_reset)
  then show "case hurry_gossip env b of (None, b') \<Rightarrow> timer_ok b' | (Some r, b') \<Rightarrow> calm r b'"
    by (simp add: hurry_gossip_def Let_def del: reset_full.simps)
qed

lemma no_panic_log_recognized [no_panic_rules]: "env_ok env \<Longrightarrow> no_panic (log_recognized env tx)"
  by (cases tx)
    (auto simp: triple_def log_recognized_def env_ok_def calculate_hash_def instructions_digest_def Let_def isl_def
      split: outcome.splits sum.splits)

lemma no_panic_respond_all [no_panic_rules]: "no_panic (respond_all r ws)"
proof (induction ws)
  case (Cons w ws)
  then show ?case by (simp add: respond_all_Cons no_panic_rules)
qed (simp add: triple_def)

lemma no_panic_answer_request [no_panic_rules]: "no_panic (answer_request request response)"
  unfolding answer_request_def [abs_def] Let_def
  by (rule triple_shift [OF no_panic_respond_all]) (simp add: timer_ok_def)

lemma no_panic_schedule [no_panic_rules]: "no_panic (schedule_and_hurry env tx)"
  by (simp add: schedule_and_hurry_def no_panic_rules)

lemma get_random_peer_Ok:
  assumes "env_ok env"
  shows "(fcard (connected_peers b) = 0 \<and> get_random_peer env b = Ok None)
    \<or> (\<exists>p. p |\<in>| connected_peers b \<and> get_random_peer env b = Ok (Some p))"
proof -
  let ?ps = "peers_order env (connected_peers b)" and ?n = "fcard (connected_peers b)"
  have ps: "distinct ?ps" "set ?ps = fset (connected_peers b)"
    using assms by (auto simp: env_ok_def)
  then have len: "length ?ps = ?n" by (metis distinct_card fcard.rep_eq)
  show ?thesis
  proof (cases "?n = 0")
    case False
    then have "0 < ?n" by blast
    then have i: "gen_range env ?n < length ?ps" using assms len unfolding env_ok_def by metis
    then obtain rest where "drop (gen_range env ?n) ?ps = ?ps ! gen_range env ?n # rest"
      by (metis Cons_nth_drop_Suc)
    with False have "get_random_peer env b = Ok (Some (?ps ! gen_range env ?n))"
      unfolding get_random_peer_def Let_def by simp
    moreover have "?ps ! gen_range env ?n |\<in>| connected_peers b" using i ps(2) nth_mem by metis
    ultimately show ?thesis by blast
  qed (simp add: get_random_peer_def)
qed

lemma no_panic_execute_tx:
  "env_ok env \<Longrightarrow> no_panic (handle_execute_tx env h ins)"
  by (auto simp: triple_def handle_execute_tx_def Program_new_def calculate_hash_def Let_def env_ok_def
      must_send_def timer_ok_def split: sum.splits prod.splits Poll.splits bool.splits outcome.splits)

lemma no_panic_handle_tx [no_panic_rules]: "env_ok env \<Longrightarrow> no_panic (handle_tx env from tx h)"
  by (cases tx) (simp_all add: handle_tx_eq no_panic_rules no_panic_execute_tx)

lemma no_panic_on_oneshot: "no_panic (on_oneshot env m)"
proof (cases m)
  case (Pair peer msg)
  then show ?thesis by (cases msg) (simp add: on_oneshot_eq no_panic_rules)
qed

lemma no_panic_on_data_memory_event: "no_panic (on_data_memory_event env e)"
  by (cases e) (simp_all add: on_data_memory_event_eq no_panic_rules)

lemma no_panic_on_user_event: "no_panic (on_user_event env e)"
proof (cases e)
  case GetMetrics
  then show ?thesis
    by (auto simp: triple_def must_send_def timer_ok_def split: prod.splits Poll.splits bool.splits)
qed (simp_all add: on_user_event_eq no_panic_rules)

lemma no_panic_on_processor_event: "no_panic (on_processor_event env e)"
  by (cases e) (simp add: on_processor_event_eq no_panic_rules)

lemma no_panic_on_instruction_event: "no_panic (on_instruction_event e)"
  by (cases e) (simp_all add: on_instruction_event_eq no_panic_rules)

lemma no_panic_on_consensus_event:
  assumes "env_ok env"
  shows "no_panic (on_consensus_event env e)"
proof (cases e)
  case (KnownPeersResponse peers)
  have "no_panic (\<lambda>b. schedule_and_hurry env (InitializeStorage (known_distribution env peers (connected_peers b))) b)"
    by (rule triple_shift [OF no_panic_schedule])
  then show ?thesis by (simp add: KnownPeersResponse on_consensus_event_known)
qed (use assms in \<open>simp_all add: on_consensus_event_eq no_panic_rules, simp add: triple_def timer_ok_def\<close>)

lemma no_panic_on_rr_event: "no_panic (on_rr_event e)"
  by (cases e) (auto simp: triple_def must_send_def and_then_def timer_ok_def
      split: prod.splits Poll.splits bool.splits option.splits Request.splits ProtoResponse.splits)

lemma no_panic_may_send [no_panic_rules]: "no_panic g \<Longrightarrow> no_panic (may_send e g)"
proof -
  have "timer_ok (b\<lparr>consensus_input := ch\<rparr>) \<longleftrightarrow> timer_ok b" for ch and b :: "'a Behaviour"
    by (simp add: timer_ok_def)
  then show "no_panic g \<Longrightarrow> no_panic (may_send e g)"
    by (auto simp: triple_def may_send_def poll_send_def split: prod.splits Poll.splits bool.splits)
qed

lemma no_panic_gossip:
  assumes env: "env_ok env"
  shows "no_panic (gossip_section env)"
  unfolding triple_def
proof (intro allI impI)
  fix b :: "'a Behaviour"
  assume b: "timer_ok b"
  then obtain t where t: "start_next (now env) (now env) (consensus_gossip_timer b) = Ok t"
    "timer_ok (b\<lparr>consensus_gossip_timer := t\<rparr>)" by (rule timer_start)
  have step: "case and_then (may_send CreateStandalone (Pair None))
      (and_then (may_send (GenerateSyncRequest p) (note_sync_start env)) (note_queue_size env)) (b\<lparr>consensus_gossip_timer := t\<rparr>)
    of (None, b') \<Rightarrow> timer_ok b' | (Some r, b') \<Rightarrow> calm r b'" for p
    by (rule triple_case [of timer_ok, OF _ t(2)]) (intro no_panic_rules)
  from get_random_peer_Ok [OF env, of b]
  show "case gossip_section env b of (None, b') \<Rightarrow> timer_ok b' | (Some r, b') \<Rightarrow> calm r b'"
    using t b step by (elim disjE conjE exE) (simp_all add: gossip_section_def)
qed

lemma no_panic_contract: "env_ok env \<Longrightarrow> poll_contract env timer_ok calm"
  by unfold_locales
    (simp_all add: no_panic_taken no_panic_on_oneshot no_panic_on_data_memory_event no_panic_on_user_event
      no_panic_on_processor_event no_panic_on_instruction_event no_panic_on_consensus_event no_panic_on_rr_event
      no_panic_gossip, simp_all add: timer_ok_def)

subsection \<open>Polls that find something to do\<close>

text \<open>The waiting events on the way of the transactions, weighted so that no handler increases the
  load: an answer of the consensus becomes at most one event for the instruction memory, and one of its
  events at most one program for the processor. \<open>c\<close> and \<open>r\<close> are what is left over of such an event.\<close>

definition load :: "nat \<Rightarrow> nat \<Rightarrow> nat \<Rightarrow> nat \<Rightarrow> 'ev Behaviour \<Rightarrow> nat" where
  "load i c q r b = length (discovered_peers b) + (i + c) * length (queue (consensus_output b))
     + i * length (queue (instruction_input b)) + (q + r) * length (queue (instruction_output b))
     + q * length (queue (processor_input b))"

text \<open>What keeps a poll from being pending: discovered peers to dial and answers of the consensus to pass
  on. Everything that a poll returns to the swarm uses one of them up.\<close>

definition pending_work :: "'ev Behaviour \<Rightarrow> nat" where
  "pending_work b = length (discovered_peers b) + length (queue (consensus_output b))"

lemma pending_work_load: "pending_work b = load 0 1 0 0 b"
  by (simp add: pending_work_def load_def)

fun busy :: "'ev bh_result \<Rightarrow> bool" where
  "busy (Dial _) \<longleftrightarrow> True"
| "busy (NotifyHandler _ _) \<longleftrightarrow> True"
| "busy _ \<longleftrightarrow> False"

lemma busy_iff: "busy r \<longleftrightarrow> (\<exists>p. r = Dial p) \<or> (\<exists>p m. r = NotifyHandler p m)"
  by (cases r) simp_all

text \<open>The load and a credit \<open>k\<close> are within the bound \<open>n\<close>.\<close>

definition work_left :: "nat \<Rightarrow> nat \<Rightarrow> nat \<Rightarrow> nat \<Rightarrow> nat \<Rightarrow> nat \<Rightarrow> 'ev Behaviour \<Rightarrow> bool" where
  "work_left i c q r k n b \<longleftrightarrow> load i c q r b + k \<le> n"

definition less_work :: "nat \<Rightarrow> nat \<Rightarrow> nat \<Rightarrow> nat \<Rightarrow> nat \<Rightarrow> 'ev bh_result \<Rightarrow> 'ev Behaviour \<Rightarrow> bool" where
  "less_work i c q r n x b \<longleftrightarrow> x \<noteq> PollPending \<and> work_left i c q r (if busy x \<and> 0 < i + c then 1 else 0) n b"

interpretation work: poll_steps "work_left i c q r k n" "less_work i c q r n"
    "\<lambda>_. True" "\<lambda>_. True" "\<lambda>_. False" "\<lambda>_. False" "\<lambda>_. True" "\<lambda>_. True" for i c q r k n
  by unfold_locales (simp_all add: less_work_def work_left_def load_def)

lemma work_sends:
  "triple (work_left i c q r (k + i) n) (to_instruction_memory e1) (work_left i c q r k n) (less_work i c q r n)"
  "triple (work_left i c q r (k + q) n) (to_processor e2) (work_left i c q r k n) (less_work i c q r n)"
  by (rule triple_must_send; simp add: less_work_def work_left_def load_def)+

lemma work_answer_request:
  "triple (work_left i c q r k n) (answer_request x y) (work_left i c q r k n) (less_work i c q r n)"
  unfolding answer_request_def [abs_def] Let_def
  by (rule triple_shift [OF work.respond_all]) (simp_all add: work_left_def load_def list_all_iff)

lemma work_rr_event: "triple (work_left i c q r k n) (on_rr_event m) (work_left i c q r k n) (less_work i c q r n)"
  by (cases m) (auto simp: triple_def must_send_def and_then_def less_work_def work_left_def load_def
      split: prod.splits Poll.splits bool.splits option.splits Request.splits ProtoResponse.splits)

lemma work_credit:
  "triple (work_left i c q r k n) f (work_left i c q r k n) Q \<Longrightarrow> triple (work_left i c q r k n) f (work_left i c q r 0 n) Q"
  by (erule triple_post) (simp add: work_left_def)

lemma work_consensus_event:
  "triple (work_left i c q r (i + c) n) (on_consensus_event env e) (work_left i c q r 0 n) (less_work i c q r n)"
proof (cases e)
  case (RecognizedTransaction p h tx)
  have send: "triple (work_left i c q r (i + c) n) (to_instruction_memory x) (work_left i c q r 0 n) (less_work i c q r n)" for x
    using work_sends(1) [of i c q r 0] by (rule triple_weaken) (simp add: work_left_def)
  have "triple (work_left i c q r (i + c) n) (handle_tx env p tx h) (work_left i c q r 0 n) (less_work i c q r n)"
  proof (cases tx)
    case (ExecuteTx ins)
    then show ?thesis using work.execute_tx [OF send] by simp
  next
    case (Executed pid)
    then show ?thesis using send by (simp add: handle_tx_eq)
  qed (simp_all add: work_credit work.transaction del: handle_tx.simps)
  then show ?thesis unfolding RecognizedTransaction by (rule work.recognized)
next
  case (GenerateSyncResponse to jobs)
  then show ?thesis by (simp add: triple_def less_work_def work_left_def load_def)
qed (rule work_credit, rule work.consensus_event; simp)+

lemma work_instruction_event:
  "triple (work_left i c q r (q + r) n) (on_instruction_event e) (work_left i c q r 0 n) (less_work i c q r n)"
proof (cases e)
  case (NextProgram p)
  have "triple (work_left i c q r (q + r) n) (to_processor (Execute p)) (work_left i c q r 0 n) (less_work i c q r n)"
    using work_sends(2) [of i c q r 0] by (rule triple_weaken) (simp add: work_left_def)
  then show ?thesis by (simp add: NextProgram on_instruction_event_eq)
qed (simp_all add: work_credit work.instruction_event del: on_instruction_event.simps)

lemma work_taken:
  assumes "triple (work_left i c q r 0 n) (h e) (work_left i c q r 0 n) (less_work i c q r n)"
    and "\<And>f b. load i c q r (upd f b) = load i c q r b"
  shows "triple (taken get upd (work_left i c q r 0 n) e) (h e) (work_left i c q r 0 n) (less_work i c q r n)"
  by (rule triple_weaken [OF assms(1)]) (auto simp: taken_def work_left_def assms(2))

interpretation work_poll: poll_contract env "work_left i c q r 0 n" "less_work i c q r n" for env i c q r n
proof
  let ?I = "work_left i c q r 0 n" and ?Q = "less_work i c q r n"
  show "triple (taken data_output data_output_update ?I d) (on_data_memory_event env d) ?I ?Q" for d
    by (rule work_taken, rule work.data_memory_event) (simp_all add: list_all_iff work_answer_request load_def)
  show "triple (taken user_input user_input_update ?I u) (on_user_event env u) ?I ?Q" for u
    by (rule work_taken, rule work.user_event) (simp_all add: list_all_iff load_def)
  show "triple (taken processor_output processor_output_update ?I f) (on_processor_event env f) ?I ?Q" for f
    by (rule work_taken, rule work.processor_event) (simp_all add: load_def)
  show "triple (taken instruction_output instruction_output_update ?I e) (on_instruction_event e) ?I ?Q" for e
    by (rule triple_weaken [OF work_instruction_event]) (auto simp: taken_def work_left_def load_def)
  show "triple (taken consensus_output consensus_output_update ?I e) (on_consensus_event env e) ?I ?Q" for e
    by (rule triple_weaken [OF work_consensus_event]) (auto simp: taken_def work_left_def load_def)
  show "triple (taken rr_output rr_output_update ?I m) (on_rr_event m) ?I ?Q" for m
    by (rule work_taken, rule work_rr_event) (simp add: load_def)
  show "?Q (Dial p) (b\<lparr>discovered_peers := butlast (discovered_peers b)\<rparr>)"
    if "?I b" "discovered_peers b \<noteq> []" for b :: "'a Behaviour" and p
    using that by (cases "discovered_peers b") (simp_all add: less_work_def work_left_def load_def)
qed (rule work.stops work.messages work.oneshot work.gossip; simp)+

lemma poll_pending_sections:
  assumes "bh_poll env b = (PollPending, b')"
  shows "poll_sections env b = (None, b')"
proof -
  have "work_left 0 0 0 0 0 (load 0 0 0 0 b) b" by (simp add: work_left_def)
  from triple_case [OF work_poll.all_sections this, of env] assms show ?thesis
    by (cases "poll_sections env b") (auto simp: less_work_def bh_poll_sections split: option.splits)
qed

lemma poll_load:
  assumes "bh_poll env b = (x, b')"
  shows "load i c q r b' \<le> load i c q r b" "busy x \<Longrightarrow> 0 < i + c \<Longrightarrow> load i c q r b' < load i c q r b"
  using work_poll.poll [of i c q r "load i c q r b" b env x b'] assms by (auto simp: less_work_def work_left_def split: if_splits)

lemma poll_less_work: "bh_poll env b = (x, b') \<Longrightarrow> busy x \<Longrightarrow> pending_work b' < pending_work b"
  by (simp add: pending_work_load poll_load(2))

text \<open>The swarm polls again after each poll that was busy; the times, choices and hashes may differ.\<close>

primrec polled :: "(nat \<Rightarrow> bh_env) \<Rightarrow> nat \<Rightarrow> 'ev Behaviour \<Rightarrow> 'ev Behaviour" where
  "polled envs 0 b = b"
| "polled envs (Suc n) b = snd (bh_poll (envs n) (polled envs n b))"

lemma busy_polls:
  assumes "\<And>i. i < n \<Longrightarrow> busy (fst (bh_poll (envs i) (polled envs i b)))"
  shows "pending_work (polled envs n b) + n \<le> pending_work b"
  using assms
proof (induction n)
  case (Suc n)
  then have "pending_work (polled envs n b) + n \<le> pending_work b" by simp
  moreover have "pending_work (polled envs (Suc n) b) < pending_work (polled envs n b)"
    using Suc.prems [of n] poll_less_work by (metis lessI polled.simps(2) prod.collapse)
  ultimately show ?case by simp
qed simp

lemma polls_not_busy: "\<exists>k \<le> pending_work b. (\<forall>i<k. busy (fst (bh_poll (envs i) (polled envs i b))))
    \<and> \<not> busy (fst (bh_poll (envs k) (polled envs k b)))"
proof -
  let ?idle = "\<lambda>k. \<not> busy (fst (bh_poll (envs k) (polled envs k b)))"
  have "\<exists>k. ?idle k" using busy_polls [of "Suc (pending_work b)" envs b] by fastforce
  then have "?idle (Least ?idle)" by (rule LeastI_ex)
  moreover have "\<forall>i < Least ?idle. busy (fst (bh_poll (envs i) (polled envs i b)))"
    by (auto dest: not_less_Least)
  moreover from this have "Least ?idle \<le> pending_work b" using busy_polls [of "Least ?idle" envs b] by simp
  ultimately show ?thesis by blast
qed

subsection \<open>Properties\<close>

lemma example_env_ok: "env_ok example_env"
  by (auto simp: env_ok_def sorted_list_of_fset.rep_eq)

text \<open>An environment without gossip, for runs that are evaluated.\<close>

definition quiet_env :: bh_env where
  "quiet_env = example_env\<lparr>consensus_locked := True\<rparr>"

lemma quiet_env_ok: "env_ok quiet_env"
  using example_env_ok by (simp add: quiet_env_def env_ok_def)

text \<open>With this environment a poll is evaluated without the exponential function of the timer: the
  section of the gossip is skipped, and a reset of a timer that has expired only notes the time.\<close>

lemma gossip_section_code [code]:
  "gossip_section env b =
     (if consensus_locked env \<and> consensus_state b \<noteq> None then (None, b)
      else Code.abort STR ''gossip'' (\<lambda>_. gossip_section env b))"
  by (auto simp: gossip_section_def client_accepts_input_def)

lemma hurry_gossip_code [code]:
  "hurry_gossip env b =
     (if 0 \<le> min_duration (consensus_gossip_timer b) \<and> min_duration (consensus_gossip_timer b) \<le> max_duration (consensus_gossip_timer b)
         \<and> timer_deadline (consensus_gossip_timer b) \<le> now env
      then (None, b\<lparr>consensus_gossip_timer := (consensus_gossip_timer b)\<lparr>last_reset := now env\<rparr>\<rparr>)
      else Code.abort STR ''gossip'' (\<lambda>_. hurry_gossip env b))"
proof (cases "0 \<le> min_duration (consensus_gossip_timer b) \<and> min_duration (consensus_gossip_timer b) \<le> max_duration (consensus_gossip_timer b)
         \<and> timer_deadline (consensus_gossip_timer b) \<le> now env")
  case True
  let ?t = "(consensus_gossip_timer b)\<lparr>last_reset := now env\<rparr>"
  have b: "0 \<le> min_duration ?t" "min_duration ?t \<le> max_duration ?t" using True by simp_all
  then obtain d where "next_duration (now env) ?t = Ok d" "min_duration ?t \<le> d"
    using next_duration_Ok by metis
  with b(1) True show ?thesis by (simp add: hurry_gossip_def Let_def)
qed auto

lemma example_timer_ok: "timer_ok example_behaviour"
  by (simp add: timer_ok_def Behaviour_new_def DynamicTimer_new_def)

lemma poll_no_panic:
  assumes "env_ok env" and "timer_ok b"
  shows "fst (bh_poll env b) \<noteq> PollPanic \<and> timer_ok (snd (bh_poll env b))"
  using poll_contract.poll [OF no_panic_contract, OF assms] by (cases "bh_poll env b") auto

text \<open>C19: a poll does not panic, and keeps the gossip timer in a state from which no later poll
  does: with a random choice in range, an iteration order that enumerates the peer set, and
  digests of 64 bytes, none of the \<open>expect\<close>s and checked conversions of the poll fails, whatever
  the channels hold.\<close>

theorem poll_never_panics:
  assumes "env_ok env" and "timer_ok b"
  shows "fst (bh_poll env b) \<noteq> PollPanic \<and> timer_ok (snd (bh_poll env b))"
  by (rule poll_no_panic [OF assms])

theorem poll_never_panics_witness: "fst (bh_poll example_env example_behaviour) \<noteq> PollPanic"
  using poll_never_panics [OF example_env_ok example_timer_ok] by blast

text \<open>C20: the swarm does not poll forever. A poll that returns a dial or a message to the swarm is
  followed by another one at once; whatever the clock, the locks, the choices and the hashes of these
  polls are, after at most as many of them as there are discovered peers and answers of the consensus
  waiting, a poll returns nothing of the kind: the behaviour is pending or has stopped.\<close>

theorem polls_settle:
  "\<exists>k \<le> length (discovered_peers b) + length (queue (consensus_output b)).
     \<forall>p m. fst (bh_poll (envs k) (polled envs k b)) \<noteq> Dial p
       \<and> fst (bh_poll (envs k) (polled envs k b)) \<noteq> NotifyHandler p m"
  using polls_not_busy [of b envs] by (auto simp: pending_work_def busy_iff)

text \<open>C24: as long as libp2p reports its connection counts correctly, a peer is in the set of
  connected peers exactly when a connection to it is open, and the peer chosen for gossip is one
  of them, if there is any.\<close>

theorem gossip_partner_connected:
  assumes "env_ok env" and "counts_correct evs" and "connected_peers b = {||}"
  shows "(p |\<in>| connected_peers (foldr on_swarm_event evs b) \<longleftrightarrow> 0 < connections evs p)
    \<and> (if \<exists>q. 0 < connections evs q
       then \<exists>q. get_random_peer env (foldr on_swarm_event evs b) = Ok (Some q) \<and> 0 < connections evs q
       else get_random_peer env (foldr on_swarm_event evs b) = Ok None)"
proof -
  have c: "q |\<in>| connected_peers (foldr on_swarm_event evs b) \<longleftrightarrow> 0 < connections evs q" for q
    using connected_peers_foldr [OF assms(2,3)] .
  moreover have "fcard (connected_peers (foldr on_swarm_event evs b)) = 0 \<longleftrightarrow> (\<forall>q. connections evs q = 0)"
    using c by (auto simp: fset_eq_iff)
  ultimately show ?thesis
    using get_random_peer_Ok [OF assms(1), of "foldr on_swarm_event evs b"] by auto
qed

theorem gossip_partner_connected_witness:
  "\<exists>q. get_random_peer example_env
      (foldr on_swarm_event [ConnectionClosed 2 1, ConnectionEstablished 2 1, ConnectionEstablished 2 0] example_behaviour)
      = Ok (Some q)"
proof -
  let ?evs = "[ConnectionClosed 2 1, ConnectionEstablished 2 1, ConnectionEstablished 2 0]"
  have "counts_correct ?evs" "connected_peers example_behaviour = {||}" by (simp_all add: Behaviour_new_def)
  moreover have "0 < connections ?evs 2" by simp
  ultimately show ?thesis
    using gossip_partner_connected [OF example_env_ok, of ?evs example_behaviour] by meson
qed

end
