(* ===== verification/Swarm_Logging.thy ===== *)
theory Swarm_Logging
  imports Swarm_Types
begin

text \<open>
  What a node writes about itself: the targets and macros of \<open>logging_helpers.rs\<close>, the formats of hashes
  in \<open>types.rs\<close>, and the subscriber that \<open>configure_logs\<close> of \<open>main.rs\<close> installs. The lemmas say that log
  entries can be told apart by target and channel, that a printed hash determines the hash, and when
  the configuration succeeds.
\<close>

subsection \<open>Targets and channel logs\<close>

datatype Targets =
    ChannelSend
  | ChannelRecv
  | StorageInitialization
  | DataDistribution
  | ProgramExecution
  | DataRecollection
  | Synchronization

fun into_str :: "Targets \<Rightarrow> string" where
  "into_str ChannelSend = ''channel_send''"
| "into_str ChannelRecv = ''channel_recv''"
| "into_str StorageInitialization = ''storage_init''"
| "into_str DataDistribution = ''data_distr''"
| "into_str ProgramExecution = ''program_exec''"
| "into_str DataRecollection = ''data_recollect''"
| "into_str Synchronization = ''sync''"

datatype Level = TRACE | DEBUG | INFO | WARN | ERROR

record log_entry =
  log_target :: string
  log_level :: Level
  log_message :: string

text \<open>The two macros; \<open>None\<close> is the form without a level.\<close>

definition channel_log_send :: "string \<Rightarrow> Level option \<Rightarrow> string \<Rightarrow> log_entry" where
  "channel_log_send chan_name lvl msg =
     \<lparr>log_target = into_str ChannelSend, log_level = (case lvl of None \<Rightarrow> DEBUG | Some l \<Rightarrow> l),
      log_message = ''Sent to '' @ chan_name @ '': '' @ msg\<rparr>"

definition channel_log_recv :: "string \<Rightarrow> Level option \<Rightarrow> string \<Rightarrow> log_entry" where
  "channel_log_recv chan_name lvl msg =
     \<lparr>log_target = into_str ChannelRecv, log_level = (case lvl of None \<Rightarrow> DEBUG | Some l \<Rightarrow> l),
      log_message = ''Received from '' @ chan_name @ '': '' @ msg\<rparr>"

text \<open>A filter by target separates the workflows.\<close>

lemma into_str_inject: "into_str a = into_str b \<longleftrightarrow> a = b"
  by (cases a; cases b) simp_all

text \<open>Channel names have no colon, so that an entry determines the channel and the message.\<close>

lemma upto_separator:
  assumes "x \<notin> set xs" and "x \<notin> set ys" and "xs @ x # as = ys @ x # bs"
  shows "xs = ys \<and> as = bs"
  using assms
proof (induction xs arbitrary: ys)
  case Nil
  then show ?case by (cases ys) auto
next
  case (Cons z xs)
  then show ?case by (cases ys) auto
qed

lemma channel_log_send_inject:
  assumes "CHR '':'' \<notin> set c1" and "CHR '':'' \<notin> set c2"
    and "channel_log_send c1 l1 m1 = channel_log_send c2 l2 m2"
  shows "c1 = c2 \<and> m1 = m2"
  using assms upto_separator [OF assms(1,2), of "CHR '' '' # m1" "CHR '' '' # m2"]
  by (auto simp: channel_log_send_def)

subsection \<open>Printed hashes\<close>

text \<open>\<open>{:X?}\<close> prints a list with the numbers in upper-case hexadecimal without leading zeros.\<close>

definition hex_digit :: "nat \<Rightarrow> char" where
  "hex_digit n = ''0123456789ABCDEF'' ! n"

definition hex_byte :: "u8 \<Rightarrow> string" where
  "hex_byte b = (if unat b < 16 then [hex_digit (unat b)] else [hex_digit (unat b div 16), hex_digit (unat b mod 16)])"

fun comma_list :: "string list \<Rightarrow> string" where
  "comma_list [] = []"
| "comma_list [x] = x"
| "comma_list (x # xs) = x @ '', '' @ comma_list xs"

definition hash_display :: "Hash \<Rightarrow> string" where
  "hash_display h = ''['' @ comma_list (map hex_byte (into_array h)) @ '']''"

definition hash_debug :: "Hash \<Rightarrow> string" where
  "hash_debug h = ''Hash { hex_value: '' @ [CHR 0x22] @ hash_display h @ [CHR 0x22] @ '' }''"

lemma hex_digit_inject: "m < 16 \<Longrightarrow> n < 16 \<Longrightarrow> hex_digit m = hex_digit n \<longleftrightarrow> m = n"
proof -
  assume "m < 16" "n < 16"
  then have "m < length ''0123456789ABCDEF''" "n < length ''0123456789ABCDEF''" by simp_all
  moreover have "distinct ''0123456789ABCDEF''" by simp
  ultimately show ?thesis unfolding hex_digit_def by (simp only: nth_eq_iff_index_eq)
qed

lemma unat_u8_less: "unat (b :: u8) < 256"
  using unsigned_less [of b] by simp

lemma hex_byte_inject: "hex_byte a = hex_byte b \<longleftrightarrow> a = b"
proof
  assume eq: "hex_byte a = hex_byte b"
  have ranges: "unat a div 16 < 16" "unat b div 16 < 16" "unat a mod 16 < 16" "unat b mod 16 < 16"
    using unat_u8_less [of a] unat_u8_less [of b] by (simp_all add: less_mult_imp_div_less)
  have "unat a = unat b"
  proof (cases "unat a < 16 \<or> unat b < 16")
    case True
    with eq show ?thesis by (auto simp: hex_byte_def hex_digit_inject split: if_splits)
  next
    case False
    with eq ranges have "unat a div 16 = unat b div 16" "unat a mod 16 = unat b mod 16"
      by (simp_all add: hex_byte_def hex_digit_inject)
    then show ?thesis by (metis div_mult_mod_eq)
  qed
  then show "a = b" by (simp add: word_unat_eq_iff)
qed simp

lemma hex_byte_no_comma: "CHR '','' \<notin> set (hex_byte b)"
proof -
  have "CHR '','' \<noteq> hex_digit n" if "n < 16" for n
    using that nth_mem [of n "''0123456789ABCDEF''"] by (auto simp: hex_digit_def)
  then show ?thesis using unat_u8_less [of b] by (simp add: hex_byte_def less_mult_imp_div_less)
qed

lemma comma_list_inject:
  assumes "length xs = length ys" and "\<And>x. x \<in> set xs \<union> set ys \<Longrightarrow> CHR '','' \<notin> set x"
  shows "comma_list xs = comma_list ys \<longleftrightarrow> xs = ys"
  using assms
proof (induction xs ys rule: list_induct2)
  case (Cons x xs y ys)
  show ?case
  proof (cases xs)
    case Nil
    with Cons.hyps show ?thesis by simp
  next
    case (Cons x' xs')
    with Cons.hyps obtain y' ys' where ys: "ys = y' # ys'" by (cases ys) auto
    have "comma_list (x # xs) = comma_list (y # ys) \<longleftrightarrow> x = y \<and> comma_list xs = comma_list ys"
      using upto_separator [of "CHR '',''" x y] Cons.prems by (auto simp: Cons ys)
    then show ?thesis using Cons.IH Cons.prems by auto
  qed
qed simp

text \<open>What is printed of a hash determines it.\<close>

lemma hash_display_inject:
  assumes "wf_hash g" and "wf_hash h"
  shows "hash_display g = hash_display h \<longleftrightarrow> g = h" and "hash_debug g = hash_debug h \<longleftrightarrow> g = h"
proof -
  have "comma_list (map hex_byte (into_array g)) = comma_list (map hex_byte (into_array h))
      \<longleftrightarrow> map hex_byte (into_array g) = map hex_byte (into_array h)"
    by (rule comma_list_inject) (use assms in \<open>auto simp: wf_hash_def hex_byte_no_comma\<close>)
  also have "\<dots> \<longleftrightarrow> into_array g = into_array h"
    by (rule inj_map_eq_map) (simp add: inj_def hex_byte_inject)
  also have "\<dots> \<longleftrightarrow> g = h" by (cases g; cases h) simp
  finally show "hash_display g = hash_display h \<longleftrightarrow> g = h" by (simp add: hash_display_def)
  then show "hash_debug g = hash_debug h \<longleftrightarrow> g = h" by (simp add: hash_debug_def)
qed

subsection \<open>\<open>configure_logs\<close>\<close>

text \<open>The features of the build, and what the libraries and the system do. \<open>utc_now\<close> is the debug format of
  the time; \<open>subscriber_set\<close> tells whether the process has a global subscriber already, on which \<open>init\<close>
  panics.\<close>

record log_features =
  file_log :: bool
  console_log :: bool

record 'fs log_library =
  utc_now :: string
  peer_text :: "PeerId \<Rightarrow> string"
  create_dir_all :: "string \<Rightarrow> 'fs \<Rightarrow> bool \<times> 'fs"
  file_create :: "string \<Rightarrow> 'fs \<Rightarrow> bool \<times> 'fs"
  parse_socket_addr :: "string \<Rightarrow> string option"
  subscriber_set :: bool

datatype log_layer = FileLayer string | ConsoleLayer "string option" | StdoutLayer

text \<open>\<open>Path::parent\<close> of a path that does not end in a slash: what precedes the last slash, or nothing.\<close>

definition path_parent :: "string \<Rightarrow> string option" where
  "path_parent p = (if p = [] then None else Some (rev (drop 1 (dropWhile (\<lambda>c. c \<noteq> CHR ''/'') (rev p)))))"

definition log_filename :: "'fs log_library \<Rightarrow> PeerId \<Rightarrow> string" where
  "log_filename lib own = ''./logs/'' @ utc_now lib @ ''-'' @ peer_text lib own @ ''.log''"

definition file_layer :: "'fs log_library \<Rightarrow> PeerId \<Rightarrow> 'fs \<Rightarrow> (unit, log_layer) outcome \<times> 'fs" where
  "file_layer lib own fs =
     (let path = log_filename lib own in
      case path_parent path of
        None \<Rightarrow> (Panic, fs)
      | Some prefix \<Rightarrow>
          (case create_dir_all lib prefix fs of
             (False, fs) \<Rightarrow> (Panic, fs)
           | (True, fs) \<Rightarrow>
               (case file_create lib path fs of
                  (False, fs) \<Rightarrow> (Panic, fs)
                | (True, fs) \<Rightarrow> (Ok (FileLayer path), fs))))"

definition console_layer :: "'fs log_library \<Rightarrow> string option \<Rightarrow> (unit, log_layer) outcome" where
  "console_layer lib addr =
     (case addr of
        None \<Rightarrow> Ok (ConsoleLayer None)
      | Some a \<Rightarrow> (case parse_socket_addr lib a of None \<Rightarrow> Panic | Some sa \<Rightarrow> Ok (ConsoleLayer (Some sa))))"

text \<open>The result is the layers of the subscriber that is installed, and whether there is a guard of the
  file writer.\<close>

definition configure_logs ::
  "log_features \<Rightarrow> 'fs log_library \<Rightarrow> PeerId \<Rightarrow> string option \<Rightarrow> 'fs
   \<Rightarrow> (unit, log_layer list \<times> bool) outcome \<times> 'fs" where
  "configure_logs ft lib own console_subscriber_addr fs =
     (let (file, fs) = (if file_log ft
             then (case file_layer lib own fs of (r, fs) \<Rightarrow> (map_outcome id (\<lambda>l. [l]) r, fs)) else (Ok [], fs));
          console = (if console_log ft
             then map_outcome id (\<lambda>l. [l]) (console_layer lib console_subscriber_addr) else Ok [])
      in (bind_outcome file (\<lambda>fl. bind_outcome console (\<lambda>cl.
            if subscriber_set lib then Panic else Ok (fl @ cl @ [StdoutLayer], file_log ft))), fs))"

text \<open>The \<open>unwrap\<close> of the parent never fails: a log file lies in the directory of the logs.\<close>

lemma path_parent_logs:
  assumes "CHR ''/'' \<notin> set (utc_now lib @ peer_text lib own)"
  shows "path_parent (log_filename lib own) = Some ''./logs''"
proof -
  let ?rest = "utc_now lib @ ''-'' @ peer_text lib own @ ''.log''"
  have "dropWhile (\<lambda>c. c \<noteq> CHR ''/'') (rev ?rest @ CHR ''/'' # rev ''./logs'') = CHR ''/'' # rev ''./logs''"
    using assms by (subst dropWhile_append2) auto
  then show ?thesis by (simp add: path_parent_def log_filename_def)
qed

lemma configure_logs_plain:
  assumes "\<not> file_log ft" and "\<not> console_log ft" and "\<not> subscriber_set lib"
  shows "configure_logs ft lib own addr fs = (Ok ([StdoutLayer], False), fs)"
  using assms by (simp add: configure_logs_def)

end
