(* ===== verification/Swarm_Main.thy ===== *)
theory Swarm_Main
  imports Swarm_Ui Swarm_Signatures Swarm_Poll Swarm_Logging
begin

text \<open>
  A node as a whole: the construction of \<open>network.rs\<close>, and the start and the event loop of \<open>main.rs\<close>.
  The swarm of libp2p, the key library, the graph and the terminal are parameters. The theorems say
  how the modules of a started node fit together, and when the loop ends and what it passes on.
\<close>

definition CHANNEL_BUFFER_LIMIT :: nat where
  "CHANNEL_BUFFER_LIMIT = 100"

subsection \<open>\<open>network.rs\<close>\<close>

datatype mdns_event = Discovered "(PeerId \<times> string) list" | Expired "(PeerId \<times> string) list"

text \<open>The main behaviour only ever reports errors: its event type is empty.\<close>

datatype CombinedBehaviourEvent =
    MainEvent BhError
  | RequestResponseEvent RrEvent
  | MdnsEvent mdns_event

text \<open>What the construction uses: keys, transport, graph, discovery, listening.\<close>

record ('kp, 'pk, 'g) net_library =
  keypair_from_bytes :: "u8 list \<Rightarrow> string + 'kp"
  generate_keypair :: 'kp
  key_library :: "('pk, 'kp) ed25519_library"
  peer_id_of :: "'pk \<Rightarrow> PeerId"
  development_transport :: "'kp \<Rightarrow> string + unit"
  graph_new :: "PeerId \<Rightarrow> EventPayload \<Rightarrow> GenesisPayload \<Rightarrow> nat \<Rightarrow> 'kp Ed25519Signer \<Rightarrow> 'g"
  mdns_new :: "PeerId \<Rightarrow> string + unit"
  listen_on :: "string \<Rightarrow> string + unit"

text \<open>The tasks of a node with the states they start in, the main behaviour, and the channels of the
  request-response module, of which the event loop is the server.\<close>

record ('g, 'ev) launched =
  consensus_task :: "'g GraphWrapper"
  data_memory_task :: UninitializedDataMemory
  instruction_memory_task :: InstructionMemory
  processor_state_cell :: "ProcModuleState option"
  main_behaviour :: "'ev Behaviour"
  request_response_server :: "(RrInEvent, RrOutEvent, unit) module_channels"
  ui_started :: bool
  shutdown_token :: bool

definition local_keypair :: "('kp, 'pk, 'g) net_library \<Rightarrow> u8 option \<Rightarrow> (string, 'kp) outcome" where
  "local_keypair net key_seed =
     (case key_seed of
        Some s \<Rightarrow> (case keypair_from_bytes net (s # replicate 31 0) of Inl _ \<Rightarrow> Panic | Inr kp \<Rightarrow> Ok kp)
      | None \<Rightarrow> Ok (generate_keypair net))"

text \<open>\<open>oc\<close> tells whether arithmetic is checked, \<open>rs\<close> is the erasure-coding crate, \<open>t\<close> the clock, and
  \<open>p1\<close>, \<open>p2\<close> the random ids in the empty transaction buffers. The steps are in the order of the
  source; the errors of \<open>?\<close> are \<open>Err\<close>.\<close>

definition network_new ::
  "bool \<Rightarrow> rs_library \<Rightarrow> ('kp, 'pk, 'g) net_library \<Rightarrow> Instant \<Rightarrow> PeerId \<Rightarrow> PeerId
   \<Rightarrow> u8 option \<Rightarrow> Settings \<Rightarrow> bool \<Rightarrow> string \<Rightarrow> (string, ('g, 'ev) launched) outcome" where
  "network_new oc rs net t p1 p2 key_seed encoding_settings run_ui listen_address =
     bind_outcome (local_keypair net key_seed) (\<lambda>kp.
       let own = peer_id_of net (kp_public (key_library net) kp) in
       case development_transport net kp of
         Inl e \<Rightarrow> Err e
       | Inr _ \<Rightarrow>
         (let signer = Ed25519Signer_new kp;
              graph = graph_new net own (EventPayload_new [])
                \<lparr>pubkey = from_ed25519_pubkey (key_library net) (kp_public (key_library net) kp)\<rparr> 30 signer;
              consensus = from_graph p1 p2 graph;
              consensus_channels = module_channels_new (Some CsReady) CHANNEL_BUFFER_LIMIT
          in
          case UninitializedDataMemory_new oc rs own encoding_settings of
            Panic \<Rightarrow> Panic
          | Err _ \<Rightarrow> Panic
          | Ok data_memory \<Rightarrow>
            (let data_memory_channels = module_channels_new None CHANNEL_BUFFER_LIMIT;
                 instruction_memory = InstructionMemory_new (unat (data_shards_sufficient encoding_settings));
                 instruction_memory_channels = module_channels_new None CHANNEL_BUFFER_LIMIT;
                 processor_channels = module_channels_new (Some Ready_State) CHANNEL_BUFFER_LIMIT;
                 behaviour_channels = module_channels_new None CHANNEL_BUFFER_LIMIT;
                 rr_channels = module_channels_new None CHANNEL_BUFFER_LIMIT;
                 behaviour = Behaviour_new t t own 2 12 behaviour_channels consensus_channels
                   instruction_memory_channels data_memory_channels processor_channels rr_channels
             in
             case mdns_new net own of
               Inl e \<Rightarrow> Err e
             | Inr _ \<Rightarrow>
             (case listen_on net listen_address of
                Inl e \<Rightarrow> Err e
              | Inr _ \<Rightarrow>
                Ok \<lparr>consensus_task = consensus, data_memory_task = data_memory,
                    instruction_memory_task = instruction_memory,
                    processor_state_cell = shared_state processor_channels,
                    main_behaviour = behaviour, request_response_server = rr_channels,
                    ui_started = run_ui, shutdown_token = False\<rparr>))))"

subsection \<open>The start, in \<open>main.rs\<close>\<close>

record Args =
  interactive :: bool
  generate_input :: bool
  arg_listen_address :: string
  dial_address :: "string option"
  parity_shards :: u64
  console_subscriber_addr :: "string option"
  key_seed :: "u8 option"

definition encoding_settings :: "bool \<Rightarrow> Args \<Rightarrow> (string, Settings) outcome" where
  "encoding_settings oc args =
     (if oc \<and> 2 ^ 64 \<le> unat DATA_SHARDS_COUNT + unat (parity_shards args) then Panic
      else Ok \<lparr>data_shards_total = DATA_SHARDS_COUNT + parity_shards args, data_shards_sufficient = DATA_SHARDS_COUNT\<rparr>)"

text \<open>Parsing of addresses and dialing, by libp2p.\<close>

record dial_library =
  parse_multiaddr :: "string \<Rightarrow> string + string"
  swarm_dial :: "string \<Rightarrow> string + unit"

text \<open>The part of \<open>main\<close> before the loop. \<open>generate\<close> is the call of \<open>test_write_input\<close>; \<open>Ok None\<close> is the
  early return after it. The seed of the arguments is not passed on, and the address for the console
  only in builds that have it.\<close>

definition main_start ::
  "bool \<Rightarrow> rs_library \<Rightarrow> ('kp, 'pk, 'g) net_library \<Rightarrow> dial_library \<Rightarrow> log_features \<Rightarrow> 'fs log_library \<Rightarrow> 'fs
   \<Rightarrow> Instant \<Rightarrow> PeerId \<Rightarrow> PeerId \<Rightarrow> (string \<Rightarrow> string \<Rightarrow> string + unit) \<Rightarrow> Args
   \<Rightarrow> (string, ('g, 'ev) launched option) outcome" where
  "main_start oc rs net dl ft logs fs t p1 p2 generate args =
     (if generate_input args
      then (case generate ''input/performance/data.json'' ''input/performance/program.json'' of
              Inl _ \<Rightarrow> Panic | Inr _ \<Rightarrow> Ok None)
      else bind_outcome (encoding_settings oc args) (\<lambda>settings.
        case parse_multiaddr dl (arg_listen_address args) of
          Inl _ \<Rightarrow> Panic
        | Inr listen \<Rightarrow>
            (case network_new oc rs net t p1 p2 None settings (interactive args) listen of
               Ok node \<Rightarrow>
                 (let console_addr = (if console_log ft then console_subscriber_addr args else None) in
                  case fst (configure_logs ft logs (local_peer_id (main_behaviour node)) console_addr fs) of
                    Ok _ \<Rightarrow>
                      (case dial_address args of
                         None \<Rightarrow> Ok (Some node)
                       | Some addr \<Rightarrow>
                           (case parse_multiaddr dl addr of
                              Inl e \<Rightarrow> Err e
                            | Inr remote \<Rightarrow>
                                (case swarm_dial dl remote of Inl e \<Rightarrow> Err e | Inr _ \<Rightarrow> Ok (Some node))))
                  | _ \<Rightarrow> Panic)
             | _ \<Rightarrow> Panic)))"

subsection \<open>The event loop, in \<open>main.rs\<close>\<close>

text \<open>The calls on the swarm \<open>'sw\<close> and its behaviours.\<close>

record 'sw swarm_ops =
  add_address :: "PeerId \<Rightarrow> string \<Rightarrow> 'sw \<Rightarrow> 'sw"
  remove_address :: "PeerId \<Rightarrow> string \<Rightarrow> 'sw \<Rightarrow> 'sw"
  has_node :: "PeerId \<Rightarrow> 'sw \<Rightarrow> bool"
  send_request :: "PeerId \<Rightarrow> Request \<Rightarrow> 'sw \<Rightarrow> RequestId \<times> 'sw"
  send_response :: "ResponseChannel \<Rightarrow> ProtoResponse \<Rightarrow> 'sw \<Rightarrow> bool \<times> 'sw"

record ('sw, 'ev) main_state =
  swarm :: 'sw
  main_bh :: "'ev Behaviour"
  rr_out :: "RrOutEvent sink"
  cancelled :: bool

text \<open>What \<open>select!\<close> takes: an event of the swarm, or an action of the behaviour (\<open>None\<close>: closed). The
  events that are only printed or logged are \<open>OtherSwarm\<close>.\<close>

datatype main_select =
    BehaviourEvent CombinedBehaviourEvent
  | OtherSwarm
  | RrAction "RrInEvent option"

definition stop_main :: "('sw, 'ev) main_state \<Rightarrow> bool \<times> ('sw, 'ev) main_state" where
  "stop_main s = (False, s\<lparr>cancelled := True\<rparr>)"

definition on_discovered :: "'sw swarm_ops \<Rightarrow> (PeerId \<times> string) list \<Rightarrow> ('sw, 'ev) main_state \<Rightarrow> ('sw, 'ev) main_state" where
  "on_discovered ops list s =
     fold (\<lambda>(peer, address) s.
       s\<lparr>main_bh := inject_peer_discovered peer (main_bh s), swarm := add_address ops peer address (swarm s)\<rparr>) list s"

definition on_expired :: "'sw swarm_ops \<Rightarrow> (PeerId \<times> string) list \<Rightarrow> ('sw, 'ev) main_state \<Rightarrow> ('sw, 'ev) main_state" where
  "on_expired ops list s =
     fold (\<lambda>(peer, address) s.
       if \<not> has_node ops peer (swarm s)
       then s\<lparr>main_bh := inject_peer_expired peer (main_bh s), swarm := remove_address ops peer address (swarm s)\<rparr>
       else s) list s"

fun on_action :: "'sw swarm_ops \<Rightarrow> RrInEvent \<Rightarrow> ('sw, 'ev) main_state \<Rightarrow> bool \<times> ('sw, 'ev) main_state" where
  "on_action ops (MakeRequest request to) s =
     (let (request_id, sw) = send_request ops to request (swarm s);
          (ok, c) = sink_send (AssignedRequestId request_id request) (rr_out s);
          s = s\<lparr>swarm := sw, rr_out := c\<rparr>
      in if ok then (True, s) else stop_main s)"
| "on_action ops (Respond request_id channel response) s =
     (let (ok, sw) = send_response ops channel response (swarm s) in (True, s\<lparr>swarm := sw\<rparr>))"

text \<open>One iteration; the first component tells whether the loop goes on.\<close>

fun main_step :: "'sw swarm_ops \<Rightarrow> main_select \<Rightarrow> ('sw, 'ev) main_state \<Rightarrow> bool \<times> ('sw, 'ev) main_state" where
  "main_step ops (BehaviourEvent (MdnsEvent (Discovered list))) s = (True, on_discovered ops list s)"
| "main_step ops (BehaviourEvent (MdnsEvent (Expired list))) s = (True, on_expired ops list s)"
| "main_step ops (BehaviourEvent (RequestResponseEvent e)) s =
     (let (ok, c) = handle_request_response_event e (rr_out s); s = s\<lparr>rr_out := c\<rparr>
      in if ok then (True, s) else stop_main s)"
| "main_step ops (BehaviourEvent (MainEvent CancelSignal)) s = stop_main s"
| "main_step ops (BehaviourEvent (MainEvent UnableToOperate)) s = stop_main s"
| "main_step ops OtherSwarm s = (True, s)"
| "main_step ops (RrAction None) s = stop_main s"
| "main_step ops (RrAction (Some action)) s = on_action ops action s"

fun main_loop :: "'sw swarm_ops \<Rightarrow> main_select list \<Rightarrow> ('sw, 'ev) main_state \<Rightarrow> bool \<times> ('sw, 'ev) main_state" where
  "main_loop ops [] s = (True, s)"
| "main_loop ops (x # xs) s =
     (case main_step ops x s of (True, s) \<Rightarrow> main_loop ops xs s | (False, s) \<Rightarrow> (False, s))"

subsection \<open>Lemmas\<close>

text \<open>The selections after which the loop goes on as long as the behaviour is there.\<close>

fun goes_on :: "main_select \<Rightarrow> bool" where
  "goes_on (BehaviourEvent (MainEvent _)) \<longleftrightarrow> False"
| "goes_on (RrAction None) \<longleftrightarrow> False"
| "goes_on _ \<longleftrightarrow> True"

text \<open>What a selection brings for the behaviour when the swarm is in the given state: a response, an incoming request, or
  the id that the swarm gives to a request. Then the swarm after it.\<close>

fun told :: "'sw swarm_ops \<Rightarrow> main_select \<Rightarrow> 'sw \<Rightarrow> RrOutEvent list" where
  "told ops (BehaviourEvent (RequestResponseEvent (RrMessageEvent peer (MessageResponse request_id response)))) sw =
     [RrResponse request_id response]"
| "told ops (BehaviourEvent (RequestResponseEvent (RrMessageEvent peer (MessageRequest request_id request channel)))) sw =
     [IncomingRequest request_id request channel]"
| "told ops (RrAction (Some (MakeRequest request to))) sw = [AssignedRequestId (fst (send_request ops to request sw)) request]"
| "told ops _ sw = []"

fun swarm_after :: "'sw swarm_ops \<Rightarrow> main_select \<Rightarrow> 'sw \<Rightarrow> 'sw" where
  "swarm_after ops (BehaviourEvent (MdnsEvent (Discovered list))) sw =
     fold (\<lambda>(peer, address). add_address ops peer address) list sw"
| "swarm_after ops (BehaviourEvent (MdnsEvent (Expired list))) sw =
     fold (\<lambda>(peer, address) sw. if has_node ops peer sw then sw else remove_address ops peer address sw) list sw"
| "swarm_after ops (RrAction (Some (MakeRequest request to))) sw = snd (send_request ops to request sw)"
| "swarm_after ops (RrAction (Some (Respond request_id channel response))) sw = snd (send_response ops channel response sw)"
| "swarm_after ops _ sw = sw"

fun told_all :: "'sw swarm_ops \<Rightarrow> main_select list \<Rightarrow> 'sw \<Rightarrow> RrOutEvent list" where
  "told_all ops [] sw = []"
| "told_all ops (x # xs) sw = told ops x sw @ told_all ops xs (swarm_after ops x sw)"

fun discovered_of :: "main_select \<Rightarrow> PeerId list" where
  "discovered_of (BehaviourEvent (MdnsEvent (Discovered list))) = map fst list"
| "discovered_of _ = []"

lemma on_discovered_state:
  "discovered_peers (main_bh (on_discovered ops list s)) = rev (map fst list) @ discovered_peers (main_bh s)
   \<and> rr_out (on_discovered ops list s) = rr_out s \<and> cancelled (on_discovered ops list s) = cancelled s
   \<and> swarm (on_discovered ops list s) = fold (\<lambda>(peer, address). add_address ops peer address) list (swarm s)"
proof (induction list arbitrary: s)
  case (Cons x list)
  have "on_discovered ops (x # list) s = on_discovered ops list
      (s\<lparr>main_bh := inject_peer_discovered (fst x) (main_bh s), swarm := add_address ops (fst x) (snd x) (swarm s)\<rparr>)"
    by (simp add: on_discovered_def case_prod_beta)
  then show ?case by (simp add: Cons inject_peer_discovered_def case_prod_beta)
qed (simp add: on_discovered_def)

lemma on_expired_state:
  "main_bh (on_expired ops list s) = main_bh s \<and> rr_out (on_expired ops list s) = rr_out s
   \<and> cancelled (on_expired ops list s) = cancelled s
   \<and> swarm (on_expired ops list s) =
     fold (\<lambda>(peer, address) sw. if has_node ops peer sw then sw else remove_address ops peer address sw) list (swarm s)"
proof (induction list arbitrary: s)
  case (Cons x list)
  have "on_expired ops (x # list) s = on_expired ops list
      (if \<not> has_node ops (fst x) (swarm s)
       then s\<lparr>main_bh := inject_peer_expired (fst x) (main_bh s), swarm := remove_address ops (fst x) (snd x) (swarm s)\<rparr>
       else s)"
    by (simp add: on_expired_def case_prod_beta)
  then show ?case by (simp add: Cons inject_peer_expired_def case_prod_beta)
qed (simp add: on_expired_def)

lemma rr_event_passed_on:
  "closes_after c = None \<Longrightarrow> handle_request_response_event e c
     = (True, c\<lparr>sent := sent c @ told ops (BehaviourEvent (RequestResponseEvent e)) sw\<rparr>)"
  by (cases "(e, c)" rule: handle_request_response_event.cases) (simp_all add: sink_simps)

lemma action_passed_on:
  "closes_after (rr_out s) = None \<Longrightarrow> on_action ops a s = (True, s\<lparr>swarm := swarm_after ops (RrAction (Some a)) (swarm s),
     rr_out := (rr_out s)\<lparr>sent := sent (rr_out s) @ told ops (RrAction (Some a)) (swarm s)\<rparr>\<rparr>)"
  by (cases a) (simp_all add: sink_simps case_prod_beta)

lemma main_step_goes_on:
  assumes "goes_on x" and "closes_after (rr_out s) = None"
  shows "\<exists>s'. main_step ops x s = (True, s') \<and> cancelled s' = cancelled s \<and> swarm s' = swarm_after ops x (swarm s)
    \<and> rr_out s' = (rr_out s)\<lparr>sent := sent (rr_out s) @ told ops x (swarm s)\<rparr>
    \<and> discovered_peers (main_bh s') = rev (discovered_of x) @ discovered_peers (main_bh s)"
proof (cases "(ops, x, s)" rule: main_step.cases)
  case (1 ops' list s')
  then show ?thesis using on_discovered_state [of ops list s] by simp
next
  case (2 ops' list s')
  then show ?thesis using on_expired_state [of ops list s] by auto
next
  case (3 ops' e s')
  then show ?thesis using rr_event_passed_on [OF assms(2), of e ops "swarm s"] by simp
next
  case (8 ops' action s')
  then show ?thesis using action_passed_on [OF assms(2), of ops action] by simp
qed (use assms(1) in simp_all)

text \<open>What the start constructs.\<close>

lemma main_start_node:
  assumes "main_start oc rs net dl ft logs fs t p1 p2 generate args = Ok (Some node)"
  obtains addr where "network_new oc rs net t p1 p2 None
    \<lparr>data_shards_total = DATA_SHARDS_COUNT + parity_shards args, data_shards_sufficient = DATA_SHARDS_COUNT\<rparr>
    (interactive args) addr = Ok node"
  using assms
  by (auto simp: main_start_def encoding_settings_def Let_def split: if_splits sum.splits outcome.splits option.splits)

lemma network_new_parts:
  assumes "network_new oc rs net t p1 p2 None settings run_ui addr = Ok node"
  shows "UninitializedDataMemory_new oc rs (peer_id_of net (kp_public (key_library net) (generate_keypair net))) settings
      = Ok (data_memory_task node)"
    and "instruction_memory_task node = InstructionMemory_new (unat (data_shards_sufficient settings))"
    and "main_behaviour node = Behaviour_new t t (peer_id_of net (kp_public (key_library net) (generate_keypair net))) 2 12
       (module_channels_new None CHANNEL_BUFFER_LIMIT) (module_channels_new (Some CsReady) CHANNEL_BUFFER_LIMIT)
       (module_channels_new None CHANNEL_BUFFER_LIMIT) (module_channels_new None CHANNEL_BUFFER_LIMIT)
       (module_channels_new (Some Ready_State) CHANNEL_BUFFER_LIMIT) (module_channels_new None CHANNEL_BUFFER_LIMIT)"
    and "request_response_server node = module_channels_new None CHANNEL_BUFFER_LIMIT"
    and "consensus_task node = from_graph p1 p2 (graph_new net
      (peer_id_of net (kp_public (key_library net) (generate_keypair net))) (EventPayload_new [])
      \<lparr>pubkey = from_ed25519_pubkey (key_library net) (kp_public (key_library net) (generate_keypair net))\<rparr> 30
      (Ed25519Signer_new (generate_keypair net)))"
    and "processor_state_cell node = Some Ready_State" and "ui_started node = run_ui" and "\<not> shutdown_token node"
  using assms
  by (auto simp: network_new_def local_keypair_def Let_def module_channels_new_def split: sum.splits outcome.splits)

subsection \<open>Properties\<close>


text \<open>Libraries for the examples: two keys, a trivial graph, and everything succeeds; a swarm that
  numbers the requests.\<close>

abbreviation example_net :: "(bool, bool, unit) net_library" where
  "example_net \<equiv>
     \<lparr>keypair_from_bytes = (\<lambda>_. Inr True), generate_keypair = False, key_library = plain_library,
      peer_id_of = (\<lambda>pk. if pk then 1 else 2), development_transport = (\<lambda>_. Inr ()),
      graph_new = (\<lambda>_ _ _ _ _. ()), mdns_new = (\<lambda>_. Inr ()), listen_on = (\<lambda>_. Inr ())\<rparr>"

abbreviation counting_swarm :: "nat swarm_ops" where
  "counting_swarm \<equiv>
     \<lparr>add_address = (\<lambda>_ _ n. n), remove_address = (\<lambda>_ _ n. n), has_node = (\<lambda>_ _. False),
      send_request = (\<lambda>_ _ n. (n, Suc n)), send_response = (\<lambda>_ _ n. (True, n))\<rparr>"

abbreviation example_args :: Args where
  "example_args \<equiv> \<lparr>interactive = True, generate_input = False, arg_listen_address = [], dial_address = None,
     parity_shards = 1, console_subscriber_addr = None, key_seed = Some 7\<rparr>"


text \<open>C32: the event loop passes everything on. As long as the behaviour is there and reports no error,
  the loop goes on; every response, every incoming request and, for every request of the behaviour, the id that the swarm gave
  it reach the behaviour, each once, in the order of the events and nothing else; the swarm gets every address, request and
  response, and every discovered peer is noted.\<close>

theorem main_loop_passes_on:
  assumes "list_all goes_on xs" and "closes_after (rr_out s) = None"
  shows "\<exists>s'. main_loop ops xs s = (True, s') \<and> cancelled s' = cancelled s
    \<and> sent (rr_out s') = sent (rr_out s) @ told_all ops xs (swarm s)
    \<and> swarm s' = fold (swarm_after ops) xs (swarm s)
    \<and> discovered_peers (main_bh s') = rev (concat (map discovered_of xs)) @ discovered_peers (main_bh s)"
  using assms
proof (induction xs arbitrary: s)
  case (Cons x xs)
  then have x: "goes_on x" "list_all goes_on xs" by auto
  obtain s1 where s1: "main_step ops x s = (True, s1)" "cancelled s1 = cancelled s" "swarm s1 = swarm_after ops x (swarm s)"
    "rr_out s1 = (rr_out s)\<lparr>sent := sent (rr_out s) @ told ops x (swarm s)\<rparr>"
    "discovered_peers (main_bh s1) = rev (discovered_of x) @ discovered_peers (main_bh s)"
    using main_step_goes_on [OF x(1) Cons.prems(2)] by blast
  then have "closes_after (rr_out s1) = None" using Cons.prems(2) by simp
  with Cons.IH [OF x(2), of s1] s1 show ?case by auto
qed simp

abbreviation example_main :: "(nat, nat) main_state" where
  "example_main \<equiv> \<lparr>swarm = 5, main_bh = example_behaviour, rr_out = open_sink, cancelled = False\<rparr>"

theorem main_loop_passes_on_witness:
  "\<exists>s'. main_loop counting_swarm
       [RrAction (Some (MakeRequest (GetShard (Vid 1, Sid 0)) 2)),
        RrAction (Some (MakeRequest (GetShard (Vid 1, Sid 1)) 3)),
        BehaviourEvent (RequestResponseEvent (RrMessageEvent 2 (MessageResponse 5 (GetShardResponse None))))] example_main = (True, s')
     \<and> sent (rr_out s') = [AssignedRequestId 5 (GetShard (Vid 1, Sid 0)), AssignedRequestId 6 (GetShard (Vid 1, Sid 1)),
         RrResponse 5 (GetShardResponse None)]"
  using main_loop_passes_on [of
       "[RrAction (Some (MakeRequest (GetShard (Vid 1, Sid 0)) 2)),
        RrAction (Some (MakeRequest (GetShard (Vid 1, Sid 1)) 3)),
        BehaviourEvent (RequestResponseEvent (RrMessageEvent 2 (MessageResponse 5 (GetShardResponse None))))]"
       example_main counting_swarm]
  by (auto simp del: main_loop.simps)

text \<open>The loop ends exactly when the behaviour reports an error, has closed its channel, or is gone
  when it should be told something, and then the shutdown token of all modules is cancelled; no
  other event cancels it.\<close>

lemma main_step_stops:
  assumes "main_step ops x s = (go, s')"
  shows "(\<not> go \<longleftrightarrow> \<not> goes_on x
      \<or> closes_after (rr_out s) = Some 0 \<and> told ops x (swarm s) \<noteq> [])
    \<and> cancelled s' = (cancelled s \<or> \<not> go)"
proof (cases "(ops, x, s)" rule: main_step.cases)
  case (3 ops' e s1)
  then show ?thesis using assms
    by (cases "(e, rr_out s)" rule: handle_request_response_event.cases)
      (auto simp: stop_main_def sink_send_def split: option.splits nat.splits)
next
  case (8 ops' action s1)
  then show ?thesis using assms
    by (cases action) (auto simp: stop_main_def sink_send_def split: prod.splits option.splits nat.splits)
qed (use assms on_discovered_state [of ops] on_expired_state [of ops] in \<open>auto simp: stop_main_def\<close>)

text \<open>The seed that the arguments carry has no effect.\<close>

lemma key_seed_unused:
  "main_start oc rs net dl ft logs fs t p1 p2 generate (args\<lparr>key_seed := seed\<rparr>)
   = main_start oc rs net dl ft logs fs t p1 p2 generate args"
  by (simp add: main_start_def encoding_settings_def split: sum.split outcome.split)

end
