(* ===== verification/Swarm_Traffic.thy ===== *)
theory Swarm_Traffic
  imports Swarm_Poll Swarm_Recollection
begin

text \<open>
  What travels between the main behaviour, its data memory, its user and the network, against the
  content of the system: \<open>traffic_ok\<close> says that everything in the channels and tables of a behaviour is
  true to the content, and the poll keeps it so, whatever the other modules say.
\<close>

subsection \<open>Faithful traffic\<close>

text \<open>\<open>req\<close> gives the request of a number. Everything that travels is true to the content.\<close>

fun faithful_response ::
  "array_feature \<Rightarrow> ReedSolomonWrapper \<Rightarrow> (Vid \<Rightarrow> Data option) \<Rightarrow> Request \<Rightarrow> ProtoResponse \<Rightarrow> bool" where
  "faithful_response ft w content (GetShard fid) (GetShardResponse (Some s)) \<longleftrightarrow> faithful_shard ft w content fid s"
| "faithful_response ft w content (ServeShard fid) (ServeShardResponse (Some s)) \<longleftrightarrow> faithful_shard ft w content fid s"
| "faithful_response ft w content _ _ \<longleftrightarrow> True"

fun faithful_ui_in :: "(Vid \<Rightarrow> Data option) \<Rightarrow> UiInEvent \<Rightarrow> bool" where
  "faithful_ui_in content (Put v d) \<longleftrightarrow> content v = Some d"
| "faithful_ui_in content _ \<longleftrightarrow> True"

fun faithful_ui_out :: "(Vid \<Rightarrow> Data option) \<Rightarrow> UiOutEvent \<Rightarrow> bool" where
  "faithful_ui_out content (GetResponse (Inr (v, d))) \<longleftrightarrow> content v = Some d"
| "faithful_ui_out content _ \<longleftrightarrow> True"

definition answers ::
  "array_feature \<Rightarrow> ReedSolomonWrapper \<Rightarrow> (Vid \<Rightarrow> Data option) \<Rightarrow> (nat \<Rightarrow> Request option) \<Rightarrow> nat \<Rightarrow> ProtoResponse \<Rightarrow> bool" where
  "answers ft w content req k response \<longleftrightarrow>
     (\<exists>request. req k = Some request \<and> faithful_response ft w content request response)"

fun rr_out_ok ::
  "array_feature \<Rightarrow> ReedSolomonWrapper \<Rightarrow> (Vid \<Rightarrow> Data option) \<Rightarrow> (nat \<Rightarrow> Request option) \<Rightarrow> RrOutEvent \<Rightarrow> bool" where
  "rr_out_ok ft w content req (AssignedRequestId request_id request) \<longleftrightarrow> req request_id = Some request"
| "rr_out_ok ft w content req (RrResponse request_id response) \<longleftrightarrow> answers ft w content req request_id response"
| "rr_out_ok ft w content req (IncomingRequest request_id request channel) \<longleftrightarrow> req channel = Some request"

fun rr_in_ok ::
  "array_feature \<Rightarrow> ReedSolomonWrapper \<Rightarrow> (Vid \<Rightarrow> Data option) \<Rightarrow> (nat \<Rightarrow> Request option) \<Rightarrow> RrInEvent \<Rightarrow> bool" where
  "rr_in_ok ft w content req (MakeRequest request to) \<longleftrightarrow> True"
| "rr_in_ok ft w content req (Respond request_id channel response) \<longleftrightarrow> answers ft w content req channel response"

definition traffic_ok ::
  "array_feature \<Rightarrow> ReedSolomonWrapper \<Rightarrow> (Vid \<Rightarrow> Data option) \<Rightarrow> (nat \<Rightarrow> Request option) \<Rightarrow> 'ev Behaviour \<Rightarrow> bool" where
  "traffic_ok ft w content req b \<longleftrightarrow>
     list_all (faithful_in ft w content) (queue (data_input b))
     \<and> list_all (faithful_out ft w content) (queue (data_output b))
     \<and> list_all (faithful_ui_in content) (queue (user_input b))
     \<and> list_all (faithful_ui_out content) (queue (user_output b))
     \<and> list_all (rr_out_ok ft w content req) (queue (rr_output b))
     \<and> list_all (rr_in_ok ft w content req) (queue (rr_input b))
     \<and> (\<forall>i r. fmlookup (pending_response b) i = Some r \<longrightarrow> req i = Some r)
     \<and> (\<forall>r i ch. (i, ch) \<in> set (waiting r b) \<longrightarrow> req ch = Some r)"

subsection \<open>Steps that keep a property of the state\<close>

abbreviation preserves :: "('ev Behaviour \<Rightarrow> bool) \<Rightarrow> 'ev bh_step \<Rightarrow> bool" where
  "preserves I f \<equiv> triple I f I (\<lambda>_. I)"

lemma preservesD: "preserves I f \<Longrightarrow> I b \<Longrightarrow> f b = (r, b') \<Longrightarrow> I b'"
  by (cases r) (auto dest: triple_goes_on triple_returns)

lemma preservesI: "(\<And>b r b'. I b \<Longrightarrow> f b = (r, b') \<Longrightarrow> I b') \<Longrightarrow> preserves I f"
  by (rule tripleI)

subsection \<open>The poll keeps the traffic faithful\<close>

interpretation traffic: poll_steps "traffic_ok ft w content req" "\<lambda>_. traffic_ok ft w content req"
    "\<lambda>_. True" "faithful_in ft w content" "\<lambda>_. True" "\<lambda>_. True" "faithful_ui_out content" "rr_in_ok ft w content req"
  for ft w content req
  by unfold_locales (simp_all add: traffic_ok_def waiting_def)

lemma traffic_answer_request:
  assumes "faithful_response ft w content request response"
  shows "preserves (traffic_ok ft w content req) (answer_request request response)"
proof (rule preservesI)
  fix b :: "'a Behaviour" and r b'
  assume b: "traffic_ok ft w content req b" and r: "answer_request request response b = (r, b')"
  let ?b = "b\<lparr>processed_requests := fmdrop request (processed_requests b)\<rparr>"
  have "waiting r' ?b = (if r' = request then [] else waiting r' b)" for r'
    by (simp add: waiting_def)
  with b have "traffic_ok ft w content req ?b" by (simp add: traffic_ok_def)
  moreover have "list_all (\<lambda>(i, ch). rr_in_ok ft w content req (Respond i ch response)) (waiting request b)"
    using b assms by (fastforce simp: traffic_ok_def answers_def list_all_iff)
  moreover have "respond_all response (waiting request b) ?b = (r, b')"
    using r by (simp add: answer_request_def waiting_def)
  ultimately show "traffic_ok ft w content req b'" using preservesD [OF traffic.respond_all] by blast
qed

lemma traffic_data_memory_event:
  assumes "faithful_out ft w content d"
  shows "preserves (traffic_ok ft w content req) (on_data_memory_event env d)"
proof (rule traffic.data_memory_event)
  show "list_all (rr_in_ok ft w content req) (dm_to_network d)" by (cases d) simp_all
  show "list_all (faithful_ui_out content) (dm_to_user d)"
  proof (cases d)
    case (RecollectResponse x)
    with assms show ?thesis by (cases x) auto
  qed simp_all
  show "preserves (traffic_ok ft w content req) (answer_request r x)" if "dm_to_answer d = Some (r, x)" for r x
  proof (rule traffic_answer_request)
    show "faithful_response ft w content r x" using that assms
      by (cases "(ft, w, content, r, x)" rule: faithful_response.cases; cases d) auto
  qed
qed simp

lemma traffic_consensus_event: "preserves (traffic_ok ft w content req) (on_consensus_event env c)"
proof (rule traffic.consensus_event)
  have "list_all (faithful_in ft w content) (tx_to_data_memory p tx)" for p tx by (cases tx) simp_all
  then show "list_all (faithful_in ft w content) (cs_to_data_memory c)" by (cases c) simp_all
qed (simp_all add: list_all_iff)

lemma traffic_rr_response:
  fixes b :: "'ev Behaviour"
  assumes "answers ft w content req i response" and b: "traffic_ok ft w content req b" "on_rr_event (RrResponse i response) b = (x, b')"
  shows "traffic_ok ft w content req b'"
proof -
  obtain request where req: "req i = Some request" "faithful_response ft w content request response"
    using assms(1) by (auto simp: answers_def)
  have pending: "fmlookup (pending_response b) i = Some r \<Longrightarrow> r = request" for r
    using b(1) req(1) by (fastforce simp: traffic_ok_def)
  note send = preservesD [OF traffic.sends(2) b(1)]
  show ?thesis
    using b pending req(2) send
    by (cases response; cases "case response of GetShardResponse y \<Rightarrow> y | ServeShardResponse y \<Rightarrow> y")
      (auto split: option.splits Request.splits, (erule send [rotated], simp)+)
qed

lemma traffic_rr_request:
  fixes b :: "'ev Behaviour"
  assumes req: "req ch = Some request"
    and b: "traffic_ok ft w content req b" "on_rr_event (IncomingRequest i request ch) b = (x, b')"
  shows "traffic_ok ft w content req b'"
proof -
  let ?e = "case request of GetShard fid \<Rightarrow> InAssignedRequest fid | ServeShard fid \<Rightarrow> InServeShardRequest fid"
  obtain y b1 where b1: "to_data_memory ?e b = (y, b1)" by force
  have "faithful_in ft w content ?e" by (cases request) simp_all
  then have ok: "traffic_ok ft w content req b1" using preservesD [OF traffic.sends(2) b(1)] b1 by blast
  show ?thesis
  proof (cases y)
    case None
    then have b': "b' = b1\<lparr>processed_requests := fmupd request (waiting request b1 @ [(i, ch)]) (processed_requests b1)\<rparr>"
      using b(2) b1 by (simp add: and_then_def waiting_def)
    then have "waiting r b' = (if r = request then waiting request b1 @ [(i, ch)] else waiting r b1)" for r
      by (simp add: waiting_def)
    then show ?thesis using ok b' req by (auto simp: traffic_ok_def split: if_splits)
  next
    case (Some z)
    then show ?thesis using b(2) b1 ok by (simp add: and_then_def)
  qed
qed

lemma traffic_rr_event:
  assumes "rr_out_ok ft w content req e"
  shows "preserves (traffic_ok ft w content req) (on_rr_event e)"
proof (cases e)
  case (AssignedRequestId i r)
  with assms show ?thesis by (auto simp: triple_def traffic_ok_def waiting_def split: if_splits)
next
  case (RrResponse i response)
  with assms show ?thesis by (auto intro!: preservesI elim!: traffic_rr_response [rotated] simp del: on_rr_event.simps)
next
  case (IncomingRequest i request ch)
  with assms show ?thesis by (auto intro!: preservesI elim!: traffic_rr_request [rotated] simp del: on_rr_event.simps)
qed

text \<open>The whole poll.\<close>

interpretation traffic_poll: poll_contract env "traffic_ok ft w content req" "\<lambda>_. traffic_ok ft w content req"
  for env ft w content req
proof
  let ?I = "traffic_ok ft w content req"
  show "triple (taken data_output data_output_update ?I d) (on_data_memory_event env d) ?I (\<lambda>_. ?I)" for d
    by (rule triple_taken [of _ _ _ "faithful_out ft w content d" ?I, OF _ traffic_data_memory_event])
      (simp_all add: traffic_ok_def waiting_def)
  show "triple (taken user_input user_input_update ?I u) (on_user_event env u) ?I (\<lambda>_. ?I)" for u
    by (rule triple_taken [of _ _ _ "faithful_ui_in content u" ?I, OF _ traffic.user_event])
      (cases u; simp_all add: traffic_ok_def waiting_def)+
  show "triple (taken rr_output rr_output_update ?I n) (on_rr_event n) ?I (\<lambda>_. ?I)" for n
    by (rule triple_taken [of _ _ _ "rr_out_ok ft w content req n" ?I, OF _ traffic_rr_event])
      (simp_all add: traffic_ok_def waiting_def)
  show "triple (taken instruction_output instruction_output_update ?I i) (on_instruction_event i) ?I (\<lambda>_. ?I)" for i
    by (rule triple_taken [of _ _ _ True ?I, OF _ traffic.instruction_event])
      (cases i; simp_all add: traffic_ok_def waiting_def)+
  show "triple (taken processor_output processor_output_update ?I f) (on_processor_event env f) ?I (\<lambda>_. ?I)" for f
    by (rule triple_taken [of _ _ _ True ?I, OF _ traffic.processor_event])
      (simp_all add: traffic_ok_def waiting_def)
  show "traffic_ok ft w content req b" if "traffic_ok ft w content req b" for b :: "'a Behaviour" by (rule that)
  show "traffic_ok ft w content req (b\<lparr>discovered_peers := ps\<rparr>)" if "traffic_ok ft w content req b" for b :: "'a Behaviour" and ps
    using that by (simp add: traffic_ok_def waiting_def)
  show "triple (taken consensus_output consensus_output_update ?I c) (on_consensus_event env c) ?I (\<lambda>_. ?I)" for c
    by (rule triple_taken [of _ _ _ True ?I, OF _ traffic_consensus_event])
      (simp_all add: traffic_ok_def waiting_def)
qed (rule traffic.messages traffic.oneshot traffic.gossip, assumption?)+

lemma traffic_poll:
  assumes "traffic_ok ft w content req b"
  shows "traffic_ok ft w content req (snd (bh_poll env b))"
  using traffic_poll.poll [OF assms, of env] by (cases "bh_poll env b") auto

end
