(* ===== verification/Swarm_Cluster.thy ===== *)
theory Swarm_Cluster
  imports Swarm_Main Swarm_Traffic
begin

text \<open>
  Several nodes and the network between them. A node is its main behaviour, its data memory and its
  event loop, composed over the channels they share; the network carries requests and responses and
  may delay, lose and repeat them. Consensus, instruction memory and processor may say anything at
  any time, and the choice of the next step is arbitrary. The theorem says that, whatever happens,
  nobody is ever given wrong data.
\<close>

subsection \<open>State\<close>

text \<open>Requests are numbered in the order they were made: the number serves as request id and as
  response channel, which are opaque to the nodes.\<close>

record network =
  requests :: "(PeerId \<times> PeerId \<times> Request) list"
  responses :: "(nat \<times> ProtoResponse) list"

record 'ev node =
  bh :: "'ev Behaviour"
  mem :: "UninitializedDataMemory + InitializedDataMemory"
  mem_up :: bool
  main_up :: bool
  crashed :: bool
  shown :: "UiOutEvent list"

record 'ev cluster =
  nodes :: "PeerId \<Rightarrow> 'ev node"
  net :: network

definition cluster_swarm :: "PeerId \<Rightarrow> network swarm_ops" where
  "cluster_swarm own =
     \<lparr>add_address = (\<lambda>_ _ nw. nw), remove_address = (\<lambda>_ _ nw. nw), has_node = (\<lambda>_ _. False),
      send_request = (\<lambda>to request nw. (length (requests nw), nw\<lparr>requests := requests nw @ [(own, to, request)]\<rparr>)),
      send_response = (\<lambda>channel response nw. (True, nw\<lparr>responses := responses nw @ [(channel, response)]\<rparr>))\<rparr>"

definition node_start :: "ReedSolomonWrapper \<Rightarrow> PeerId \<Rightarrow> 'ev node" where
  "node_start w p =
     \<lparr>bh = Behaviour_new 0 0 p 2 12 (module_channels_new None CHANNEL_BUFFER_LIMIT)
        (module_channels_new (Some CsReady) CHANNEL_BUFFER_LIMIT) (module_channels_new None CHANNEL_BUFFER_LIMIT)
        (module_channels_new None CHANNEL_BUFFER_LIMIT) (module_channels_new (Some Ready_State) CHANNEL_BUFFER_LIMIT)
        (module_channels_new None CHANNEL_BUFFER_LIMIT),
      mem = Inl \<lparr>un_encoding = w, un_local_id = p\<rparr>, mem_up = True, main_up = True, crashed = False, shown = []\<rparr>"

definition cluster_start :: "ReedSolomonWrapper \<Rightarrow> 'ev cluster" where
  "cluster_start w = \<lparr>nodes = node_start w, net = \<lparr>requests = [], responses = []\<rparr>\<rparr>"

subsection \<open>Steps\<close>

text \<open>The data memory takes the next event of its channel. What it sends is appended to its output; when
  it ends, its halves of the channels are gone.\<close>

definition push_data_output :: "DmOutEvent list \<Rightarrow> 'ev Behaviour \<Rightarrow> 'ev Behaviour" where
  "push_data_output es b = b\<lparr>data_output := (data_output b)\<lparr>queue := queue (data_output b) @ es\<rparr>\<rparr>"

definition mem_gone :: "'ev Behaviour \<Rightarrow> 'ev Behaviour" where
  "mem_gone b = b\<lparr>data_input := (data_input b)\<lparr>rx_alive := False\<rparr>, data_output := (data_output b)\<lparr>tx_alive := False\<rparr>\<rparr>"

definition mem_takes :: "dm_env \<Rightarrow> 'ev node \<Rightarrow> 'ev node" where
  "mem_takes env n =
     (case queue (data_input (bh n)) of
        [] \<Rightarrow> n
      | e # es \<Rightarrow>
          if \<not> mem_up n then n
          else
            let b = (bh n)\<lparr>data_input := (data_input (bh n))\<lparr>queue := es\<rparr>\<rparr> in
            (case mem n of
               Inl un \<Rightarrow>
                 (case un_run_step (DmInput (Some e)) un open_sink of
                    (UnContinue, c) \<Rightarrow> n\<lparr>bh := push_data_output (sent c) b\<rparr>
                  | (UnClosed, c) \<Rightarrow> n\<lparr>bh := mem_gone (push_data_output (sent c) b), mem_up := False\<rparr>
                  | (UnInit dm, c) \<Rightarrow> n\<lparr>bh := push_data_output (sent c) b, mem := Inr dm\<rparr>)
             | Inr dm \<Rightarrow>
                 (case dm_event env e (dm, open_sink) of
                    (Dm_Continue, dm, c) \<Rightarrow> n\<lparr>bh := push_data_output (sent c) b, mem := Inr dm\<rparr>
                  | (ctl, dm, c) \<Rightarrow>
                      n\<lparr>bh := mem_gone (push_data_output (sent c) b), mem := Inr dm, mem_up := False,
                        crashed := (crashed n \<or> ctl = Dm_Panic)\<rparr>)))"

text \<open>The swarm polls the behaviour; an error it reports ends the event loop.\<close>

definition bh_takes :: "bh_env \<Rightarrow> 'ev node \<Rightarrow> 'ev node" where
  "bh_takes env n =
     (if \<not> main_up n then n
      else
        let (r, b) = bh_poll env (bh n) in
        (case r of
           GenerateError _ \<Rightarrow> n\<lparr>bh := b, main_up := False\<rparr>
         | PollPanic \<Rightarrow> n\<lparr>bh := b, main_up := False, crashed := True\<rparr>
         | _ \<Rightarrow> n\<lparr>bh := b\<rparr>))"

text \<open>The event loop makes one step; what it sends is appended to the output of the request-response
  module.\<close>

definition main_takes :: "PeerId \<Rightarrow> main_select \<Rightarrow> 'ev node \<times> network \<Rightarrow> 'ev node \<times> network" where
  "main_takes p x nn =
     (let (n, nw) = nn in
      if \<not> main_up n then nn
      else
        let (go, s) = main_step (cluster_swarm p) x
              \<lparr>swarm = nw, main_bh = bh n, rr_out = open_sink, cancelled = False\<rparr>;
            b = main_bh s
        in (n\<lparr>bh := b\<lparr>rr_output := (rr_output b)\<lparr>queue := queue (rr_output b) @ sent (rr_out s)\<rparr>\<rparr>, main_up := go\<rparr>, swarm s))"

definition action_takes :: "PeerId \<Rightarrow> 'ev node \<times> network \<Rightarrow> 'ev node \<times> network" where
  "action_takes p nn =
     (let (n, nw) = nn in
      case queue (rr_input (bh n)) of
        [] \<Rightarrow> nn
      | a # as \<Rightarrow>
          if \<not> main_up n then nn
          else main_takes p (RrAction (Some a))
            (n\<lparr>bh := (bh n)\<lparr>rr_input := (rr_input (bh n))\<lparr>queue := as\<rparr>\<rparr>\<rparr>, nw))"

text \<open>What can happen: the tasks of a node take a step, the network delivers, the user types or reads,
  the other modules speak or listen, connections and gossip come in.\<close>

datatype 'ev action =
    BhPoll PeerId bh_env
  | MemTakes PeerId dm_env
  | MainTakes PeerId
  | DeliverRequest nat
  | DeliverResponse nat
  | UserSays PeerId UiInEvent
  | UserReads PeerId
  | ConsensusSays PeerId "'ev CsOutEvent"
  | InstructionsSay PeerId IsOutEvent
  | ProcessorSays PeerId ProcOutEvent
  | TasksTake PeerId
  | SwarmSays PeerId swarm_event
  | GossipComes PeerId PeerId "'ev InnerMessage"

definition at_node :: "PeerId \<Rightarrow> ('ev node \<Rightarrow> 'ev node) \<Rightarrow> 'ev cluster \<Rightarrow> 'ev cluster" where
  "at_node p f cl = cl\<lparr>nodes := (nodes cl)(p := f (nodes cl p))\<rparr>"

definition at_behaviour :: "PeerId \<Rightarrow> ('ev Behaviour \<Rightarrow> 'ev Behaviour) \<Rightarrow> 'ev cluster \<Rightarrow> 'ev cluster" where
  "at_behaviour p f = at_node p (\<lambda>n. n\<lparr>bh := f (bh n)\<rparr>)"

definition with_net :: "PeerId \<Rightarrow> ('ev node \<times> network \<Rightarrow> 'ev node \<times> network) \<Rightarrow> 'ev cluster \<Rightarrow> 'ev cluster" where
  "with_net p f cl = (let (n, nw) = f (nodes cl p, net cl) in \<lparr>nodes = (nodes cl)(p := n), net = nw\<rparr>)"

definition push_queue :: "'a \<Rightarrow> 'a chan \<Rightarrow> 'a chan" where
  "push_queue x ch = ch\<lparr>queue := queue ch @ [x]\<rparr>"

definition empty_queue :: "'a chan \<Rightarrow> 'a chan" where
  "empty_queue ch = ch\<lparr>queue := []\<rparr>"

fun cluster_step :: "'ev action \<Rightarrow> 'ev cluster \<Rightarrow> 'ev cluster" where
  "cluster_step (BhPoll p env) cl = at_node p (bh_takes env) cl"
| "cluster_step (MemTakes p env) cl = at_node p (mem_takes env) cl"
| "cluster_step (MainTakes p) cl = with_net p (action_takes p) cl"
| "cluster_step (DeliverRequest k) cl =
     (if k < length (requests (net cl))
      then (case requests (net cl) ! k of (from, to, request) \<Rightarrow>
              with_net to (main_takes to (BehaviourEvent (RequestResponseEvent
                (RrMessageEvent from (MessageRequest k request k))))) cl)
      else cl)"
| "cluster_step (DeliverResponse j) cl =
     (if j < length (responses (net cl))
      then (case responses (net cl) ! j of (k, response) \<Rightarrow>
              if k < length (requests (net cl))
              then (case requests (net cl) ! k of (from, to, request) \<Rightarrow>
                      with_net from (main_takes from (BehaviourEvent (RequestResponseEvent
                        (RrMessageEvent to (MessageResponse k response))))) cl)
              else cl)
      else cl)"
| "cluster_step (UserSays p e) cl = at_behaviour p (user_input_update (push_queue e)) cl"
| "cluster_step (UserReads p) cl =
     at_node p (\<lambda>n. n\<lparr>shown := shown n @ queue (user_output (bh n)), bh := user_output_update empty_queue (bh n)\<rparr>) cl"
| "cluster_step (ConsensusSays p e) cl = at_behaviour p (consensus_output_update (push_queue e)) cl"
| "cluster_step (InstructionsSay p e) cl = at_behaviour p (instruction_output_update (push_queue e)) cl"
| "cluster_step (ProcessorSays p e) cl = at_behaviour p (processor_output_update (push_queue e)) cl"
| "cluster_step (TasksTake p) cl =
     at_behaviour p (\<lambda>b. consensus_input_update empty_queue
       (instruction_input_update empty_queue (processor_input_update empty_queue b))) cl"
| "cluster_step (SwarmSays p e) cl = at_behaviour p (on_swarm_event e) cl"
| "cluster_step (GossipComes p peer m) cl = at_behaviour p (on_connection_handler_event peer m) cl"

definition cluster_run :: "'ev action list \<Rightarrow> 'ev cluster \<Rightarrow> 'ev cluster" where
  "cluster_run acts cl = fold cluster_step acts cl"

subsection \<open>The invariant of the cluster\<close>

definition request_of :: "network \<Rightarrow> nat \<Rightarrow> Request option" where
  "request_of nw k = (if k < length (requests nw) then Some (snd (snd (requests nw ! k))) else None)"

definition mem_ok ::
  "array_feature \<Rightarrow> ReedSolomonWrapper \<Rightarrow> (Vid \<Rightarrow> Data option) \<Rightarrow> UninitializedDataMemory + InitializedDataMemory \<Rightarrow> bool" where
  "mem_ok ft w content m =
     (case m of Inl un \<Rightarrow> un_encoding un = w | Inr dm \<Rightarrow> encoding dm = w \<and> dm_faithful ft content dm)"

definition node_ok ::
  "array_feature \<Rightarrow> ReedSolomonWrapper \<Rightarrow> (Vid \<Rightarrow> Data option) \<Rightarrow> (nat \<Rightarrow> Request option) \<Rightarrow> 'ev node \<Rightarrow> bool" where
  "node_ok ft w content req n \<longleftrightarrow>
     traffic_ok ft w content req (bh n) \<and> timer_ok (bh n) \<and> mem_ok ft w content (mem n)
     \<and> list_all (faithful_ui_out content) (shown n) \<and> \<not> crashed n"

definition net_ok :: "array_feature \<Rightarrow> ReedSolomonWrapper \<Rightarrow> (Vid \<Rightarrow> Data option) \<Rightarrow> network \<Rightarrow> bool" where
  "net_ok ft w content nw \<longleftrightarrow> list_all (\<lambda>(k, r). answers ft w content (request_of nw) k r) (responses nw)"

definition cluster_ok ::
  "array_feature \<Rightarrow> ReedSolomonWrapper \<Rightarrow> (Vid \<Rightarrow> Data option) \<Rightarrow> 'ev cluster \<Rightarrow> bool" where
  "cluster_ok ft w content cl \<longleftrightarrow>
     (\<forall>p. node_ok ft w content (request_of (net cl)) (nodes cl p))
     \<and> net_ok ft w content (net cl)"

text \<open>The steps of the theorem: users put only the data of the content, and the environments are in
  order.\<close>

fun allowed :: "array_feature \<Rightarrow> ReedSolomonWrapper \<Rightarrow> (Vid \<Rightarrow> Data option) \<Rightarrow> 'ev action \<Rightarrow> bool" where
  "allowed ft w content (BhPoll p env) \<longleftrightarrow> env_ok env"
| "allowed ft w content (MemTakes p env) \<longleftrightarrow> feature env = ft \<and> rs_wrapper w (shards_order env)"
| "allowed ft w content (UserSays p e) \<longleftrightarrow> faithful_ui_in content e"
| "allowed ft w content _ \<longleftrightarrow> True"

lemma answers_mono:
  "(\<And>k r. req k = Some r \<Longrightarrow> req' k = Some r) \<Longrightarrow> answers ft w content req k x \<Longrightarrow> answers ft w content req' k x"
  by (auto simp: answers_def)

lemma traffic_mono:
  assumes mono: "\<And>k r. req k = Some r \<Longrightarrow> req' k = Some r" and ok: "traffic_ok ft w content req b"
  shows "traffic_ok ft w content req' b"
proof -
  have "rr_out_ok ft w content req e \<Longrightarrow> rr_out_ok ft w content req' e" for e
    by (cases e) (auto simp: mono intro: answers_mono [of req req', OF mono])
  moreover have "rr_in_ok ft w content req e \<Longrightarrow> rr_in_ok ft w content req' e" for e
    by (cases e) (auto intro: answers_mono [of req req', OF mono])
  ultimately show ?thesis using ok mono unfolding traffic_ok_def by (auto elim!: list.pred_mono_strong)
qed

lemma node_mono:
  "(\<And>k r. req k = Some r \<Longrightarrow> req' k = Some r) \<Longrightarrow> node_ok ft w content req n \<Longrightarrow> node_ok ft w content req' n"
  by (auto simp: node_ok_def intro: traffic_mono [of req req'])

lemma bh_takes_ok:
  assumes "env_ok env" and "node_ok ft w content req n"
  shows "node_ok ft w content req (bh_takes env n)"
proof -
  obtain r b where r: "bh_poll env (bh n) = (r, b)" by force
  have "r \<noteq> PollPanic \<and> timer_ok b"
    using poll_no_panic [OF assms(1), of "bh n"] assms(2) r by (simp add: node_ok_def)
  moreover have "traffic_ok ft w content req b"
    using traffic_poll [of ft w content req "bh n" env] assms(2) r by (simp add: node_ok_def)
  ultimately show ?thesis
    using assms(2) r by (auto simp: bh_takes_def node_ok_def Let_def split: bh_result.splits)
qed

lemma mem_takes_ok:
  assumes mem: "content_memory w env content" and ok: "node_ok (feature env) w content req n"
  shows "node_ok (feature env) w content req (mem_takes env n)"
proof (cases "queue (data_input (bh n)) = [] \<or> \<not> mem_up n")
  case False
  then obtain e es where q: "queue (data_input (bh n)) = e # es" and up: "mem_up n"
    by (auto simp: neq_Nil_conv)
  let ?b = "(bh n)\<lparr>data_input := (data_input (bh n))\<lparr>queue := es\<rparr>\<rparr>"
  have e: "faithful_in (feature env) w content e" using ok q by (simp add: node_ok_def traffic_ok_def)
  have push: "traffic_ok (feature env) w content req (push_data_output os ?b)"
      "traffic_ok (feature env) w content req (mem_gone (push_data_output os ?b))"
    if "list_all (faithful_out (feature env) w content) os" for os
    using ok q that by (simp_all add: node_ok_def traffic_ok_def push_data_output_def mem_gone_def waiting_def)
  have timer: "timer_ok (push_data_output os ?b)" "timer_ok (mem_gone (push_data_output os ?b))" for os
    using ok by (simp_all add: node_ok_def timer_ok_def push_data_output_def mem_gone_def)
  show ?thesis
  proof (cases "mem n")
    case (Inl un)
    obtain r c where r: "un_run_step (DmInput (Some e)) un open_sink = (r, c)" by force
    have un: "un_encoding un = w" using ok Inl by (simp add: node_ok_def mem_ok_def)
    have out: "list_all (faithful_out (feature env) w content) (sent c)
        \<and> (\<forall>dm. r = UnInit dm \<longrightarrow> encoding dm = w \<and> dm_faithful (feature env) content dm)"
      using r un
      by (cases e) (auto simp: sink_simps Let_def initialize_def dm_faithful_def faithful_map_def hm_get2_def split: if_splits)
    then show ?thesis
      using ok q up Inl r push timer
      by (auto simp: mem_takes_def Let_def node_ok_def mem_ok_def split: un_result.splits)
  next
    case (Inr dm)
    obtain ctl dm' c where r: "dm_event env e (dm, open_sink) = (ctl, dm', c)" by (metis prod_cases3)
    have dm: "encoding dm = w" "conf_faithful (feature env) content (dm, open_sink)"
      using ok Inr by (simp_all add: node_ok_def mem_ok_def)
    have "conf_faithful (feature env) content (dm', c) \<and> ctl \<noteq> Dm_Panic"
      by (rule content_memory.dm_event_faithful [OF mem dm e r])
    moreover have "encoding dm' = w" using dm_fixed_sel [OF dm_event_fixed [OF r]] dm(1) by simp
    ultimately show ?thesis
      using ok q up Inr r push timer
      by (auto simp: mem_takes_def Let_def node_ok_def mem_ok_def split: dm_ctl.splits)
  qed
qed (use ok in \<open>auto simp: mem_takes_def split: list.splits\<close>)

fun select_ok ::
  "array_feature \<Rightarrow> ReedSolomonWrapper \<Rightarrow> (Vid \<Rightarrow> Data option) \<Rightarrow> (nat \<Rightarrow> Request option) \<Rightarrow> main_select \<Rightarrow> bool" where
  "select_ok ft w content req (BehaviourEvent (RequestResponseEvent (RrMessageEvent peer (MessageRequest i request channel))))
     \<longleftrightarrow> req channel = Some request"
| "select_ok ft w content req (BehaviourEvent (RequestResponseEvent (RrMessageEvent peer (MessageResponse i response))))
     \<longleftrightarrow> answers ft w content req i response"
| "select_ok ft w content req (RrAction (Some action)) \<longleftrightarrow> rr_in_ok ft w content req action"
| "select_ok ft w content req _ \<longleftrightarrow> False"

lemma request_of_append:
  "request_of nw k = Some r \<Longrightarrow> request_of (nw\<lparr>requests := requests nw @ rs\<rparr>) k = Some r"
  by (auto simp: request_of_def nth_append split: if_splits)

lemma request_of_new: "request_of (nw\<lparr>requests := requests nw @ [(own, to, r)]\<rparr>) (length (requests nw)) = Some r"
  by (simp add: request_of_def)

lemma net_mono: "net_ok ft w content nw \<Longrightarrow> net_ok ft w content (nw\<lparr>requests := requests nw @ rs\<rparr>)"
  unfolding net_ok_def
  by (auto elim!: list.pred_mono_strong intro: answers_mono [OF request_of_append])

lemma node_rr_output:
  assumes "node_ok ft w content req n" and "list_all (rr_out_ok ft w content req) es"
  shows "node_ok ft w content req
    (n\<lparr>bh := (bh n)\<lparr>rr_output := (rr_output (bh n))\<lparr>queue := queue (rr_output (bh n)) @ es\<rparr>\<rparr>, main_up := up\<rparr>)"
  using assms by (simp add: node_ok_def traffic_ok_def timer_ok_def waiting_def)

lemma main_takes_ok:
  assumes ok: "node_ok ft w content (request_of nw) n" "net_ok ft w content nw"
    and x: "select_ok ft w content (request_of nw) x"
    and step: "main_takes p x (n, nw) = (n', nw')"
  shows "node_ok ft w content (request_of nw') n' \<and> net_ok ft w content nw'
    \<and> (\<forall>k r. request_of nw k = Some r \<longrightarrow> request_of nw' k = Some r)"
proof (cases "main_up n")
  case True
  from x show ?thesis
  proof (cases "(ft, w, content, request_of nw, x)" rule: select_ok.cases)
    case (3 _ _ _ _ action)
    show ?thesis
    proof (cases action)
      case (MakeRequest request to)
      let ?nw = "nw\<lparr>requests := requests nw @ [(p, to, request)]\<rparr>"
      have "nw' = ?nw" and n': "n' = n\<lparr>bh := (bh n)\<lparr>rr_output := (rr_output (bh n))\<lparr>queue :=
          queue (rr_output (bh n)) @ [AssignedRequestId (length (requests nw)) request]\<rparr>\<rparr>, main_up := True\<rparr>"
        using step True 3 MakeRequest by (simp_all add: main_takes_def cluster_swarm_def sink_simps Let_def)
      moreover have "node_ok ft w content (request_of ?nw) n"
        by (rule node_mono [OF request_of_append ok(1)])
      ultimately show ?thesis
        using net_mono [OF ok(2)] request_of_append by (auto intro!: node_rr_output simp: request_of_new)
    next
      case (Respond i channel response)
      have "answers ft w content (request_of nw) channel response" using x 3 Respond by simp
      moreover have "request_of (nw\<lparr>responses := rs\<rparr>) = request_of nw" for rs by (simp add: request_of_def fun_eq_iff)
      moreover have "nw' = nw\<lparr>responses := responses nw @ [(channel, response)]\<rparr>"
        and "n' = n\<lparr>main_up := True\<rparr>"
        using step True 3 Respond by (simp_all add: main_takes_def cluster_swarm_def Let_def)
      ultimately show ?thesis using ok by (auto simp: net_ok_def node_ok_def)
    qed
  qed (use ok x step True node_rr_output [OF ok(1)] in \<open>auto simp: main_takes_def sink_simps Let_def\<close>)
qed (use ok step in \<open>simp add: main_takes_def\<close>)

lemma at_node_ok:
  assumes "cluster_ok ft w content cl"
    and "node_ok ft w content (request_of (net cl)) (nodes cl p) \<Longrightarrow> node_ok ft w content (request_of (net cl)) (f (nodes cl p))"
  shows "cluster_ok ft w content (at_node p f cl)"
  using assms by (simp add: cluster_ok_def at_node_def)

lemma with_net_ok:
  assumes ok: "cluster_ok ft w content cl"
    and f: "\<And>n nw. f (nodes cl p, net cl) = (n, nw) \<Longrightarrow>
      node_ok ft w content (request_of nw) n \<and> net_ok ft w content nw
      \<and> (\<forall>k r. request_of (net cl) k = Some r \<longrightarrow> request_of nw k = Some r)"
  shows "cluster_ok ft w content (with_net p f cl)"
proof -
  obtain n nw where e: "f (nodes cl p, net cl) = (n, nw)" by force
  then have "node_ok ft w content (request_of nw) (nodes cl q)" for q
    using f [OF e] ok by (intro node_mono [of "request_of (net cl)" "request_of nw"]) (auto simp: cluster_ok_def)
  then show ?thesis using f [OF e] e by (simp add: cluster_ok_def with_net_def)
qed

lemma action_takes_ok:
  assumes ok: "node_ok ft w content (request_of nw) n" "net_ok ft w content nw"
    and step: "action_takes p (n, nw) = (n', nw')"
  shows "node_ok ft w content (request_of nw') n' \<and> net_ok ft w content nw'
    \<and> (\<forall>k r. request_of nw k = Some r \<longrightarrow> request_of nw' k = Some r)"
proof (cases "queue (rr_input (bh n)) = [] \<or> \<not> main_up n")
  case False
  then obtain a as where q: "queue (rr_input (bh n)) = a # as" and up: "main_up n" by (auto simp: neq_Nil_conv)
  let ?n = "n\<lparr>bh := (bh n)\<lparr>rr_input := (rr_input (bh n))\<lparr>queue := as\<rparr>\<rparr>\<rparr>"
  have "node_ok ft w content (request_of nw) ?n" "rr_in_ok ft w content (request_of nw) a"
    using ok(1) q by (simp_all add: node_ok_def traffic_ok_def timer_ok_def waiting_def)
  then have n: "node_ok ft w content (request_of nw) ?n" "select_ok ft w content (request_of nw) (RrAction (Some a))"
    by simp_all
  have "main_takes p (RrAction (Some a)) (?n, nw) = (n', nw')"
    using step q up by (simp add: action_takes_def)
  with n show ?thesis by (intro main_takes_ok [OF n(1) ok(2) n(2)])
qed (use ok step in \<open>auto simp: action_takes_def split: list.splits\<close>)

lemma behaviour_ok:
  assumes "cluster_ok ft w content cl"
    and "\<And>b :: 'ev Behaviour. traffic_ok ft w content (request_of (net cl)) b \<Longrightarrow> timer_ok b
      \<Longrightarrow> traffic_ok ft w content (request_of (net cl)) (f b) \<and> timer_ok (f b)"
  shows "cluster_ok ft w content (at_behaviour p f cl)"
  unfolding at_behaviour_def by (rule at_node_ok [OF assms(1)]) (use assms(2) in \<open>simp add: node_ok_def\<close>)

lemma swarm_event_ok:
  assumes "traffic_ok ft w content req b" and "timer_ok b"
  shows "traffic_ok ft w content req (on_swarm_event e b) \<and> timer_ok (on_swarm_event e b)"
  using assms by (cases e) (simp_all add: timer_ok_def traffic_ok_def waiting_def)

lemma handler_event_ok:
  assumes "traffic_ok ft w content req b" and "timer_ok b"
  shows "traffic_ok ft w content req (on_connection_handler_event peer m b)
    \<and> timer_ok (on_connection_handler_event peer m b)"
  using assms by (cases m) (simp_all add: timer_ok_def traffic_ok_def waiting_def)

lemma request_of_nth: "k < length (requests nw) \<Longrightarrow> requests nw ! k = (q, p, r) \<Longrightarrow> request_of nw k = Some r"
  by (simp add: request_of_def)

lemma cluster_step_ok:
  assumes ok: "cluster_ok ft w content cl" and a: "allowed ft w content a"
    and mem: "\<And>env. feature env = ft \<Longrightarrow> rs_wrapper w (shards_order env) \<Longrightarrow> content_memory w env content"
  shows "cluster_ok ft w content (cluster_step a cl)"
proof -
  have nodes: "node_ok ft w content (request_of (net cl)) (nodes cl p)" and nw: "net_ok ft w content (net cl)" for p
    using ok by (simp_all add: cluster_ok_def)
  show ?thesis
  proof (cases a)
    case (BhPoll p env)
    then show ?thesis using a by (auto intro!: at_node_ok [OF ok] bh_takes_ok)
  next
    case (MemTakes p env)
    then show ?thesis using a mem_takes_ok [OF mem] by (auto intro!: at_node_ok [OF ok])
  next
    case (MainTakes p)
    then show ?thesis by (auto intro!: with_net_ok [OF ok] action_takes_ok [OF nodes nw])
  next
    case (DeliverRequest k)
    then show ?thesis
      using ok by (auto simp: request_of_nth split: prod.splits intro!: with_net_ok [OF ok] main_takes_ok [OF nodes nw])
  next
    case (DeliverResponse j)
    show ?thesis
    proof (cases "j < length (responses (net cl))")
      case True
      obtain k r where r: "responses (net cl) ! j = (k, r)" by force
      then have "answers ft w content (request_of (net cl)) k r"
        using ok True by (auto simp: cluster_ok_def net_ok_def list_all_length)
      then show ?thesis
        using ok True r DeliverResponse
        by (auto split: prod.splits intro!: with_net_ok [OF ok] main_takes_ok [OF nodes nw])
    qed (use ok DeliverResponse in simp)
  next
    case (UserReads p)
    then show ?thesis
      by (auto simp: node_ok_def traffic_ok_def timer_ok_def waiting_def empty_queue_def intro!: at_node_ok [OF ok])
  next
    case (SwarmSays p e)
    then show ?thesis using behaviour_ok [OF ok swarm_event_ok] by simp
  next
    case (GossipComes p peer m)
    then show ?thesis using behaviour_ok [OF ok handler_event_ok] by simp
  qed (use a in \<open>auto simp: traffic_ok_def timer_ok_def waiting_def push_queue_def empty_queue_def intro!: behaviour_ok [OF ok]\<close>)
qed

lemma cluster_start_ok: "cluster_ok ft w content (cluster_start w)"
  by (simp add: cluster_ok_def net_ok_def node_ok_def mem_ok_def traffic_ok_def timer_ok_def waiting_def
      cluster_start_def node_start_def Behaviour_new_def DynamicTimer_new_def module_channels_new_def mpsc_channel_def)

inductive cluster_reachable ::
  "array_feature \<Rightarrow> ReedSolomonWrapper \<Rightarrow> (Vid \<Rightarrow> Data option) \<Rightarrow> 'ev cluster \<Rightarrow> bool" for ft w content where
  start: "cluster_reachable ft w content (cluster_start w)"
| step: "cluster_reachable ft w content cl \<Longrightarrow> allowed ft w content a
    \<Longrightarrow> cluster_reachable ft w content (cluster_step a cl)"

lemma cluster_reachable_ok:
  assumes "cluster_reachable ft w content cl" and "\<And>v d. content v = Some d \<Longrightarrow> wf_data ft d"
  shows "cluster_ok ft w content cl"
  using assms(1)
proof induction
  case (step cl a)
  have "content_memory w env content" if "feature env = ft" "rs_wrapper w (shards_order env)" for env
    using that assms(2) by (simp add: content_memory_def content_memory_axioms_def)
  with step show ?case by (blast intro: cluster_step_ok)
qed (rule cluster_start_ok)

text \<open>The executable runs reach only such states.\<close>

lemma cluster_run_reachable:
  "cluster_reachable ft w content cl \<Longrightarrow> list_all (allowed ft w content) acts
    \<Longrightarrow> cluster_reachable ft w content (cluster_run acts cl)"
  unfolding cluster_run_def by (induction acts arbitrary: cl) (auto intro: cluster_reachable.step)

subsection \<open>An example run\<close>

text \<open>The storage is initialized at two nodes, a data unit is put at the first, the second fetches its
  shard from the first, and the first recollects it.\<close>

definition memory_env :: dm_env where
  "memory_env = sorted_env Default_Array"

abbreviation recognized :: "PeerId \<Rightarrow> Transaction \<Rightarrow> 'ev CsOutEvent" where
  "recognized by_peer \<equiv> RecognizedTransaction by_peer (EventHash (replicate 64 0))"

abbreviation everywhere :: "PeerId \<Rightarrow> Transaction \<Rightarrow> 'ev action list" where
  "everywhere by_peer tx \<equiv> concat (map (\<lambda>p. [ConsensusSays p (recognized by_peer tx), BhPoll p quiet_env,
     MemTakes p memory_env, BhPoll p quiet_env]) [1, 2])"

abbreviation example_actions :: "unit action list" where
  "example_actions \<equiv>
     everywhere 1 (InitializeStorage [(1, Sid 0), (2, Sid 1), (3, Sid 2)])
     @ [UserSays 1 (Put (Vid 7) example_data), BhPoll 1 quiet_env, MemTakes 1 memory_env]
     @ everywhere 1 (StorageRequest (Vid 7))
     @ [MainTakes 2, DeliverRequest 0, BhPoll 1 quiet_env, MemTakes 1 memory_env,
        BhPoll 1 quiet_env, MainTakes 1, BhPoll 2 quiet_env, DeliverResponse 0, BhPoll 2 quiet_env,
        MemTakes 2 memory_env, BhPoll 2 quiet_env]
     @ everywhere 1 (Stored (Vid 7) (Sid 0)) @ everywhere 2 (Stored (Vid 7) (Sid 1))
     @ [UserSays 1 (Get (Vid 7)), BhPoll 1 quiet_env, MemTakes 1 memory_env, BhPoll 1 quiet_env,
        MainTakes 1, DeliverRequest 1, BhPoll 2 quiet_env, MemTakes 2 memory_env,
        BhPoll 2 quiet_env, MainTakes 2, BhPoll 1 quiet_env, DeliverResponse 1, BhPoll 1 quiet_env,
        MemTakes 1 memory_env, BhPoll 1 quiet_env, UserReads 1]"

abbreviation example_cluster :: "unit cluster" where
  "example_cluster \<equiv> cluster_run example_actions (cluster_start parity_wrapper)"

subsection \<open>Properties\<close>

text \<open>C2: nobody is ever given wrong data, and no node goes down. Any number of nodes start as
  \<open>main.rs\<close> and \<open>network.rs\<close> start them, with one erasure code; users put at most one value under
  each id, and no program writes to a data memory. Then however the steps of the tasks interleave, whatever the
  consensus, the instruction memories and the processors say, and however the network delays, loses and repeats requests and
  responses: no data memory and no poll panics, and every data unit a user has been shown or is
  about to be shown is exactly the one put under its id.\<close>

theorem cluster_recollection_safe:
  assumes "\<And>v d. content v = Some d \<Longrightarrow> wf_data ft d" and "cluster_reachable ft w content cl"
  shows "\<not> crashed (nodes cl p)
    \<and> (\<forall>v d. GetResponse (Inr (v, d)) \<in> set (shown (nodes cl p) @ queue (user_output (bh (nodes cl p))))
        \<longrightarrow> content v = Some d)"
proof -
  have "node_ok ft w content (request_of (net cl)) (nodes cl p)"
    using cluster_reachable_ok [OF assms(2,1)] by (simp add: cluster_ok_def)
  then show ?thesis by (auto simp: node_ok_def traffic_ok_def list_all_iff)
qed

theorem cluster_recollection_safe_witness:
  "shown (nodes example_cluster 1) = [StorageInitialized, GetResponse (Inr (Vid 7, example_data))]
   \<and> \<not> crashed (nodes example_cluster 1) \<and> example_content (Vid 7) = Some example_data"
proof -
  have "list_all (allowed Default_Array parity_wrapper example_content) example_actions"
    using parity_crate quiet_env_ok by (simp add: memory_env_def)
  then have "cluster_reachable Default_Array parity_wrapper example_content example_cluster"
    by (rule cluster_run_reachable [OF cluster_reachable.start])
  then have "\<not> crashed (nodes example_cluster 1)
    \<and> (\<forall>v d. GetResponse (Inr (v, d)) \<in> set (shown (nodes example_cluster 1)
          @ queue (user_output (bh (nodes example_cluster 1)))) \<longrightarrow> example_content v = Some d)"
    by (rule cluster_recollection_safe [rotated]) (auto simp: wf_data_def data_len_eq split: if_splits)
  moreover have "shown (nodes example_cluster 1) = [StorageInitialized, GetResponse (Inr (Vid 7, example_data))]"
    by code_simp
  ultimately show ?thesis by simp
qed

end
