(* ===== verification/Swarm_Codec.thy ===== *)
theory Swarm_Codec
  imports Swarm_Protocol
begin

text \<open>
  How messages travel: the codecs of \<open>protocol/one_shot.rs\<close> and \<open>protocol/request_response.rs\<close> and
  the protocol names of \<open>protocol/versions.rs\<close>. Serialization (bincode) and the length-prefixed
  framing (libp2p) are parameters; the locale \<open>framed_stream\<close> states what they promise. The theorems
  say which messages arrive as they were sent, and that the size limit is enforced by the receiving
  side only.
\<close>

subsection \<open>\<open>protocol/versions.rs\<close>\<close>

datatype SimpleVersion = SimpleV1

datatype RequestResponseVersion = RequestResponseV1

datatype SwarmProtocolNameType = SimpleType SimpleVersion | RequestResponseType RequestResponseVersion

datatype SwarmProtocolName = Original | Split SwarmProtocolNameType

fun simple_protocol_name :: "SimpleVersion \<Rightarrow> string" where
  "simple_protocol_name SimpleV1 = ''/p2p/the_swarm_computer/simple/0.0.1''"

fun request_response_protocol_name :: "RequestResponseVersion \<Rightarrow> string" where
  "request_response_protocol_name RequestResponseV1 = ''/p2p/the_swarm_computer/request_response/0.0.1''"

fun protocol_name :: "SwarmProtocolName \<Rightarrow> string" where
  "protocol_name Original = ''/p2p/the_swarm_computer/0.0.1''"
| "protocol_name (Split (SimpleType simple)) = simple_protocol_name simple"
| "protocol_name (Split (RequestResponseType request_response)) = request_response_protocol_name request_response"

subsection \<open>The libraries below\<close>

text \<open>The socket operations that the codecs use; \<open>'s\<close> is the stream. Errors of the libraries are
  opaque.\<close>

record 's socket_ops =
  read_length_prefixed :: "'s \<Rightarrow> nat \<Rightarrow> (string + u8 list) \<times> 's"
  write_length_prefixed :: "u8 list \<Rightarrow> 's \<Rightarrow> (string + unit) \<times> 's"
  close_socket :: "'s \<Rightarrow> (string + unit) \<times> 's"

record 'm bincode =
  bincode_serialize :: "'m \<Rightarrow> string + u8 list"
  bincode_deserialize :: "u8 list \<Rightarrow> string + 'm"

subsection \<open>\<open>protocol/one_shot.rs\<close>\<close>

text \<open>\<open>SimpleMessageReceiverError\<close> and \<open>SimpleMessageSendError\<close> have the same variants.\<close>

datatype SimpleMessageError = SimpleIo string | SimpleSerialization string

datatype 'ev SimpleMessage = SimpleMessage "'ev Simple"

definition simple_protocol_info :: "SimpleVersion list" where
  "simple_protocol_info = [SimpleV1]"

definition upgrade_inbound ::
  "'s socket_ops \<Rightarrow> 'ev SimpleMessage bincode \<Rightarrow> 's \<Rightarrow> (SimpleMessageError + 'ev SimpleMessage) \<times> 's" where
  "upgrade_inbound ops bin socket =
     (case read_length_prefixed ops socket (1024 * 1024) of
        (Inl e, socket) \<Rightarrow> (Inl (SimpleIo e), socket)
      | (Inr bytes, socket) \<Rightarrow>
          (case bincode_deserialize bin bytes of
             Inl e \<Rightarrow> (Inl (SimpleSerialization e), socket)
           | Inr response \<Rightarrow> (Inr response, socket)))"

definition upgrade_outbound ::
  "'s socket_ops \<Rightarrow> 'ev SimpleMessage bincode \<Rightarrow> 'ev SimpleMessage \<Rightarrow> 's \<Rightarrow> (SimpleMessageError + unit) \<times> 's" where
  "upgrade_outbound ops bin message socket =
     (case bincode_serialize bin message of
        Inl e \<Rightarrow> (Inl (SimpleSerialization e), socket)
      | Inr bytes \<Rightarrow>
          (case write_length_prefixed ops bytes socket of
             (Inl e, socket) \<Rightarrow> (Inl (SimpleIo e), socket)
           | (Inr _, socket) \<Rightarrow>
               (case close_socket ops socket of
                  (Inl e, socket) \<Rightarrow> (Inl (SimpleIo e), socket)
                | (Inr _, socket) \<Rightarrow> (Inr (), socket))))"

subsection \<open>\<open>protocol/request_response.rs\<close>\<close>

text \<open>An \<open>io::Error\<close>: of the socket, or of kind \<open>InvalidData\<close> around a bincode error.\<close>

datatype IoError = SocketError string | InvalidData string

definition read_request ::
  "'s socket_ops \<Rightarrow> Request bincode \<Rightarrow> 's \<Rightarrow> (IoError + Request) \<times> 's" where
  "read_request ops bin io =
     (case read_length_prefixed ops io (1024 * 1024) of
        (Inl e, io) \<Rightarrow> (Inl (SocketError e), io)
      | (Inr bytes, io) \<Rightarrow>
          (case bincode_deserialize bin bytes of
             Inl e \<Rightarrow> (Inl (InvalidData e), io)
           | Inr request \<Rightarrow> (Inr request, io)))"

definition read_response ::
  "'s socket_ops \<Rightarrow> ProtoResponse bincode \<Rightarrow> 's \<Rightarrow> (IoError + ProtoResponse) \<times> 's" where
  "read_response ops bin io =
     (case read_length_prefixed ops io (1024 * 1024) of
        (Inl e, io) \<Rightarrow> (Inl (SocketError e), io)
      | (Inr bytes, io) \<Rightarrow>
          (case bincode_deserialize bin bytes of
             Inl e \<Rightarrow> (Inl (InvalidData e), io)
           | Inr response \<Rightarrow> (Inr response, io)))"

definition write_request ::
  "'s socket_ops \<Rightarrow> Request bincode \<Rightarrow> Request \<Rightarrow> 's \<Rightarrow> (IoError + unit) \<times> 's" where
  "write_request ops bin data io =
     (case bincode_serialize bin data of
        Inl e \<Rightarrow> (Inl (InvalidData e), io)
      | Inr bytes \<Rightarrow>
          (case write_length_prefixed ops bytes io of
             (Inl e, io) \<Rightarrow> (Inl (SocketError e), io)
           | (Inr _, io) \<Rightarrow>
               (case close_socket ops io of
                  (Inl e, io) \<Rightarrow> (Inl (SocketError e), io)
                | (Inr _, io) \<Rightarrow> (Inr (), io))))"

definition write_response ::
  "'s socket_ops \<Rightarrow> ProtoResponse bincode \<Rightarrow> ProtoResponse \<Rightarrow> 's \<Rightarrow> (IoError + unit) \<times> 's" where
  "write_response ops bin data io =
     (case bincode_serialize bin data of
        Inl e \<Rightarrow> (Inl (InvalidData e), io)
      | Inr bytes \<Rightarrow>
          (case write_length_prefixed ops bytes io of
             (Inl e, io) \<Rightarrow> (Inl (SocketError e), io)
           | (Inr _, io) \<Rightarrow>
               (case close_socket ops io of
                  (Inl e, io) \<Rightarrow> (Inl (SocketError e), io)
                | (Inr _, io) \<Rightarrow> (Inr (), io))))"

subsection \<open>The contract of the libraries\<close>

text \<open>
  A stream that holds nothing unread (\<open>fresh\<close>): a payload written to it is what the other side reads
  if it is within the limit of the reader, and an error otherwise; closing the writing side takes
  nothing away. Bincode reads back what it wrote.
\<close>

locale framed_stream =
  fixes ops :: "'s socket_ops" and bin :: "'m bincode" and fresh :: "'s \<Rightarrow> bool" and holds :: "u8 list \<Rightarrow> 's \<Rightarrow> bool"
  assumes write_holds: "fresh s \<Longrightarrow> write_length_prefixed ops p s = (Inr u, s') \<Longrightarrow> holds p s'"
    and close_holds: "holds p s \<Longrightarrow> close_socket ops s = (r, s') \<Longrightarrow> holds p s'"
    and read_within: "holds p s \<Longrightarrow> length p \<le> limit \<Longrightarrow> \<exists>s'. read_length_prefixed ops s limit = (Inr p, s')"
    and read_beyond: "holds p s \<Longrightarrow> limit < length p \<Longrightarrow> \<exists>e s'. read_length_prefixed ops s limit = (Inl e, s')"
    and bincode_roundtrip: "bincode_serialize bin m = Inr bytes \<Longrightarrow> bincode_deserialize bin bytes = Inr m"
begin

lemma written:
  assumes "fresh s" and "write_length_prefixed ops p s = (Inr u, s1)" and "close_socket ops s1 = (r, s2)"
  shows "if length p \<le> limit then \<exists>s'. read_length_prefixed ops s2 limit = (Inr p, s')
    else \<exists>e s'. read_length_prefixed ops s2 limit = (Inl e, s')"
proof -
  have "holds p s2" using assms write_holds close_holds by blast
  then show ?thesis using read_within [of p s2 limit] read_beyond [of p s2 limit] by simp
qed

end

subsection \<open>A framing with the documented format\<close>

text \<open>Unsigned varints: seven bits per byte, the lowest first, the top bit set on all but the last
  byte. A frame is the length of the payload as a varint, and the payload.\<close>

function uvi_encode :: "nat \<Rightarrow> u8 list" where
  "uvi_encode n = (if n < 128 then [of_nat n] else of_nat (n mod 128 + 128) # uvi_encode (n div 128))"
  by pat_completeness auto
termination
  by (relation "measure (\<lambda>n. n)") auto

declare uvi_encode.simps [simp del]

fun uvi_decode :: "u8 list \<Rightarrow> (nat \<times> u8 list) option" where
  "uvi_decode [] = None"
| "uvi_decode (b # bs) =
     (if unat b < 128 then Some (unat b, bs)
      else (case uvi_decode bs of None \<Rightarrow> None | Some (n, rest) \<Rightarrow> Some (unat b - 128 + 128 * n, rest)))"

lemma uvi_decode_encode: "uvi_decode (uvi_encode n @ rest) = Some (n, rest)"
proof (induction n rule: uvi_encode.induct)
  case (1 n)
  have small: "unat (of_nat k :: u8) = k" if "k < 256" for k
    using that by (simp add: unat_of_nat)
  show ?case
  proof (cases "n < 128")
    case False
    have "n mod 128 + 128 < 256" using mod_less_divisor [of 128 n] by linarith
    then have "unat (of_nat (n mod 128 + 128) :: u8) = n mod 128 + 128" by (rule small)
    with False 1 [OF False] show ?thesis
      by (simp add: uvi_encode.simps [of n] del: of_nat_add)
  qed (simp add: uvi_encode.simps [of n] small)
qed

definition uvi_socket :: "u8 list socket_ops" where
  "uvi_socket =
     \<lparr>read_length_prefixed = (\<lambda>s limit.
        (case uvi_decode s of
           None \<Rightarrow> (Inl ''unexpected end of file'', s)
         | Some (n, rest) \<Rightarrow>
             if limit < n then (Inl ''received data size exceeds maximum'', rest)
             else if length rest < n then (Inl ''unexpected end of file'', [])
             else (Inr (take n rest), drop n rest))),
      write_length_prefixed = (\<lambda>p s. (Inr (), s @ uvi_encode (length p) @ p)),
      close_socket = (\<lambda>s. (Inr (), s))\<rparr>"

definition byte_bincode :: "('m \<Rightarrow> u8 list) \<Rightarrow> (u8 list \<Rightarrow> 'm option) \<Rightarrow> 'm bincode" where
  "byte_bincode enc dec =
     \<lparr>bincode_serialize = (\<lambda>m. if dec (enc m) = Some m then Inr (enc m) else Inl ''not serializable''),
      bincode_deserialize = (\<lambda>bs. case dec bs of None \<Rightarrow> Inl ''invalid'' | Some m \<Rightarrow> Inr m)\<rparr>"

interpretation uvi: framed_stream uvi_socket "byte_bincode enc dec" "\<lambda>s. s = []"
  "\<lambda>p s. s = uvi_encode (length p) @ p" for enc dec
  by unfold_locales (auto simp: uvi_socket_def byte_bincode_def uvi_decode_encode split: if_splits)

subsection \<open>Properties\<close>

text \<open>Different protocols have different names.\<close>

lemma protocol_name_inj: "inj protocol_name"
proof (rule injI)
  have cases: "z = Original \<or> z = Split (SimpleType SimpleV1) \<or> z = Split (RequestResponseType RequestResponseV1)" for z
    by (cases z rule: protocol_name.cases) (auto intro: SimpleVersion.exhaust RequestResponseVersion.exhaust)
  fix x y assume "protocol_name x = protocol_name y"
  with cases [of x] cases [of y] show "x = y" by auto
qed

text \<open>C33: requests and responses arrive as they were sent. When writing succeeded, the bytes are within
  one mebibyte and the other side reads the same message, or they are not and the other side gets an
  error of its socket; the writer cannot tell the two apart.\<close>

theorem request_response_roundtrip:
  assumes "framed_stream ops bin fresh holds" and "framed_stream ops bin' fresh holds" and "fresh io"
  shows "(write_request ops bin request io = (Inr (), io1) \<longrightarrow>
      (\<exists>bytes. bincode_serialize bin request = Inr bytes
        \<and> (if length bytes \<le> 1024 * 1024 then \<exists>io2. read_request ops bin io1 = (Inr request, io2)
           else \<exists>e io2. read_request ops bin io1 = (Inl (SocketError e), io2))))
    \<and> (write_response ops bin' response io = (Inr (), io1) \<longrightarrow>
      (\<exists>bytes. bincode_serialize bin' response = Inr bytes
        \<and> (if length bytes \<le> 1024 * 1024 then \<exists>io2. read_response ops bin' io1 = (Inr response, io2)
           else \<exists>e io2. read_response ops bin' io1 = (Inl (SocketError e), io2))))"
proof (intro conjI impI)
  assume "write_request ops bin request io = (Inr (), io1)"
  then obtain bytes u s1 r where s: "bincode_serialize bin request = Inr bytes"
    "write_length_prefixed ops bytes io = (Inr u, s1)" "close_socket ops s1 = (r, io1)"
    by (auto simp: write_request_def split: sum.splits prod.splits)
  then show "\<exists>bytes. bincode_serialize bin request = Inr bytes
        \<and> (if length bytes \<le> 1024 * 1024 then \<exists>io2. read_request ops bin io1 = (Inr request, io2)
           else \<exists>e io2. read_request ops bin io1 = (Inl (SocketError e), io2))"
    using framed_stream.written [OF assms(1,3) s(2,3), of "1024 * 1024"]
      framed_stream.bincode_roundtrip [OF assms(1) s(1)]
    by (auto simp: read_request_def split: if_splits)
next
  assume "write_response ops bin' response io = (Inr (), io1)"
  then obtain bytes u s1 r where s: "bincode_serialize bin' response = Inr bytes"
    "write_length_prefixed ops bytes io = (Inr u, s1)" "close_socket ops s1 = (r, io1)"
    by (auto simp: write_response_def split: sum.splits prod.splits)
  then show "\<exists>bytes. bincode_serialize bin' response = Inr bytes
        \<and> (if length bytes \<le> 1024 * 1024 then \<exists>io2. read_response ops bin' io1 = (Inr response, io2)
           else \<exists>e io2. read_response ops bin' io1 = (Inl (SocketError e), io2))"
    using framed_stream.written [OF assms(2,3) s(2,3), of "1024 * 1024"]
      framed_stream.bincode_roundtrip [OF assms(2) s(1)]
    by (auto simp: read_response_def split: if_splits)
qed

text \<open>A serialization of the messages without data, for the examples.\<close>

abbreviation small_requests :: "Request bincode" where
  "small_requests \<equiv> byte_bincode (\<lambda>r. case r of GetShard (Vid v, Sid i) \<Rightarrow> [0, ucast v, ucast i] | ServeShard (Vid v, Sid i) \<Rightarrow> [1, ucast v, ucast i])
     (\<lambda>bs. case bs of [k, v, i] \<Rightarrow> Some ((if k = 0 then GetShard else ServeShard) (Vid (ucast v), Sid (ucast i))) | _ \<Rightarrow> None)"

abbreviation small_responses :: "ProtoResponse bincode" where
  "small_responses \<equiv> byte_bincode (\<lambda>r. case r of GetShardResponse _ \<Rightarrow> [0] | ServeShardResponse _ \<Rightarrow> [1])
     (\<lambda>bs. case bs of [k] \<Rightarrow> Some ((if k = 0 then GetShardResponse else ServeShardResponse) None) | _ \<Rightarrow> None)"

theorem request_response_roundtrip_witness:
  "\<exists>io1 io2. write_request uvi_socket small_requests (GetShard (Vid 7, Sid 2)) [] = (Inr (), io1)
     \<and> read_request uvi_socket small_requests io1 = (Inr (GetShard (Vid 7, Sid 2)), io2)"
proof -
  obtain io1 where io1: "write_request uvi_socket small_requests (GetShard (Vid 7, Sid 2)) [] = (Inr (), io1)"
    by (simp add: write_request_def uvi_socket_def byte_bincode_def)
  have "framed_stream uvi_socket small_requests (\<lambda>s. s = []) (\<lambda>p s. s = uvi_encode (length p) @ p)"
    "framed_stream uvi_socket small_responses (\<lambda>s. s = []) (\<lambda>p s. s = uvi_encode (length p) @ p)"
    by (rule uvi.framed_stream_axioms)+
  from request_response_roundtrip [OF this, of "[]" "GetShard (Vid 7, Sid 2)" io1] io1 show ?thesis
    by (auto simp: byte_bincode_def split: if_splits)
qed

text \<open>C34: over a connection that works, the sender of a gossip message always reports success, whatever the size of the
  message. The message reaches the other side, unchanged, exactly if its bytes are within one mebibyte: a
  graph update that has grown past the limit is lost on every attempt, and nobody is told.\<close>

theorem gossip_size_limit:
  assumes "framed_stream ops bin fresh holds" and "fresh socket" and "bincode_serialize bin message = Inr bytes"
    and "\<And>p s. \<exists>s'. write_length_prefixed ops p s = (Inr (), s')" and "\<And>s. \<exists>s'. close_socket ops s = (Inr (), s')"
  shows "\<exists>socket1. upgrade_outbound ops bin message socket = (Inr (), socket1)
    \<and> (if length bytes \<le> 1024 * 1024 then \<exists>socket2. upgrade_inbound ops bin socket1 = (Inr message, socket2)
       else \<exists>e socket2. upgrade_inbound ops bin socket1 = (Inl (SimpleIo e), socket2))"
proof -
  obtain s1 socket1 where s: "write_length_prefixed ops bytes socket = (Inr (), s1)" "close_socket ops s1 = (Inr (), socket1)"
    using assms(4,5) by metis
  then have "upgrade_outbound ops bin message socket = (Inr (), socket1)" by (simp add: upgrade_outbound_def assms(3))
  then show ?thesis
    using framed_stream.written [OF assms(1,2) s, of "1024 * 1024"] framed_stream.bincode_roundtrip [OF assms(1,3)]
    by (auto simp: upgrade_inbound_def split: if_splits)
qed

text \<open>A message that serializes to one byte more than the limit.\<close>

abbreviation large_gossip :: "nat SimpleMessage bincode" where
  "large_gossip \<equiv> byte_bincode (\<lambda>m. replicate (1024 * 1024 + 1) 0)
     (\<lambda>bs. if bs = replicate (1024 * 1024 + 1) 0 then Some (SimpleMessage (GossipGraph [])) else None)"

theorem gossip_size_limit_witness:
  "\<exists>socket1 e socket2.
     upgrade_outbound uvi_socket large_gossip (SimpleMessage (GossipGraph [])) [] = (Inr (), socket1)
     \<and> upgrade_inbound uvi_socket large_gossip socket1 = (Inl (SimpleIo e), socket2)"
proof -
  have "bincode_serialize large_gossip (SimpleMessage (GossipGraph [])) = Inr (replicate (1024 * 1024 + 1) 0)"
    by (simp add: byte_bincode_def)
  from gossip_size_limit [OF uvi.framed_stream_axioms refl this] show ?thesis by (auto simp: uvi_socket_def)
qed

end
