(* ===== verification/Swarm_Memory_Bus.thy ===== *)
theory Swarm_Memory_Bus
  imports Swarm_Recollection
begin

text \<open>
  The processor and the data memory joined by the memory bus (\<open>MemoryBus::channel\<close> in
  \<open>data_memory/mod.rs\<close>): the two channels of the bus, their interleaving, and the data memory
  as an instance of the interface \<open>memory_bus\<close> that the processor relies on.
\<close>

subsection \<open>The memory behind the processor's bus\<close>

text \<open>
  Reads and writes of the processor travel in two channels, and \<open>select!\<close> picks among the ready
  ones. A write is accepted once it is in its channel; \<open>bus_schedule\<close> says how many queued writes
  the memory takes before it turns to the processor's next request.
\<close>

record bus_world =
  bus_memory :: InitializedDataMemory
  bus_writes :: "(Vid \<times> Shard) list"
  bus_schedule :: "nat list"

definition take_writes :: "bus_world \<Rightarrow> bus_world" where
  "take_writes bw =
     (case bus_schedule bw of
        [] \<Rightarrow> bw
      | k # ks \<Rightarrow> \<lparr>bus_memory = fold bus_write (take k (bus_writes bw)) (bus_memory bw),
                  bus_writes = drop k (bus_writes bw), bus_schedule = ks\<rparr>)"

definition dm_bus :: "dm_env \<Rightarrow> bus_world MemoryBus" where
  "dm_bus env =
     \<lparr>bus_request = (\<lambda>v bw. let bw = take_writes bw in (Response (bus_read env v (bus_memory bw)), bw)),
      bus_store = (\<lambda>v s bw. let bw = take_writes bw in (True, bw\<lparr>bus_writes := bus_writes bw @ [(v, s)]\<rparr>))\<rparr>"

text \<open>The memory once the queued writes are taken, and the shards it then holds for the bus.\<close>

definition settled :: "bus_world \<Rightarrow> InitializedDataMemory" where
  "settled bw = fold bus_write (bus_writes bw) (bus_memory bw)"

definition bus_view :: "dm_env \<Rightarrow> bus_world \<Rightarrow> Vid \<Rightarrow> Shard option" where
  "bus_view env bw v = bus_read env v (settled bw)"

text \<open>A peer with an assigned shard id that stores nothing but shards with this id.\<close>

definition only_assigned :: "InitializedDataMemory \<Rightarrow> bool" where
  "only_assigned dm \<longleftrightarrow>
     (case assigned_shard_id dm of
        None \<Rightarrow> False
      | Some i \<Rightarrow> \<forall>v m. fmlookup (local_storage dm) v = Some m \<longrightarrow> fmdom' m \<subseteq> {i})"

definition bus_up :: "bus_world \<Rightarrow> bool" where
  "bus_up bw \<longleftrightarrow> only_assigned (bus_memory bw)"

definition bus_idle :: "bus_world \<Rightarrow> bool" where
  "bus_idle bw \<longleftrightarrow> bus_up bw \<and> bus_writes bw = []"

lemma only_assigned_lookup:
  "only_assigned dm \<Longrightarrow> assigned_shard_id dm = Some i \<Longrightarrow> fmlookup (local_storage dm) v = Some m
     \<Longrightarrow> fmdom' m \<subseteq> {i}"
  by (auto simp: only_assigned_def)

lemma bus_read_assigned:
  assumes "hash_ordered (shards_order env)" and "only_assigned dm" and "assigned_shard_id dm = Some i"
  shows "bus_read env v dm = get_shard (v, i) dm"
proof (cases "fmlookup (local_storage dm) v")
  case (Some m)
  have "hash_iteration (shards_order env)" using assms(1) by (rule hash_iteration.intro)
  from hash_iteration.ord_single [OF this only_assigned_lookup [OF assms(2,3) Some]] Some show ?thesis
    by (auto simp: bus_read_def get_shard_def hm_get2_def split: option.splits)
qed (simp add: bus_read_def get_shard_def hm_get2_def)

lemma bus_write_fixed [dm_simps]: "dm_fixed (bus_write x dm) = dm_fixed dm"
  by (auto simp: bus_write_def store_shard_def dm_simps split: option.splits)

lemma bus_write_assigned [dm_simps]: "assigned_shard_id (bus_write x dm) = assigned_shard_id dm"
  using dm_fixed_sel [OF bus_write_fixed] by blast

lemma bus_writes_assigned: "assigned_shard_id (fold bus_write xs dm) = assigned_shard_id dm"
  by (induction xs arbitrary: dm) (simp_all add: dm_simps)

lemma bus_write_only:
  assumes "only_assigned dm"
  shows "only_assigned (bus_write x dm)"
proof -
  obtain i where i: "assigned_shard_id dm = Some i"
    using assms by (auto simp: only_assigned_def split: option.splits)
  have "fmdom' m \<subseteq> {i}" if "fmlookup (local_storage (bus_write x dm)) v = Some m" for v m
    using that only_assigned_lookup [OF assms i]
    by (auto simp: bus_write_def i store_shard_def hm_insert2_def hm_or_default_def
        split: if_splits option.splits) blast+
  then show ?thesis by (auto simp: only_assigned_def dm_simps i)
qed

lemma bus_writes_only: "only_assigned dm \<Longrightarrow> only_assigned (fold bus_write xs dm)"
  by (induction xs arbitrary: dm) (simp_all add: bus_write_only)

lemma bus_write_get:
  "assigned_shard_id dm = Some i \<Longrightarrow>
   get_shard (v, i) (bus_write (u, s) dm) = (if v = u then Some s else get_shard (v, i) dm)"
  by (simp add: bus_write_def store_shard_def get_shard_def hm_get2_insert2)

lemma take_writes_settled [simp]: "settled (take_writes bw) = settled bw"
proof (cases "bus_schedule bw")
  case (Cons k ks)
  have "fold bus_write (drop k (bus_writes bw)) (fold bus_write (take k (bus_writes bw)) (bus_memory bw))
      = fold bus_write (take k (bus_writes bw) @ drop k (bus_writes bw)) (bus_memory bw)"
    by (simp only: fold_append comp_apply)
  with Cons show ?thesis by (simp add: settled_def take_writes_def)
qed (simp add: settled_def take_writes_def)

lemma take_writes_up: "bus_up bw \<Longrightarrow> bus_up (take_writes bw)"
  by (auto simp: bus_up_def take_writes_def bus_writes_only split: list.splits)

lemma take_writes_idle: "bus_idle bw \<Longrightarrow> bus_idle (take_writes bw)"
  by (auto simp: bus_idle_def bus_up_def take_writes_def split: list.splits)

lemma memory_bus_dm:
  assumes "hash_ordered (shards_order env)"
  shows "memory_bus (dm_bus env) (bus_view env) bus_idle bus_up"
proof
  fix bw v
  assume idle: "bus_idle bw"
  have "settled bw = bus_memory (take_writes bw)"
    using take_writes_settled [of bw] take_writes_idle [OF idle] by (simp add: settled_def bus_idle_def)
  then show "\<exists>bw'. bus_request (dm_bus env) v bw = (Response (bus_view env bw v), bw') \<and> bus_idle bw'
      \<and> bus_view env bw' = bus_view env bw"
    using take_writes_idle [OF idle] take_writes_settled [of bw]
    by (auto simp: dm_bus_def bus_view_def fun_eq_iff Let_def simp del: take_writes_settled)
next
  fix bw v s
  assume up: "bus_up bw"
  let ?bw = "(take_writes bw)\<lparr>bus_writes := bus_writes (take_writes bw) @ [(v, s)]\<rparr>"
  have set: "settled ?bw = bus_write (v, s) (settled bw)"
    using take_writes_settled [of bw] by (simp add: settled_def)
  have only: "only_assigned (settled bw)"
    using up by (simp add: bus_up_def settled_def bus_writes_only)
  then have only': "only_assigned (settled ?bw)" unfolding set by (rule bus_write_only)
  from only obtain i where i: "assigned_shard_id (settled bw) = Some i"
    by (auto simp: only_assigned_def split: option.splits)
  then have i': "assigned_shard_id (settled ?bw) = Some i" by (simp add: set dm_simps)
  have "bus_view env ?bw = (bus_view env bw)(v \<mapsto> s)"
    unfolding bus_view_def fun_eq_iff
    using bus_read_assigned [OF assms only i] bus_read_assigned [OF assms only' i']
    by (simp add: set bus_write_get [OF i])
  moreover have "bus_up ?bw" using take_writes_up [OF up] by (simp add: bus_up_def)
  ultimately show "\<exists>bw'. bus_store (dm_bus env) v s bw = (True, bw') \<and> bus_up bw'
      \<and> bus_view env bw' = (bus_view env bw)(v \<mapsto> s)"
    by (simp add: dm_bus_def Let_def)
qed (simp add: bus_idle_def)

interpretation sorted_bus: memory_bus "dm_bus (sorted_env ft)" "bus_view (sorted_env ft)" bus_idle bus_up
  for ft
  by (rule memory_bus_dm) (simp add: sorted_hash_ordered)

subsection \<open>Which shards a peer stores\<close>

text \<open>Served shards are stored under the id they come with; as long as those are the assigned one,
  the peer stores nothing else.\<close>

fun assigned_in :: "InitializedDataMemory \<Rightarrow> DmInEvent \<Rightarrow> bool" where
  "assigned_in dm (InServeShardResponse fid (Some _)) \<longleftrightarrow> assigned_shard_id dm = Some (snd fid)"
| "assigned_in dm _ \<longleftrightarrow> True"

lemma store_shard_only:
  assumes "only_assigned dm" and "assigned_shard_id dm = Some (snd fid)"
  shows "only_assigned (snd (store_shard fid s dm))"
  using bus_write_only [OF assms(1), of "(fst fid, s)"] assms(2) by (simp add: bus_write_def)

lemma only_assigned_cong:
  "local_storage dm' = local_storage dm \<Longrightarrow> dm_fixed dm' = dm_fixed dm
     \<Longrightarrow> only_assigned dm' = only_assigned dm"
  using dm_fixed_sel [of dm' dm] by (simp add: only_assigned_def split: option.splits)

lemma handle_assigned_response_storage:
  "handle_assigned_response env fid x (dm, c) = (h, dm', c') \<Longrightarrow> local_storage dm' = local_storage dm"
  by (cases x; cases fid)
    (auto simp: Let_def split: prod.splits option.splits outcome.splits if_splits)

lemma request_shards_storage:
  "request_shards env v xs (dm, c) = (ctl, dm', c') \<Longrightarrow> local_storage dm' = local_storage dm"
proof (induction xs arbitrary: dm c)
  case (Cons x xs)
  obtain i owner where x: "x = (i, owner)" by force
  obtain ctl1 dm1 c1 where s1: "(if owner = local_id dm
            then handled (handle_assigned_response env (v, i) (get_shard (v, i) dm) (dm, c))
            else send_or_return (OutAssignedRequest (v, i) owner) (dm, c)) = (ctl1, dm1, c1)"
    by (metis prod_cases3)
  then have "local_storage dm1 = local_storage dm"
    by (auto simp: handled_eq split: if_splits dest: handle_assigned_response_storage send_or_return_conf
        simp del: send_or_return.simps)
  with Cons s1 show ?case by (auto simp: x split: dm_ctl.splits)
qed simp

lemma dm_event_storage:
  assumes "dm_event env e (dm, c) = (ctl, dm', c')"
    and "\<And>fid s. e \<noteq> InServeShardResponse fid (Some s)" and "\<And>v. e \<noteq> StorageRequestTx v (local_id dm)"
  shows "local_storage dm' = local_storage dm"
proof (cases e)
  case (StoreConfirmed fid p)
  with assms show ?thesis
    by (auto simp: Let_def dm_simps split: option.splits prod.splits if_splits)
next
  case (RecollectRequest v)
  with assms show ?thesis
    by (auto split: option.splits if_splits dest: send_or_return_conf request_shards_storage
        simp del: send_or_return.simps)
next
  case (InServeShardResponse fid x)
  with assms(1) assms(2) [of fid "the x"] show ?thesis by (cases x) auto
qed (use assms in \<open>auto simp: handled_eq prepare_to_serve_shards_def
      split: option.splits outcome.splits if_splits simp del: send_or_return.simps
      dest: send_or_return_conf handle_assigned_response_storage\<close>)

lemma dm_event_only_assigned:
  assumes only: "only_assigned dm" and e: "assigned_in dm e"
    and step: "dm_event env e (dm, c) = (ctl, dm', c')"
  shows "only_assigned dm'"
proof -
  have stored: "only_assigned dm'"
    if "handled (handle_serve_shard_response fid x (dm, c)) = (ctl, dm', c')"
      "x \<noteq> None \<Longrightarrow> assigned_shard_id dm = Some (snd fid)" for fid x
    using that only store_shard_only [OF only, of fid]
    by (cases x) (auto split: prod.splits, metis fst_conv handled_conf snd_conv)
  consider fid x where "e = InServeShardResponse fid x" | v where "e = StorageRequestTx v (local_id dm)"
    | "\<And>fid s. e \<noteq> InServeShardResponse fid (Some s)" "\<And>v. e \<noteq> StorageRequestTx v (local_id dm)"
    by metis
  then show ?thesis
  proof cases
    case (1 fid x)
    with e step show ?thesis by (intro stored [of fid x]) (cases x, auto)
  next
    case (2 v)
    then show ?thesis
      using step only stored [of "(v, the (assigned_shard_id dm))"] by (auto split: option.splits)
  next
    case 3
    with dm_event_storage [OF step] dm_event_fixed [OF step] only show ?thesis
      using only_assigned_cong by blast
  qed
qed

subsection \<open>What stays fixed over an execution\<close>

text \<open>A quantity that no request and no store changes stays fixed over a whole execution.\<close>

lemma retrieve_operand_keeps:
  assumes "\<And>v m. f (snd (bus_request bus v m)) = f m"
  shows "f (snd (retrieve_operand bus v c m)) = f m"
proof (cases c)
  case None
  with assms [of v m] show ?thesis
    by (auto simp: retrieve_operand_def retrieve_local_shard_def split: prod.splits bus_reply.splits)
qed (simp add: retrieve_operand_def)

lemma retrieve_operands_keeps:
  assumes "\<And>v m. f (snd (bus_request bus v m)) = f m"
  shows "f (snd (retrieve_operands bus op ctx m)) = f m"
proof -
  note k = retrieve_operand_keeps [of f bus, OF assms]
  have b: "f (snd (retrieve_binary bus b ctx m)) = f m" for b m
  proof (cases b)
    case (BinaryOp x y)
    show ?thesis
      using k [of x None m] k [of y None m] k [of y None "snd (retrieve_operand bus x None m)"]
      by (auto simp: BinaryOp Let_def split: prod.splits option.splits sum.splits)
  qed
  have u: "f (snd (retrieve_unary bus u ctx m)) = f m" for u m
    using k [of "operand u" "fmlookup ctx (operand u)" m]
    by (cases u) (auto split: prod.splits option.splits sum.splits)
  have o: "snd (ok_or_no_shards c x) = snd x" for c :: "'x \<Rightarrow> 'y" and x :: "(ProcError + 'x option) \<times> 'a"
    by (cases "(c, x)" rule: ok_or_no_shards.cases) auto
  show ?thesis by (cases op) (simp_all add: o b u)
qed

lemma execute_keeps:
  assumes r: "\<And>v m. f (snd (bus_request bus v m)) = f m"
    and s: "\<And>v s m. f (snd (bus_store bus v s m)) = f m"
    and ex: "execute lib o' bus program m = (rs, m')"
  shows "f m' = f m"
proof -
  have pre: "f (snd (prefetch bus ids ctx m)) = f m" for ids ctx m
  proof (induction ids arbitrary: ctx m)
    case (Cons v ids)
    with retrieve_operand_keeps [of f bus v None m, OF r] show ?case
      by (auto split: prod.splits sum.splits option.splits)
  qed simp
  have ins: "f (snd (snd (execute_instructions lib bus p ctx m))) = f m" for p ctx m
  proof (induction p arbitrary: ctx m)
    case (Cons i p)
    obtain x m1 where m1: "retrieve_operands bus (operation i) ctx m = (x, m1)" by force
    then have "f m1 = f m" using retrieve_operands_keeps [of f bus "operation i" ctx m, OF r] by simp
    with Cons [of ctx m1] Cons [of _ m1] m1 show ?case
      by (cases x) (simp_all add: Let_def case_prod_beta)
  qed simp
  have sav: "f (snd (save_results bus xs m)) = f m" for xs m
  proof (induction xs arbitrary: m)
    case (Cons x xs)
    obtain y m1 where m1: "store_local_shard bus (fst x) (snd x) m = (y, m1)" by force
    then have "f m1 = f m"
      using s [of "fst x" "snd x" m] by (auto simp: store_local_shard_def split: prod.splits bool.splits)
    with Cons [of m1] m1 show ?case by (cases x; cases y) (auto split: prod.splits)
  qed simp
  obtain ctx m1 where 1: "prepare_context o' bus program m = (ctx, m1)" by force
  obtain r2 ctx2 m2 where 2: "execute_instructions lib bus program ctx m1 = (r2, ctx2, m2)"
    by (metis prod_cases3)
  obtain e m3 where 3: "save_results bus (ctx_order o' ctx2) m2 = (e, m3)" by force
  show ?thesis
    using pre [of "ids_order o' (needed_ids program)" fmempty m] ins [of program ctx m1]
      sav [of "ctx_order o' ctx2" m2] 1 2 3 ex
    by (simp add: execute_def prepare_context_def)
qed

text \<open>The assignment of a shard id stays fixed over the whole execution.\<close>

definition bus_assigned :: "bus_world \<Rightarrow> Sid option" where
  "bus_assigned bw = assigned_shard_id (settled bw)"

lemma dm_bus_assigned:
  "bus_assigned (snd (bus_request (dm_bus env) v bw)) = bus_assigned bw"
  "bus_assigned (snd (bus_store (dm_bus env) v s bw)) = bus_assigned bw"
proof -
  show "bus_assigned (snd (bus_request (dm_bus env) v bw)) = bus_assigned bw"
    by (simp add: dm_bus_def bus_assigned_def Let_def)
  have "assigned_shard_id (bus_memory (take_writes bw)) = assigned_shard_id (bus_memory bw)"
    by (simp add: take_writes_def bus_writes_assigned split: list.splits)
  then show "bus_assigned (snd (bus_store (dm_bus env) v s bw)) = bus_assigned bw"
    by (simp add: dm_bus_def bus_assigned_def Let_def settled_def bus_writes_assigned dm_simps)
qed

lemma execute_on_data_memory_run:
  assumes "hash_ordered (shards_order env)" and "exec_ordered o'" and "bus_idle bw"
    and "assigned_shard_id (bus_memory bw) = Some i"
  shows "\<exists>rs bw'. execute lib o' (dm_bus env) program bw = (rs, bw')
    \<and> only_assigned (settled bw')
    \<and> direct_run lib program (\<lambda>v. get_shard (v, i) (bus_memory bw))
        = (rs, \<lambda>v. get_shard (v, i) (settled bw'))"
proof -
  have bus: "memory_bus (dm_bus env) (bus_view env) bus_idle bus_up"
    by (rule memory_bus_dm [OF assms(1)])
  obtain rs bw' where ex: "execute lib o' (dm_bus env) program bw = (rs, bw')" "bus_up bw'"
    and run: "direct_run lib program (bus_view env bw) = (rs, bus_view env bw')"
    by (rule memory_bus.execute_refines [OF bus assms(2,3)])
  have i': "assigned_shard_id (settled bw') = Some i"
    using execute_keeps [of bus_assigned "dm_bus env", OF dm_bus_assigned ex(1)] assms(3,4)
    by (simp add: bus_assigned_def bus_idle_def settled_def)
  have only: "only_assigned (bus_memory bw)" "settled bw = bus_memory bw" "only_assigned (settled bw')"
    using assms(3) ex(2) by (simp_all add: bus_idle_def bus_up_def settled_def bus_writes_only)
  have "bus_view env bw = (\<lambda>v. get_shard (v, i) (bus_memory bw))"
    unfolding bus_view_def only(2) using bus_read_assigned [OF assms(1) only(1) assms(4)] by blast
  moreover have "bus_view env bw' = (\<lambda>v. get_shard (v, i) (settled bw'))"
    unfolding bus_view_def using bus_read_assigned [OF assms(1) only(3) i'] by blast
  ultimately show ?thesis using ex(1) run only(3) by simp
qed

subsection \<open>Properties\<close>

text \<open>C13: a program executed over the bus by a peer that stores only its assigned shard, with no
  write under way, reports for each instruction and leaves in the memory, once the queued writes
  are taken, exactly what the direct interpreter computes on the stored shards; for every
  iteration order and every way the memory interleaves writes with requests.\<close>

theorem execute_on_data_memory:
  assumes "hash_ordered (shards_order env)" and "exec_ordered o'" and "bus_idle bw"
    and "assigned_shard_id (bus_memory bw) = Some i"
  shows "\<exists>rs bw'. execute lib o' (dm_bus env) program bw = (rs, bw')
    \<and> only_assigned (settled bw')
    \<and> direct_run lib program (\<lambda>v. get_shard (v, i) (bus_memory bw))
        = (rs, \<lambda>v. get_shard (v, i) (settled bw'))"
  by (rule execute_on_data_memory_run [OF assms])

abbreviation sorted_orders :: exec_orders where
  "sorted_orders \<equiv> \<lparr>ids_order = sorted_list_of_fset, ctx_order = sorted_list_of_fmap\<rparr>"

lemma sorted_exec_ordered: "exec_ordered sorted_orders"
  by (simp add: exec_ordered_def sorted_hash_ordered sorted_list_of_fset.rep_eq)

abbreviation example_bus :: bus_world where
  "example_bus \<equiv>
     \<lparr>bus_memory = (example_memory 1)\<lparr>local_storage :=
        fmap_of_list [(Vid 1, fmap_of_list [(Sid 0, Shard [1, 2, 3, 4])]),
                      (Vid 2, fmap_of_list [(Sid 0, Shard [1, 1, 1, 1])])]\<rparr>,
      bus_writes = [], bus_schedule = [0, 1]\<rparr>"

lemma example_bus_idle: "bus_idle example_bus" "assigned_shard_id (bus_memory example_bus) = Some (Sid 0)"
  by (auto simp: bus_idle_def bus_up_def only_assigned_def assigned_shard_id_def initialize_def
      split: if_splits)

theorem execute_on_data_memory_witness:
  "\<exists>rs bw'. execute parity_library sorted_orders (dm_bus (sorted_env Default_Array))
       [instr_plus (Vid 1) (Vid 2) (Vid 3)] example_bus = (rs, bw')
     \<and> only_assigned (settled bw')
     \<and> direct_run parity_library [instr_plus (Vid 1) (Vid 2) (Vid 3)]
         (\<lambda>v. get_shard (v, Sid 0) (bus_memory example_bus)) = (rs, \<lambda>v. get_shard (v, Sid 0) (settled bw'))"
  by (rule execute_on_data_memory [OF _ sorted_exec_ordered example_bus_idle])
    (simp add: sorted_hash_ordered)

lemma direct_run_results: "direct_run lib program \<sigma> = (rs, \<sigma>') \<Longrightarrow> length rs = length program"
  by (induction program arbitrary: \<sigma> rs) (auto split: option.splits prod.splits)

lemma direct_run_typed:
  assumes "\<And>v s. \<sigma> v = Some s \<Longrightarrow> wf_shard ft s" and "direct_run lib program \<sigma> = (rs, \<sigma>')" and "\<sigma>' v = Some s"
  shows "wf_shard ft s"
  using assms
proof (induction program arbitrary: \<sigma> rs)
  case (Cons ins program)
  show ?case
  proof (cases "transpose_operation (map_operands \<sigma> ins)")
    case None
    then show ?thesis using Cons.prems Cons.IH [of \<sigma>] by (auto split: prod.splits)
  next
    case (Some ins')
    have "wf_shard ft x" if "x \<in> set (args_as_list (operation ins'))" for x
    proof -
      have "Some x \<in> set (map \<sigma> (args_as_list (operation ins)))" using that transpose_args [OF Some] by simp
      then show ?thesis using Cons.prems(1) by auto
    qed
    then have new: "wf_shard ft (calculate lib (operation ins'))" by (rule calculate_wf)
    obtain rs1 where rs1: "direct_run lib program (\<sigma>(result ins \<mapsto> calculate lib (operation ins'))) = (rs1, \<sigma>')"
      using Some Cons.prems(2) by (auto split: prod.splits)
    show ?thesis
      by (rule Cons.IH [OF _ rs1 Cons.prems(3)]) (use new Cons.prems(1) in \<open>auto split: if_splits\<close>)
  qed
qed simp

text \<open>C28: execution is well typed. When the shards that a peer holds have the size of the arrays of the
  build, then after any program, whichever operations it uses and whichever operands are missing, all
  shards that the peer holds have it again, and there is a result for every instruction.\<close>

theorem execution_well_typed:
  assumes "hash_ordered (shards_order env)" and "exec_ordered o'" and "bus_idle bw"
    and "assigned_shard_id (bus_memory bw) = Some i"
    and "\<And>v s. get_shard (v, i) (bus_memory bw) = Some s \<Longrightarrow> wf_shard ft s"
    and "execute lib o' (dm_bus env) program bw = (rs, bw')"
  shows "(\<forall>v s. get_shard (v, i) (settled bw') = Some s \<longrightarrow> wf_shard ft s) \<and> length rs = length program"
proof -
  have run: "direct_run lib program (\<lambda>v. get_shard (v, i) (bus_memory bw)) = (rs, \<lambda>v. get_shard (v, i) (settled bw'))"
    using execute_on_data_memory_run [OF assms(1-4), of lib program] assms(6) by auto
  then have "length rs = length program" by (rule direct_run_results)
  moreover have "wf_shard ft s" if "get_shard (v, i) (settled bw') = Some s" for v s
    by (rule direct_run_typed [OF _ run that]) (rule assms(5))
  ultimately show ?thesis by blast
qed

theorem execution_well_typed_witness:
  "\<exists>rs bw'. execute parity_library sorted_orders (dm_bus (sorted_env Default_Array))
       [instr_plus (Vid 1) (Vid 2) (Vid 3)] example_bus = (rs, bw')
     \<and> (\<forall>v s. get_shard (v, Sid 0) (settled bw') = Some s \<longrightarrow> wf_shard Default_Array s) \<and> length rs = 1"
proof -
  obtain rs bw' where ex: "execute parity_library sorted_orders (dm_bus (sorted_env Default_Array))
      [instr_plus (Vid 1) (Vid 2) (Vid 3)] example_bus = (rs, bw')" by force
  have "wf_shard Default_Array s" if "get_shard (v, Sid 0) (bus_memory example_bus) = Some s" for v s
    using that by (auto simp: get_shard_def hm_get2_def wf_shard_def split: if_splits)
  from execution_well_typed [OF _ sorted_exec_ordered example_bus_idle this ex] ex show ?thesis
    by (auto simp: sorted_hash_ordered)
qed

text \<open>C39: the bus gives no order between a write of the processor and a later read. A write is accepted when it is in
  its channel, behind the writes that wait there. The memory has taken \<open>k\<close> of the waiting writes before, and takes \<open>l\<close> more
  before it answers the next read: the read returns the new value exactly if \<open>l\<close> covers the
  waiting writes and the new one, and otherwise what the memory held before it, although the write is not lost: it is seen once
  the channel is used up.\<close>

theorem stale_read:
  assumes "bus_schedule bw = k # l # ks" and "only_assigned (bus_memory bw)"
    and "assigned_shard_id (bus_memory bw) = Some i" and "hash_ordered (shards_order env)"
  shows "\<exists>bw1 bw2. store_local_shard (dm_bus env) v s bw = (Inr (), bw1)
    \<and> retrieve_local_shard (dm_bus env) v bw1 = (Inr (if length (bus_writes bw) - k < l then Some s
        else get_shard (v, i) (fold bus_write (take (k + l) (bus_writes bw)) (bus_memory bw))), bw2)
    \<and> bus_writes bw2 = drop l (drop k (bus_writes bw) @ [(v, s)]) \<and> bus_view env bw2 v = Some s"
proof -
  let ?ws = "bus_writes bw" and ?dm = "bus_memory bw"
  let ?bw1 = "\<lparr>bus_memory = fold bus_write (take k ?ws) ?dm, bus_writes = drop k ?ws @ [(v, s)], bus_schedule = l # ks\<rparr>"
  have read: "bus_read env v (fold bus_write xs ?dm) = get_shard (v, i) (fold bus_write xs ?dm)" for xs
    by (rule bus_read_assigned [OF assms(4) bus_writes_only [OF assms(2)]]) (simp add: bus_writes_assigned assms(3))
  have new: "get_shard (v, i) (fold bus_write (xs @ [(v, s)]) ?dm) = Some s" for xs
    by (simp add: bus_write_get bus_writes_assigned assms(3))
  have "fold bus_write (take l (drop k ?ws)) (fold bus_write (take k ?ws) ?dm) = fold bus_write (take (k + l) ?ws) ?dm"
    by (simp add: take_add)
  moreover have all: "fold bus_write (drop k ?ws) (fold bus_write (take k ?ws) ?dm) = fold bus_write ?ws ?dm"
    by (metis append_take_drop_id comp_apply fold_append)
  moreover have seen: "bus_read env v (bus_write (v, s) (fold bus_write ?ws ?dm)) = Some s"
    using read [of "?ws @ [(v, s)]"] new [of ?ws] by simp
  moreover have "bus_view env (take_writes ?bw1) v = Some s"
    unfolding bus_view_def take_writes_settled by (simp add: settled_def all seen)
  ultimately show ?thesis
    using assms(1) read [of "take (k + l) ?ws"]
    by (auto simp: store_local_shard_def retrieve_local_shard_def dm_bus_def take_writes_def Let_def)
qed

theorem stale_read_witness:
  "\<exists>bw1 bw2 bw3 bw4. store_local_shard (dm_bus (sorted_env Default_Array)) (Vid 1) (Shard [9, 9, 9, 9])
        (example_bus\<lparr>bus_schedule := [0, 0]\<rparr>) = (Inr (), bw1)
    \<and> retrieve_local_shard (dm_bus (sorted_env Default_Array)) (Vid 1) bw1 = (Inr (Some (Shard [1, 2, 3, 4])), bw2)
    \<and> store_local_shard (dm_bus (sorted_env Default_Array)) (Vid 1) (Shard [9, 9, 9, 9])
        (example_bus\<lparr>bus_schedule := [0, 1]\<rparr>) = (Inr (), bw3)
    \<and> retrieve_local_shard (dm_bus (sorted_env Default_Array)) (Vid 1) bw3 = (Inr (Some (Shard [9, 9, 9, 9])), bw4)"
proof -
  have "get_shard (Vid 1, Sid 0) (bus_memory example_bus) = Some (Shard [1, 2, 3, 4])" by (simp add: get_shard_def hm_get2_def)
  then show ?thesis
    using stale_read [of "example_bus\<lparr>bus_schedule := [0, 0]\<rparr>" 0 0 "[]" "Sid 0" "sorted_env Default_Array"
        "Vid 1" "Shard [9, 9, 9, 9]"]
      stale_read [of "example_bus\<lparr>bus_schedule := [0, 1]\<rparr>" 0 1 "[]" "Sid 0" "sorted_env Default_Array"
        "Vid 1" "Shard [9, 9, 9, 9]"]
      example_bus_idle
    by (fastforce simp: bus_idle_def bus_up_def sorted_hash_ordered)
qed

text \<open>C29: a peer that is only ever served shards with its assigned id stores no other shard,
  whatever else happens.\<close>

theorem stores_only_assigned:
  assumes "only_assigned dm" and "assigned_in dm e" and "dm_event env e (dm, c) = (ctl, dm', c')"
  shows "only_assigned dm' \<and> assigned_shard_id dm' = assigned_shard_id dm"
  using dm_event_only_assigned [OF assms] dm_fixed_sel [OF dm_event_fixed [OF assms(3)]] by blast

theorem stores_only_assigned_witness:
  "only_assigned (fst (snd (dm_event (sorted_env Default_Array)
      (InServeShardResponse (Vid 7, Sid 0) (Some (Shard [1, 2, 3, 4]))) (example_memory 1, open_sink))))"
proof -
  obtain ctl dm' c' where e: "dm_event (sorted_env Default_Array)
      (InServeShardResponse (Vid 7, Sid 0) (Some (Shard [1, 2, 3, 4]))) (example_memory 1, open_sink)
      = (ctl, dm', c')" by (metis surj_pair)
  have "only_assigned (example_memory 1)" "assigned_in (example_memory 1)
      (InServeShardResponse (Vid 7, Sid 0) (Some (Shard [1, 2, 3, 4])))"
    by (simp_all add: only_assigned_def assigned_shard_id_def initialize_def)
  then have "only_assigned dm'" using stores_only_assigned [OF _ _ e] by blast
  then show ?thesis unfolding e by simp
qed

end
