(* ===== verification/Swarm_Execution.thy ===== *)
theory Swarm_Execution
  imports Swarm_Poll Swarm_Main Swarm_Memory_Bus "HOL-Library.Sublist"
begin

text \<open>
  The way of a program through the swarm: from the user to the consensus, through the instruction
  memory and the processor of every peer, and back as reports of its execution. A peer is its main
  behaviour, its instruction memory and its processor, composed over the channels they share; the
  consensus is known by what \<open>consensus/graph.rs\<close> documents of recognized transactions: those of one
  author arrive in the order of his events, those of different authors in any order.
\<close>

subsection \<open>State\<close>

text \<open>A recognized transaction with its author and the hash it is delivered with.\<close>

type_synonym recognition = "PeerId \<times> EventHash \<times> Transaction"

text \<open>\<open>recog\<close> is what the consensus of the peer has recognized, \<open>executed\<close> which programs its processor has
  executed, \<open>reported\<close> what its user has read; \<open>scheduled\<close> waits for the next event of the peer.\<close>

record ('ev, 'm) peer =
  pbh :: "'ev Behaviour"
  pim :: InstructionMemory
  pbus :: "'m MemoryBus"
  pmem :: 'm
  running :: bool
  scheduled :: "Transaction list"
  recog :: "recognition list"
  executed :: "Program list"
  reported :: "UiOutEvent list"

text \<open>\<open>chain q\<close> are the transactions in the events of \<open>q\<close>, each with the hash it is delivered with.\<close>

record ('ev, 'm) computer =
  peers :: "PeerId \<Rightarrow> ('ev, 'm) peer"
  chain :: "PeerId \<Rightarrow> (EventHash \<times> Transaction) list"

definition peer_start :: "nat \<Rightarrow> (PeerId \<Rightarrow> 'm MemoryBus) \<Rightarrow> (PeerId \<Rightarrow> 'm) \<Rightarrow> PeerId \<Rightarrow> ('ev, 'm) peer" where
  "peer_start thr buses mems p =
     \<lparr>pbh = Behaviour_new 0 0 p 2 12 (module_channels_new None CHANNEL_BUFFER_LIMIT)
        (module_channels_new (Some CsReady) CHANNEL_BUFFER_LIMIT) (module_channels_new None CHANNEL_BUFFER_LIMIT)
        (module_channels_new None CHANNEL_BUFFER_LIMIT) (module_channels_new (Some Ready_State) CHANNEL_BUFFER_LIMIT)
        (module_channels_new None CHANNEL_BUFFER_LIMIT),
      pim = InstructionMemory_new thr, pbus = buses p, pmem = mems p, running = True,
      scheduled = [], recog = [], executed = [], reported = []\<rparr>"

definition computer_start :: "nat \<Rightarrow> (PeerId \<Rightarrow> 'm MemoryBus) \<Rightarrow> (PeerId \<Rightarrow> 'm) \<Rightarrow> ('ev, 'm) computer" where
  "computer_start thr buses mems = \<lparr>peers = peer_start thr buses mems, chain = (\<lambda>_. [])\<rparr>"

subsection \<open>Steps\<close>

definition push_all :: "'a list \<Rightarrow> 'a chan \<Rightarrow> 'a chan" where
  "push_all xs ch = ch\<lparr>queue := queue ch @ xs\<rparr>"

definition drop_first :: "'a chan \<Rightarrow> 'a chan" where
  "drop_first ch = ch\<lparr>queue := tl (queue ch)\<rparr>"

fun proc_program :: "ProcInEvent \<Rightarrow> Program" where
  "proc_program (Execute p) = p"

text \<open>The swarm polls the behaviour; an error or a panic ends the node.\<close>

definition poll_turn :: "bh_env \<Rightarrow> ('ev, 'm) peer \<Rightarrow> ('ev, 'm) peer" where
  "poll_turn env n =
     (if running n
      then (let (r, b) = bh_poll env (pbh n) in n\<lparr>pbh := b, running := (r = PollPending \<or> busy r)\<rparr>)
      else n)"

text \<open>The instruction memory takes an event.\<close>

definition instruction_turn :: "(Vid fset \<Rightarrow> Vid list) \<Rightarrow> ('ev, 'm) peer \<Rightarrow> ('ev, 'm) peer" where
  "instruction_turn ord n =
     (case queue (instruction_input (pbh n)) of
        [] \<Rightarrow> n
      | e # _ \<Rightarrow>
          (let (go, im, c) = is_run_event ord e (pim n, open_sink)
           in n\<lparr>pim := im, pbh := instruction_output_update (push_all (sent c))
                  (instruction_input_update drop_first (pbh n))\<rparr>))"

text \<open>The processor takes a program and executes it; the state cell is shared with the behaviour.\<close>

definition processor_turn ::
  "rs_library \<Rightarrow> exec_orders \<Rightarrow> bool \<times> bool \<Rightarrow> ('ev, 'm) peer \<Rightarrow> ('ev, 'm) peer" where
  "processor_turn lib o' lks n =
     (case queue (processor_input (pbh n)) of
        [] \<Rightarrow> n
      | e # _ \<Rightarrow>
          (let (go, sp, m, c) = proc_run_step lib o' lks (Input (Some e))
                 (\<lparr>memory_access = pbus n, module_state = processor_state (pbh n)\<rparr>, pmem n, open_sink)
           in n\<lparr>pmem := m, executed := executed n @ [proc_program e],
                pbh := (processor_output_update (push_all (sent c))
                  (processor_input_update drop_first (pbh n)))\<lparr>processor_state := module_state sp\<rparr>\<rparr>))"

text \<open>The consensus takes an input of the behaviour: transactions wait in its buffer.\<close>

definition consensus_turn :: "('ev, 'm) peer \<Rightarrow> ('ev, 'm) peer" where
  "consensus_turn n =
     (case queue (consensus_input (pbh n)) of
        [] \<Rightarrow> n
      | e # _ \<Rightarrow> n\<lparr>pbh := consensus_input_update drop_first (pbh n),
                  scheduled := scheduled n @ (case e of ScheduleTx tx \<Rightarrow> [tx] | _ \<Rightarrow> [])\<rparr>)"

text \<open>It recognizes a transaction and says so.\<close>

definition recognize :: "recognition \<Rightarrow> ('ev, 'm) peer \<Rightarrow> ('ev, 'm) peer" where
  "recognize x n = n\<lparr>recog := recog n @ [x],
     pbh := consensus_output_update (push_all [case x of (q, h, tx) \<Rightarrow> RecognizedTransaction q h tx]) (pbh n)\<rparr>"

definition by_author :: "PeerId \<Rightarrow> recognition list \<Rightarrow> (EventHash \<times> Transaction) list" where
  "by_author q xs = map snd (filter (\<lambda>x. fst x = q) xs)"

text \<open>What can happen at a peer besides: the user types and reads, the other modules and the network speak
  and listen, the state cell and the memory change.\<close>

datatype ('ev, 'm) event =
    PollTurn bh_env
  | InstructionTurn "Vid fset \<Rightarrow> Vid list"
  | ProcessorTurn rs_library exec_orders "bool \<times> bool"
  | ConsensusTurn
  | NewEvent "EventHash list"
  | RecognizeNext PeerId
  | OtherConsensus "'ev CsOutEvent"
  | DataSays DmOutEvent
  | NetworkSays RrOutEvent
  | TaskTakes
  | UserTypes UiInEvent
  | UserLooks
  | ConnectionChanges swarm_event
  | GossipArrives PeerId "'ev InnerMessage"
  | PeerDiscovered PeerId
  | StateChanges "ProcModuleState option"
  | MemoryChanges 'm

definition at_peer :: "PeerId \<Rightarrow> (('ev, 'm) peer \<Rightarrow> ('ev, 'm) peer) \<Rightarrow> ('ev, 'm) computer \<Rightarrow> ('ev, 'm) computer" where
  "at_peer p f cl = cl\<lparr>peers := (peers cl)(p := f (peers cl p))\<rparr>"

definition at_pbh :: "PeerId \<Rightarrow> ('ev Behaviour \<Rightarrow> 'ev Behaviour) \<Rightarrow> ('ev, 'm) computer \<Rightarrow> ('ev, 'm) computer" where
  "at_pbh p f = at_peer p (\<lambda>n. n\<lparr>pbh := f (pbh n)\<rparr>)"

text \<open>An event of the graph takes the scheduled transactions; where it has no hash for one, it is lost.\<close>

fun exec_step :: "PeerId \<Rightarrow> ('ev, 'm) event \<Rightarrow> ('ev, 'm) computer \<Rightarrow> ('ev, 'm) computer" where
  "exec_step p (PollTurn env) cl = at_peer p (poll_turn env) cl"
| "exec_step p (InstructionTurn ord) cl = at_peer p (instruction_turn ord) cl"
| "exec_step p (ProcessorTurn lib o' lks) cl = at_peer p (processor_turn lib o' lks) cl"
| "exec_step p ConsensusTurn cl = at_peer p consensus_turn cl"
| "exec_step p (NewEvent hs) cl =
     at_peer p (\<lambda>n. n\<lparr>scheduled := []\<rparr>)
       (cl\<lparr>chain := (chain cl)(p := chain cl p @ zip hs (scheduled (peers cl p)))\<rparr>)"
| "exec_step p (RecognizeNext q) cl =
     (let k = length (by_author q (recog (peers cl p))) in
      if k < length (chain cl q) then at_peer p (recognize (q, chain cl q ! k)) cl else cl)"
| "exec_step p (OtherConsensus e) cl = at_pbh p (consensus_output_update (push_all [e])) cl"
| "exec_step p (DataSays e) cl = at_pbh p (data_output_update (push_all [e])) cl"
| "exec_step p (NetworkSays e) cl = at_pbh p (rr_output_update (push_all [e])) cl"
| "exec_step p TaskTakes cl = at_pbh p (\<lambda>b. data_input_update drop_first (rr_input_update drop_first b)) cl"
| "exec_step p (UserTypes e) cl = at_pbh p (user_input_update (push_all [e])) cl"
| "exec_step p UserLooks cl =
     at_peer p (\<lambda>n. n\<lparr>reported := reported n @ queue (user_output (pbh n)),
       pbh := user_output_update (\<lambda>ch. ch\<lparr>queue := []\<rparr>) (pbh n)\<rparr>) cl"
| "exec_step p (ConnectionChanges e) cl = at_pbh p (on_swarm_event e) cl"
| "exec_step p (GossipArrives q m) cl = at_pbh p (on_connection_handler_event q m) cl"
| "exec_step p (PeerDiscovered q) cl = at_pbh p (inject_peer_discovered q) cl"
| "exec_step p (StateChanges s) cl = at_pbh p (\<lambda>b. b\<lparr>processor_state := s\<rparr>) cl"
| "exec_step p (MemoryChanges m) cl = at_peer p (\<lambda>n. n\<lparr>pmem := m\<rparr>) cl"

text \<open>All peers hash alike, and recognized transactions come only from the graph. \<open>ok\<close> may exclude
  further steps.\<close>

fun possible :: "hash_library \<Rightarrow> ('ev, 'm) event \<Rightarrow> bool" where
  "possible H (PollTurn env) \<longleftrightarrow> hashing env = H"
| "possible H (OtherConsensus (RecognizedTransaction q h tx)) \<longleftrightarrow> False"
| "possible H _ \<longleftrightarrow> True"

inductive computer_reachable ::
  "hash_library \<Rightarrow> (PeerId \<Rightarrow> ('ev, 'm) event \<Rightarrow> ('ev, 'm) computer \<Rightarrow> bool) \<Rightarrow> ('ev, 'm) computer \<Rightarrow> ('ev, 'm) computer \<Rightarrow> bool"
  for H ok start where
  start: "computer_reachable H ok start start"
| step: "computer_reachable H ok start cl \<Longrightarrow> possible H e \<Longrightarrow> ok p e cl
    \<Longrightarrow> computer_reachable H ok start (exec_step p e cl)"

definition computer_run :: "(PeerId \<times> ('ev, 'm) event) list \<Rightarrow> ('ev, 'm) computer \<Rightarrow> ('ev, 'm) computer" where
  "computer_run acts cl = fold (\<lambda>(p, e). exec_step p e) acts cl"

lemma computer_run_reachable:
  "computer_reachable H (\<lambda>_ _ _. True) start cl \<Longrightarrow> list_all (\<lambda>(p, e). possible H e) acts
    \<Longrightarrow> computer_reachable H (\<lambda>_ _ _. True) start (computer_run acts cl)"
  unfolding computer_run_def
  by (induction acts arbitrary: cl) (auto intro: computer_reachable.step)

lemma at_peer_sel [simp]:
  "peers (at_peer p f cl) q = (if q = p then f (peers cl p) else peers cl q)" "chain (at_peer p f cl) = chain cl"
  by (simp_all add: at_peer_def)

lemma at_pbh_sel [simp]:
  "peers (at_pbh p g cl) q = (if q = p then (peers cl p)\<lparr>pbh := g (pbh (peers cl p))\<rparr> else peers cl q)"
  "chain (at_pbh p g cl) = chain cl"
  by (simp_all add: at_pbh_def)

lemma push_all_queue [simp]: "queue (push_all xs ch) = queue ch @ xs"
  by (simp add: push_all_def)

lemma drop_first_queue [simp]: "queue (drop_first ch) = tl (queue ch)"
  by (simp add: drop_first_def)

subsection \<open>No program is lost, repeated or overtaken\<close>

fun finalized_of :: "IsInEvent \<Rightarrow> Program list" where
  "finalized_of (FinalizedProgram p) = [p]"
| "finalized_of _ = []"

definition next_of :: "IsOutEvent \<Rightarrow> Program list" where
  "next_of e = map proc_program (is_to_processor e)"

definition recognized_of :: "hash_library \<Rightarrow> 'ev CsOutEvent \<Rightarrow> Program list" where
  "recognized_of H c = concat (map finalized_of (cs_to_instruction_memory H c))"

text \<open>The programs of recognized transactions, in their order.\<close>

definition programs :: "hash_library \<Rightarrow> recognition list \<Rightarrow> Program list" where
  "programs H xs = concat (map (\<lambda>(q, h, tx). concat (map finalized_of (tx_to_instruction_memory H q h tx))) xs)"

text \<open>The programs under way at a node, the next one first; \<open>ys\<close> and \<open>xs\<close> are being handed over.\<close>

definition flow ::
  "hash_library \<Rightarrow> Program list \<Rightarrow> Program list \<Rightarrow> Program list \<Rightarrow> 'ev Behaviour \<Rightarrow> bool" where
  "flow H T ys xs b \<longleftrightarrow>
     map proc_program (queue (processor_input b)) @ ys @ concat (map next_of (queue (instruction_output b)))
     @ concat (map finalized_of (queue (instruction_input b))) @ xs
     @ concat (map (recognized_of H) (queue (consensus_output b))) = T"

definition flow_result :: "hash_library \<Rightarrow> Program list \<Rightarrow> 'ev bh_result \<Rightarrow> 'ev Behaviour \<Rightarrow> bool" where
  "flow_result H T r b \<longleftrightarrow>
     (if busy r then flow H T [] [] b else prefix (map proc_program (queue (processor_input b))) T) \<and> r \<noteq> PollPending"

interpretation flow: poll_steps "flow H T ys xs" "flow_result H T"
    "\<lambda>_. True" "\<lambda>_. True" "\<lambda>e. finalized_of e = []" "\<lambda>_. False" "\<lambda>_. True" "\<lambda>_. True" for H T ys xs
  by unfold_locales (auto simp: flow_def flow_result_def)

lemma flow_sends:
  "triple (flow H T [] [p]) (to_instruction_memory (FinalizedProgram p)) (flow H T [] []) (flow_result H T)"
  "triple (flow H T [p] []) (to_processor (Execute p)) (flow H T [] []) (flow_result H T)"
  by (rule triple_must_send; auto simp: flow_def flow_result_def)+

lemma flow_answer_request: "triple (flow H T ys xs) (answer_request r x) (flow H T ys xs) (flow_result H T)"
  unfolding answer_request_def [abs_def] Let_def
  by (rule triple_shift [OF flow.respond_all]) (simp_all add: flow_def list_all_iff)

lemma flow_rr_event: "triple (flow H T ys xs) (on_rr_event m) (flow H T ys xs) (flow_result H T)"
  by (cases m) (auto simp: triple_def must_send_def and_then_def flow_def flow_result_def
      split: prod.splits Poll.splits bool.splits option.splits Request.splits ProtoResponse.splits)

lemma flow_consensus_event:
  "triple (flow (hashing env) T [] (recognized_of (hashing env) e)) (on_consensus_event env e)
     (flow (hashing env) T [] []) (flow_result (hashing env) T)"
proof (cases e)
  case (RecognizedTransaction q h tx)
  have "triple (flow (hashing env) T [] (recognized_of (hashing env) e)) (handle_tx env q tx h)
      (flow (hashing env) T [] []) (flow_result (hashing env) T)"
  proof (cases tx)
    case (ExecuteTx ins)
    show ?thesis unfolding ExecuteTx
      by (rule flow.execute_tx) (use flow_sends(1) RecognizedTransaction ExecuteTx in \<open>simp add: recognized_of_def\<close>)
  qed (use RecognizedTransaction in \<open>simp_all add: recognized_of_def flow.transaction del: handle_tx.simps\<close>)
  then show ?thesis unfolding RecognizedTransaction by (rule flow.recognized)
next
  case (GenerateSyncResponse to jobs)
  then show ?thesis by (simp add: triple_def recognized_of_def flow_def flow_result_def)
qed (simp add: recognized_of_def del: on_consensus_event.simps, (rule flow.consensus_event; simp))+

lemma flow_instruction_event:
  "triple (flow H T (next_of e) []) (on_instruction_event e) (flow H T [] []) (flow_result H T)"
proof (cases e)
  case (NextProgram p)
  then show ?thesis using flow_sends(2) by (simp add: on_instruction_event_eq next_of_def)
qed (simp_all add: next_of_def flow.instruction_event del: on_instruction_event.simps)

lemma flow_taken:
  assumes "triple (flow H T [] []) (h e) (flow H T [] []) (flow_result H T)"
    and "\<And>f b. flow H T [] [] (upd f b) = flow H T [] [] b"
  shows "triple (taken get upd (flow H T [] []) e) (h e) (flow H T [] []) (flow_result H T)"
  by (rule triple_weaken [OF assms(1)]) (auto simp: taken_def assms(2))

interpretation flow_poll: poll_contract env "flow (hashing env) T [] []" "flow_result (hashing env) T" for env T
proof
  let ?I = "flow (hashing env) T [] []" and ?Q = "flow_result (hashing env) T"
  show "triple (taken data_output data_output_update ?I d) (on_data_memory_event env d) ?I ?Q" for d
    by (rule flow_taken, rule flow.data_memory_event) (simp_all add: list_all_iff flow_answer_request flow_def)
  show "triple (taken user_input user_input_update ?I u) (on_user_event env u) ?I ?Q" for u
    by (rule flow_taken, rule flow.user_event) (simp_all add: list_all_iff flow_def)
  show "triple (taken processor_output processor_output_update ?I f) (on_processor_event env f) ?I ?Q" for f
    by (rule flow_taken, rule flow.processor_event) (simp_all add: flow_def)
  show "triple (taken instruction_output instruction_output_update ?I e) (on_instruction_event e) ?I ?Q" for e
    by (rule triple_weaken [OF flow_instruction_event]) (auto simp: taken_def flow_def)
  show "triple (taken consensus_output consensus_output_update ?I e) (on_consensus_event env e) ?I ?Q" for e
    by (rule triple_weaken [OF flow_consensus_event]) (auto simp: taken_def flow_def)
  show "triple (taken rr_output rr_output_update ?I m) (on_rr_event m) ?I ?Q" for m
    by (rule flow_taken, rule flow_rr_event) (simp add: flow_def)
  show "?Q (Dial p) (b\<lparr>discovered_peers := butlast (discovered_peers b)\<rparr>)"
    if "?I b" for b :: "'a Behaviour" and p
    using that by (simp add: flow_def flow_result_def)
qed (rule flow.stops flow.messages flow.oneshot flow.gossip; simp)+

text \<open>What a node has executed and has under way are the programs it recognized; when it has stopped, what
  is left for its processor are the next ones of them.\<close>

definition peer_flow :: "hash_library \<Rightarrow> ('ev, 'm) peer \<Rightarrow> bool" where
  "peer_flow H n \<longleftrightarrow>
     (running n \<longrightarrow> (\<exists>F. programs H (recog n) = executed n @ F \<and> flow H F [] [] (pbh n)))
     \<and> prefix (executed n @ map proc_program (queue (processor_input (pbh n)))) (programs H (recog n))"

lemma peer_flow_cong:
  assumes "peer_flow H n" and "running n' = running n" "executed n' = executed n" "recog n' = recog n"
    and "queue (processor_input (pbh n')) = queue (processor_input (pbh n))"
    "queue (instruction_output (pbh n')) = queue (instruction_output (pbh n))"
    "queue (instruction_input (pbh n')) = queue (instruction_input (pbh n))"
    "concat (map (recognized_of H) (queue (consensus_output (pbh n')))) = concat (map (recognized_of H) (queue (consensus_output (pbh n))))"
  shows "peer_flow H n'"
  using assms unfolding peer_flow_def flow_def by (simp del: append_assoc)

lemma poll_turn_flow:
  assumes "hashing env = H" and "peer_flow H n"
  shows "peer_flow H (poll_turn env n)"
proof (cases "running n")
  case True
  then obtain F where F: "programs H (recog n) = executed n @ F" "flow H F [] [] (pbh n)"
    using assms(2) by (auto simp: peer_flow_def)
  obtain r b where r: "bh_poll env (pbh n) = (r, b)" by force
  have "r = PollPending \<and> flow H F [] [] b \<or> flow_result H F r b"
    using flow_poll.poll [of env F "pbh n" r b] F(2) r assms(1) by simp
  then show ?thesis
    using F(1) True r by (auto simp: poll_turn_def peer_flow_def flow_result_def flow_def split: if_splits)
qed (use assms in \<open>simp add: poll_turn_def\<close>)

lemma is_run_event_next:
  "is_run_event ord e (im, open_sink) = (go, im', c) \<Longrightarrow> concat (map next_of (sent c)) = finalized_of e"
  by (cases e) (auto simp: next_of_def sink_simps Let_def split: prod.splits option.splits if_splits)

lemma instruction_turn_flow:
  assumes "peer_flow H n"
  shows "peer_flow H (instruction_turn ord n)"
proof (cases "queue (instruction_input (pbh n))")
  case (Cons e es)
  obtain go im c where r: "is_run_event ord e (pim n, open_sink) = (go, im, c)" by (metis prod_cases3)
  show ?thesis using assms Cons r is_run_event_next [OF r]
    by (simp add: instruction_turn_def peer_flow_def flow_def)
qed (use assms in \<open>simp add: instruction_turn_def\<close>)

lemma processor_turn_flow:
  assumes "peer_flow H n"
  shows "peer_flow H (processor_turn lib o' lks n)"
  using assms
  by (auto simp: processor_turn_def peer_flow_def flow_def Let_def split: list.splits prod.splits)

lemma programs_snoc:
  "programs H (xs @ [(q, h, tx)]) = programs H xs @ concat (map finalized_of (tx_to_instruction_memory H q h tx))"
  by (simp add: programs_def)

lemma recognize_flow: "peer_flow H n \<Longrightarrow> peer_flow H (recognize x n)"
  by (cases x) (auto simp: recognize_def peer_flow_def flow_def programs_snoc recognized_of_def intro: prefix_prefix)

lemma consensus_turn_flow: "peer_flow H n \<Longrightarrow> peer_flow H (consensus_turn n)"
  by (erule peer_flow_cong) (simp_all add: consensus_turn_def split: list.splits)

lemma other_recognized: "possible H (OtherConsensus e :: ('ev, 'm) event) \<Longrightarrow> recognized_of H e = []"
  by (cases e) (simp_all add: recognized_of_def)

lemma swarm_event_queues:
  "queue (processor_input (on_swarm_event e b)) = queue (processor_input b)"
  "queue (instruction_output (on_swarm_event e b)) = queue (instruction_output b)"
  "queue (instruction_input (on_swarm_event e b)) = queue (instruction_input b)"
  "queue (consensus_output (on_swarm_event e b)) = queue (consensus_output b)"
  by (cases e; simp)+

lemma handler_event_queues:
  "queue (processor_input (on_connection_handler_event q m b)) = queue (processor_input b)"
  "queue (instruction_output (on_connection_handler_event q m b)) = queue (instruction_output b)"
  "queue (instruction_input (on_connection_handler_event q m b)) = queue (instruction_input b)"
  "queue (consensus_output (on_connection_handler_event q m b)) = queue (consensus_output b)"
  by (cases m; simp)+

definition computer_flow :: "hash_library \<Rightarrow> ('ev, 'm) computer \<Rightarrow> bool" where
  "computer_flow H cl \<longleftrightarrow>
     (\<forall>p. peer_flow H (peers cl p) \<and> (\<forall>q. prefix (by_author q (recog (peers cl p))) (chain cl q)))"

lemma at_peer_flow:
  assumes "computer_flow H cl" and "recog (f (peers cl p)) = recog (peers cl p)"
    and "peer_flow H (peers cl p) \<Longrightarrow> peer_flow H (f (peers cl p))"
  shows "computer_flow H (at_peer p f cl)"
  using assms by (simp add: computer_flow_def)

lemma turn_recog [simp]:
  "recog (poll_turn env n) = recog n" "recog (instruction_turn ord n) = recog n"
  "recog (processor_turn lib o' lks n) = recog n" "recog (consensus_turn n) = recog n"
  by (simp_all add: poll_turn_def instruction_turn_def processor_turn_def consensus_turn_def Let_def
      split: list.splits prod.splits)

lemma turn_executed [simp]:
  "executed (poll_turn env n) = executed n" "executed (instruction_turn ord n) = executed n"
  "executed (consensus_turn n) = executed n" "executed (recognize x n) = executed n"
  by (simp_all add: poll_turn_def instruction_turn_def consensus_turn_def recognize_def Let_def
      split: list.splits prod.splits)

lemma recognize_next_flow:
  assumes cl: "computer_flow H cl" and k: "length (by_author q (recog (peers cl p))) < length (chain cl q)"
  shows "computer_flow H (at_peer p (recognize (q, chain cl q ! length (by_author q (recog (peers cl p))))) cl)"
proof -
  let ?xs = "recog (peers cl p)"
  have "prefix (by_author q ?xs @ [chain cl q ! length (by_author q ?xs)]) (chain cl q)"
    using cl k by (intro append_one_prefix) (simp_all add: computer_flow_def)
  then have "prefix (by_author q' (?xs @ [(q, chain cl q ! length (by_author q ?xs))])) (chain cl q')" for q'
    using cl by (auto simp: by_author_def computer_flow_def)
  with cl show ?thesis by (simp add: computer_flow_def recognize_flow) (simp add: recognize_def)
qed

lemma exec_step_flow:
  assumes cl: "computer_flow H cl" and e: "possible H e"
  shows "computer_flow H (exec_step p e cl)"
proof (cases e)
  case (PollTurn env)
  then show ?thesis using e by (simp add: at_peer_flow [OF cl] poll_turn_flow)
next
  case (NewEvent hs)
  have "peer_flow H ((peers cl p)\<lparr>scheduled := []\<rparr>)"
    by (rule peer_flow_cong [of H "peers cl p"]) (use cl in \<open>simp_all add: computer_flow_def\<close>)
  then show ?thesis using cl NewEvent by (simp add: computer_flow_def prefix_prefix)
next
  case (RecognizeNext q)
  then show ?thesis using recognize_next_flow [OF cl] cl by (simp add: Let_def)
qed (use e in \<open>auto simp: at_pbh_def swarm_event_queues handler_event_queues inject_peer_discovered_def other_recognized
      instruction_turn_flow processor_turn_flow consensus_turn_flow
      intro!: at_peer_flow [OF cl] elim: peer_flow_cong\<close>)

lemma computer_start_flow: "computer_flow H (computer_start thr buses mems)"
  by (simp add: computer_flow_def peer_flow_def flow_def programs_def by_author_def computer_start_def peer_start_def
      Behaviour_new_def module_channels_new_def mpsc_channel_def)

lemma computer_reachable_flow:
  "computer_reachable H ok (computer_start thr buses mems) cl \<Longrightarrow> computer_flow H cl"
  by (induction rule: computer_reachable.induct) (simp_all add: computer_start_flow exec_step_flow)

text \<open>A single commander: all programs are in the events of one peer.\<close>

lemma programs_append: "programs H (xs @ ys) = programs H xs @ programs H ys"
  by (simp add: programs_def)

lemma programs_mono: "prefix xs ys \<Longrightarrow> prefix (programs H xs) (programs H ys)"
  by (auto simp: prefix_def programs_append)

lemma programs_commander:
  assumes "\<And>q h ins. (q, h, ExecuteTx ins) \<in> set xs \<Longrightarrow> q = c"
  shows "programs H xs = programs H (map (Pair c) (by_author c xs))"
  using assms
proof (induction xs)
  case (Cons x xs)
  obtain q h tx where x: "x = (q, h, tx)" by (metis prod_cases3)
  have IH: "programs H xs = programs H (map (Pair c) (by_author c xs))" by (rule Cons.IH) (use Cons.prems in auto)
  have "concat (map finalized_of (tx_to_instruction_memory H q h tx)) = []" if "q \<noteq> c"
  proof (cases tx)
    case (ExecuteTx ins)
    with Cons.prems [of q h ins] that x show ?thesis by simp
  qed simp_all
  with IH show ?case by (simp add: programs_def by_author_def x)
qed (simp add: programs_def by_author_def)

lemma recognized_in_chain:
  assumes "computer_flow H cl" and "(q, h, tx) \<in> set (recog (peers cl p))"
  shows "(h, tx) \<in> set (chain cl q)"
proof -
  have "(h, tx) \<in> set (by_author q (recog (peers cl p)))" using assms(2) by (force simp: by_author_def)
  then show ?thesis using assms(1) by (auto simp: computer_flow_def dest: set_mono_prefix)
qed

lemma executed_of_commander:
  assumes "computer_flow H cl" and "\<And>q h ins. (h, ExecuteTx ins) \<in> set (chain cl q) \<Longrightarrow> q = c"
  shows "prefix (executed (peers cl p)) (programs H (map (Pair c) (chain cl c)))"
proof -
  have "prefix (executed (peers cl p)) (programs H (recog (peers cl p)))"
    using assms(1) by (auto simp: computer_flow_def peer_flow_def dest: append_prefixD)
  also have "programs H (recog (peers cl p)) = programs H (map (Pair c) (by_author c (recog (peers cl p))))"
    by (rule programs_commander) (use assms recognized_in_chain in blast)
  also have "prefix \<dots> (programs H (map (Pair c) (chain cl c)))"
    using assms(1) by (intro programs_mono map_mono_prefix) (simp add: computer_flow_def)
  finally show ?thesis .
qed

subsection \<open>An example run\<close>

text \<open>A hash that tells the programs of the examples apart.\<close>

definition example_hash :: "u8 \<Rightarrow> EventHash" where
  "example_hash x = EventHash (replicate 64 x)"

abbreviation start_two :: "(unit, bus_world) computer" where
  "start_two \<equiv> computer_start 2 (\<lambda>_. dm_bus (sorted_env Default_Array)) (\<lambda>_. example_bus)"

text \<open>The turns of a peer that has recognized a transaction.\<close>

abbreviation turns :: "PeerId \<Rightarrow> (PeerId \<times> ('ev, 'm) event) list" where
  "turns p \<equiv> map (Pair p) [PollTurn quiet_env, InstructionTurn sorted_list_of_fset, PollTurn quiet_env,
     ProcessorTurn parity_library sorted_orders (False, False), PollTurn quiet_env, ConsensusTurn]"

text \<open>The user of \<open>p\<close> schedules a program, and an event of \<open>p\<close> takes it.\<close>

abbreviation command :: "PeerId \<Rightarrow> u8 \<Rightarrow> Instructions \<Rightarrow> (PeerId \<times> ('ev, 'm) event) list" where
  "command p x ins \<equiv> map (Pair p) [UserTypes (ScheduleProgram ins), PollTurn quiet_env, ConsensusTurn, NewEvent [example_hash x]]"

abbreviation example_sum :: Instructions where
  "example_sum \<equiv> [instr_plus (Vid 1) (Vid 2) (Vid 3)]"

abbreviation one_commander :: "(PeerId \<times> (unit, bus_world) event) list" where
  "one_commander \<equiv> command 1 1 example_sum @ concat (map (\<lambda>p. (p, RecognizeNext 1) # turns p) [1, 2])
     @ [(1, NewEvent [example_hash 2]), (2, NewEvent [example_hash 3])]
     @ (1, RecognizeNext 1) # turns 1 @ (1, RecognizeNext 2) # turns 1 @ [(1, UserLooks)]"

text \<open>Two users command at the same time, and each peer recognizes its own command first.\<close>

abbreviation other_sum :: Instructions where
  "other_sum \<equiv> [instr_plus (Vid 2) (Vid 2) (Vid 1)]"

abbreviation two_commanders :: "(PeerId \<times> (unit, bus_world) event) list" where
  "two_commanders \<equiv> command 1 1 example_sum @ command 2 2 other_sum
     @ (1, RecognizeNext 1) # turns 1 @ (1, RecognizeNext 2) # turns 1
     @ (2, RecognizeNext 2) # turns 2 @ (2, RecognizeNext 1) # turns 2"

lemma two_commanders_possible: "list_all (\<lambda>(p, e). possible (hashing quiet_env) e) two_commanders"
  by simp

lemma one_commander_possible: "list_all (\<lambda>(p, e). possible (hashing quiet_env) e) one_commander"
  by simp

definition agreeing :: "(unit, bus_world) computer" where
  "agreeing = computer_run one_commander start_two"

definition disagreeing :: "(unit, bus_world) computer" where
  "disagreeing = computer_run two_commanders start_two"

lemma agreeing_reachable: "computer_reachable (hashing quiet_env) (\<lambda>_ _ _. True) start_two agreeing"
  unfolding agreeing_def by (rule computer_run_reachable [OF computer_reachable.start one_commander_possible])

lemma disagreeing_reachable: "computer_reachable (hashing quiet_env) (\<lambda>_ _ _. True) start_two disagreeing"
  unfolding disagreeing_def by (rule computer_run_reachable [OF computer_reachable.start two_commanders_possible])

fun is_command :: "Transaction \<Rightarrow> bool" where
  "is_command (ExecuteTx _) \<longleftrightarrow> True"
| "is_command _ \<longleftrightarrow> False"

lemma chain_others: "q \<notin> fst ` set acts \<Longrightarrow> chain (computer_run acts cl) q = chain cl q"
  unfolding computer_run_def
proof (induction acts arbitrary: cl)
  case (Cons x acts)
  obtain p e where x: "x = (p, e)" by force
  have "chain (exec_step p e cl) q = chain cl q" using Cons.prems x by (cases e) (auto simp: Let_def)
  with Cons x show ?case by simp
qed simp

subsection \<open>Properties\<close>

text \<open>C3: peers agree on the programs. When all programs come from one peer, then in every state that the
  swarm can reach, however the tasks of the peers interleave and whatever the users, the data memories
  and the network do: every peer has executed the first of this peer's programs, in the order of his
  events, each once, and of any two peers one has only gone further than the other.\<close>

theorem programs_agree:
  assumes "computer_reachable H ok (computer_start thr buses mems) cl"
    and "\<And>q h ins. (h, ExecuteTx ins) \<in> set (chain cl q) \<Longrightarrow> q = commander"
  shows "prefix (executed (peers cl p)) (programs H (map (Pair commander) (chain cl commander)))
    \<and> (prefix (executed (peers cl p)) (executed (peers cl q)) \<or> prefix (executed (peers cl q)) (executed (peers cl p)))"
proof -
  have "prefix (executed (peers cl p)) (programs H (map (Pair commander) (chain cl commander)))" for p
    by (rule executed_of_commander [OF computer_reachable_flow [OF assms(1)]]) (rule assms(2))
  then show ?thesis using prefix_same_cases by blast
qed

theorem programs_agree_witness:
  "map instructions (executed (peers agreeing 1)) = [example_sum]
   \<and> prefix (executed (peers agreeing 1)) (programs (hashing quiet_env) (map (Pair 1) (chain agreeing 1)))"
proof -
  have "chain agreeing q = []" if "q \<noteq> 1" "q \<noteq> 2" for q
    using chain_others [of q one_commander start_two] that by (simp add: agreeing_def computer_start_def)
  moreover have "list_all (\<lambda>x. \<not> is_command (snd x)) (chain agreeing 2)" by code_simp
  ultimately have "q = 1" if "(h, ExecuteTx ins) \<in> set (chain agreeing q)" for q h ins
    using that by (cases "q = 2"; cases "q = 1") (auto simp: list_all_iff)
  moreover have "map instructions (executed (peers agreeing 1)) = [example_sum]" by code_simp
  ultimately show ?thesis using programs_agree [OF agreeing_reachable, of 1 1 1] by metis
qed

text \<open>C37: peers do not agree on the order of programs from different authors: transactions are executed
  when they are recognized, before the consensus has ordered them. In a swarm of two whose users command
  at the same time, the peers execute the two programs in opposite orders.\<close>

theorem two_commanders_disagree:
  "\<exists>cl :: (unit, bus_world) computer. computer_reachable (hashing quiet_env) (\<lambda>_ _ _. True) start_two cl
     \<and> map instructions (executed (peers cl 1)) = [example_sum, other_sum]
     \<and> map instructions (executed (peers cl 2)) = [other_sum, example_sum]"
proof (intro exI conjI)
  show "computer_reachable (hashing quiet_env) (\<lambda>_ _ _. True) start_two disagreeing" by (rule disagreeing_reachable)
  show "map instructions (executed (peers disagreeing 1)) = [example_sum, other_sum]" by code_simp
  show "map instructions (executed (peers disagreeing 2)) = [other_sum, example_sum]" by code_simp
qed

end
