(* ===== verification/Swarm_Reports.thy ===== *)
theory Swarm_Reports
  imports Swarm_Execution
begin

text \<open>
  The reports of executions: a peer reports a program only after its processor has executed it, and
  what the user is told of a finished program rests on as many true reports as the threshold says.
\<close>

subsection \<open>Reports tell the truth\<close>

text \<open>\<open>A q pid\<close>: peer \<open>q\<close> has executed the program \<open>pid\<close>.\<close>

definition has_executed :: "('ev, 'm) computer \<Rightarrow> PeerId \<Rightarrow> ProgramIdentifier \<Rightarrow> bool" where
  "has_executed cl q pid \<longleftrightarrow> pid \<in> program_identifier ` set (executed (peers cl q))"

definition quorum :: "nat \<Rightarrow> (PeerId \<Rightarrow> ProgramIdentifier \<Rightarrow> bool) \<Rightarrow> ProgramIdentifier \<Rightarrow> bool" where
  "quorum thr A pid \<longleftrightarrow> (\<exists>S. thr \<le> fcard S \<and> (\<forall>q. q |\<in>| S \<longrightarrow> A q pid))"

fun true_tx :: "(PeerId \<Rightarrow> ProgramIdentifier \<Rightarrow> bool) \<Rightarrow> PeerId \<Rightarrow> Transaction \<Rightarrow> bool" where
  "true_tx A q (Executed pid) \<longleftrightarrow> A q pid"
| "true_tx A q _ \<longleftrightarrow> True"

fun true_cs_in :: "(PeerId \<Rightarrow> ProgramIdentifier \<Rightarrow> bool) \<Rightarrow> PeerId \<Rightarrow> 'ev CsInEvent \<Rightarrow> bool" where
  "true_cs_in A p (ScheduleTx tx) \<longleftrightarrow> true_tx A p tx"
| "true_cs_in A p _ \<longleftrightarrow> True"

fun true_cs_out :: "(PeerId \<Rightarrow> ProgramIdentifier \<Rightarrow> bool) \<Rightarrow> 'ev CsOutEvent \<Rightarrow> bool" where
  "true_cs_out A (RecognizedTransaction q h tx) \<longleftrightarrow> true_tx A q tx"
| "true_cs_out A _ \<longleftrightarrow> True"

fun true_is_in :: "(PeerId \<Rightarrow> ProgramIdentifier \<Rightarrow> bool) \<Rightarrow> IsInEvent \<Rightarrow> bool" where
  "true_is_in A (ExecutedProgram q pid) \<longleftrightarrow> A q pid"
| "true_is_in A _ \<longleftrightarrow> True"

fun true_is_out :: "nat \<Rightarrow> (PeerId \<Rightarrow> ProgramIdentifier \<Rightarrow> bool) \<Rightarrow> IsOutEvent \<Rightarrow> bool" where
  "true_is_out thr A (IsFinishedExecution pid) \<longleftrightarrow> quorum thr A pid"
| "true_is_out thr A _ \<longleftrightarrow> True"

fun true_ui_out :: "nat \<Rightarrow> (PeerId \<Rightarrow> ProgramIdentifier \<Rightarrow> bool) \<Rightarrow> UiOutEvent \<Rightarrow> bool" where
  "true_ui_out thr A (ProgramExecuted pid) \<longleftrightarrow> quorum thr A pid"
| "true_ui_out thr A _ \<longleftrightarrow> True"

fun true_pr_out :: "(PeerId \<Rightarrow> ProgramIdentifier \<Rightarrow> bool) \<Rightarrow> PeerId \<Rightarrow> ProcOutEvent \<Rightarrow> bool" where
  "true_pr_out A p (FinishedExecution pid results) \<longleftrightarrow> A p pid"

definition true_channels ::
  "nat \<Rightarrow> (PeerId \<Rightarrow> ProgramIdentifier \<Rightarrow> bool) \<Rightarrow> PeerId \<Rightarrow> 'ev Behaviour \<Rightarrow> bool" where
  "true_channels thr A p b \<longleftrightarrow>
     list_all (true_cs_in A p) (queue (consensus_input b)) \<and> list_all (true_cs_out A) (queue (consensus_output b))
     \<and> list_all (true_is_in A) (queue (instruction_input b)) \<and> list_all (true_is_out thr A) (queue (instruction_output b))
     \<and> list_all (true_ui_out thr A) (queue (user_output b)) \<and> list_all (true_pr_out A p) (queue (processor_output b))"

interpretation reports: poll_steps "true_channels thr A p" "\<lambda>_. true_channels thr A p"
    "true_tx A p" "\<lambda>_. True" "true_is_in A" "\<lambda>_. True" "true_ui_out thr A" "\<lambda>_. True" for thr A p
proof unfold_locales
  show "true_channels thr A p (b\<lparr>consensus_input := (consensus_input b)\<lparr>queue := queue (consensus_input b) @ [c]\<rparr>\<rparr>)"
    if "true_channels thr A p b" "\<not> is_schedule c" for b :: "'a Behaviour" and c
    using that by (cases c) (simp_all add: true_channels_def)
qed (simp_all add: true_channels_def)

lemma reports_answer_request:
  "triple (true_channels thr A p) (answer_request r x) (true_channels thr A p) (\<lambda>_. true_channels thr A p)"
  unfolding answer_request_def [abs_def] Let_def
  by (rule triple_shift [OF reports.respond_all]) (simp_all add: true_channels_def list_all_iff)

lemma reports_rr_event: "triple (true_channels thr A p) (on_rr_event m) (true_channels thr A p) (\<lambda>_. true_channels thr A p)"
  by (cases m) (auto simp: triple_def must_send_def and_then_def true_channels_def
      split: prod.splits Poll.splits bool.splits option.splits Request.splits ProtoResponse.splits)

lemma reports_data_memory_event:
  "triple (true_channels thr A p) (on_data_memory_event env d) (true_channels thr A p) (\<lambda>_. true_channels thr A p)"
  by (rule reports.data_memory_event; cases d) (simp_all add: reports_answer_request)

lemma reports_consensus_event:
  assumes "true_cs_out A e"
  shows "triple (true_channels thr A p) (on_consensus_event env e) (true_channels thr A p) (\<lambda>_. true_channels thr A p)"
proof (rule reports.consensus_event)
  have "true_tx A q tx \<Longrightarrow> list_all (true_is_in A) (tx_to_instruction_memory H q h tx)" for H q h tx
    by (cases tx) (simp_all split: outcome.splits)
  then show "list_all (true_is_in A) (cs_to_instruction_memory (hashing env) e)" using assms by (cases e) simp_all
qed (simp_all add: list_all_iff)

interpretation reports_poll: poll_contract env "true_channels thr A p" "\<lambda>_. true_channels thr A p" for env thr A p
proof
  let ?I = "true_channels thr A p"
  show "triple (taken data_output data_output_update ?I d) (on_data_memory_event env d) ?I (\<lambda>_. ?I)" for d
    by (rule triple_taken [of _ _ _ True ?I, OF _ reports_data_memory_event]) (simp add: true_channels_def)
  show "triple (taken user_input user_input_update ?I u) (on_user_event env u) ?I (\<lambda>_. ?I)" for u
    by (rule triple_taken [of _ _ _ True ?I, OF _ reports.user_event]) (simp_all add: true_channels_def list_all_iff)
  show "triple (taken processor_output processor_output_update ?I f) (on_processor_event env f) ?I (\<lambda>_. ?I)" for f
    by (rule triple_taken [of _ _ _ "true_pr_out A p f" ?I, OF _ reports.processor_event]) (auto simp: true_channels_def)
  show "triple (taken instruction_output instruction_output_update ?I e) (on_instruction_event e) ?I (\<lambda>_. ?I)" for e
    by (rule triple_taken [of _ _ _ "true_is_out thr A e" ?I, OF _ reports.instruction_event])
      (cases e; simp add: true_channels_def list_all_iff)+
  show "triple (taken consensus_output consensus_output_update ?I e) (on_consensus_event env e) ?I (\<lambda>_. ?I)" for e
    by (rule triple_taken [of _ _ _ "true_cs_out A e" ?I, OF _ reports_consensus_event]) (simp_all add: true_channels_def)
  show "triple (taken rr_output rr_output_update ?I m) (on_rr_event m) ?I (\<lambda>_. ?I)" for m
    by (rule triple_taken [of _ _ _ True ?I, OF _ reports_rr_event]) (simp add: true_channels_def)
  show "true_channels thr A p b" if "true_channels thr A p b" for b :: "'a Behaviour" by (rule that)
  show "true_channels thr A p (b\<lparr>discovered_peers := ps\<rparr>)" if "true_channels thr A p b" for b :: "'a Behaviour" and ps
    using that by (simp add: true_channels_def)
qed (rule reports.messages reports.oneshot reports.gossip, assumption?)+

definition im_true :: "nat \<Rightarrow> (PeerId \<Rightarrow> ProgramIdentifier \<Rightarrow> bool) \<Rightarrow> InstructionMemory \<Rightarrow> bool" where
  "im_true thr A im \<longleftrightarrow> accept_threshold im = thr
     \<and> (\<forall>pid md S q. fmlookup (currently_executed im) pid = Some md \<longrightarrow> exec_state md = Executing S \<longrightarrow> q |\<in>| S \<longrightarrow> A q pid)"

definition peer_true :: "nat \<Rightarrow> (PeerId \<Rightarrow> ProgramIdentifier \<Rightarrow> bool) \<Rightarrow> PeerId \<Rightarrow> ('ev, 'm) peer \<Rightarrow> bool" where
  "peer_true thr A p n \<longleftrightarrow> true_channels thr A p (pbh n) \<and> im_true thr A (pim n)
     \<and> list_all (true_tx A p) (scheduled n) \<and> list_all (true_ui_out thr A) (reported n)"

definition computer_true :: "nat \<Rightarrow> ('ev, 'm) computer \<Rightarrow> bool" where
  "computer_true thr cl \<longleftrightarrow> (\<forall>p. peer_true thr (has_executed cl) p (peers cl p)
     \<and> list_all (\<lambda>(h, tx). true_tx (has_executed cl) p tx) (chain cl p))"

lemma true_mono:
  assumes A: "\<And>q pid. A q pid \<Longrightarrow> A' q pid"
  shows "true_tx A q tx \<Longrightarrow> true_tx A' q tx" "true_cs_in A q ci \<Longrightarrow> true_cs_in A' q ci"
    "true_cs_out A co \<Longrightarrow> true_cs_out A' co" "true_is_in A ii \<Longrightarrow> true_is_in A' ii"
    "true_is_out thr A io \<Longrightarrow> true_is_out thr A' io" "true_ui_out thr A uo \<Longrightarrow> true_ui_out thr A' uo"
    "true_pr_out A q po \<Longrightarrow> true_pr_out A' q po"
proof -
  show tx: "true_tx A q tx \<Longrightarrow> true_tx A' q tx" for q tx by (cases tx) (simp_all add: A)
  have quo: "quorum thr A pid \<Longrightarrow> quorum thr A' pid" for pid using A unfolding quorum_def by blast
  show "true_cs_in A q ci \<Longrightarrow> true_cs_in A' q ci" by (cases ci) (simp_all add: tx)
  show "true_cs_out A co \<Longrightarrow> true_cs_out A' co" by (cases co) (simp_all add: tx)
  show "true_is_in A ii \<Longrightarrow> true_is_in A' ii" by (cases ii) (simp_all add: A)
  show "true_is_out thr A io \<Longrightarrow> true_is_out thr A' io" by (cases io) (simp_all add: quo)
  show "true_ui_out thr A uo \<Longrightarrow> true_ui_out thr A' uo" by (cases uo) (simp_all add: quo)
  show "true_pr_out A q po \<Longrightarrow> true_pr_out A' q po" by (cases po) (simp_all add: A)
qed

lemma peer_true_mono:
  assumes "\<And>q pid. A q pid \<Longrightarrow> A' q pid" and "peer_true thr A p n"
  shows "peer_true thr A' p n"
  using assms(2) unfolding peer_true_def true_channels_def im_true_def
  by (auto elim!: list.pred_mono_strong intro: true_mono [of A A', OF assms(1)] assms(1))

lemma has_executed_at_peer:
  "has_executed (at_peer p f cl) q = (if q = p then \<lambda>pid. pid \<in> program_identifier ` set (executed (f (peers cl p))) else has_executed cl q)"
  by (auto simp: has_executed_def fun_eq_iff)

lemma at_peer_true:
  assumes cl: "computer_true thr cl" and ex: "set (executed (peers cl p)) \<subseteq> set (executed (f (peers cl p)))"
    and f: "peer_true thr (has_executed (at_peer p f cl)) p (peers cl p)
      \<Longrightarrow> peer_true thr (has_executed (at_peer p f cl)) p (f (peers cl p))"
  shows "computer_true thr (at_peer p f cl)"
proof -
  have A: "has_executed cl q pid \<Longrightarrow> has_executed (at_peer p f cl) q pid" for q pid
    using ex by (auto simp: has_executed_at_peer) (auto simp: has_executed_def)
  have "peer_true thr (has_executed (at_peer p f cl)) q (peers cl q)" for q
    by (rule peer_true_mono [of "has_executed cl"]) (use A cl in \<open>simp_all add: computer_true_def\<close>)
  moreover have "list_all (\<lambda>(h, tx). true_tx (has_executed (at_peer p f cl)) q tx) (chain cl q)" for q
    using cl true_mono(1) [of "has_executed cl" "has_executed (at_peer p f cl)", OF A]
    by (fastforce simp: computer_true_def list_all_iff)
  ultimately show ?thesis using f by (simp add: computer_true_def)
qed

lemma at_pbh_true:
  assumes "computer_true thr cl" and "\<And>A. true_channels thr A p (pbh (peers cl p)) \<Longrightarrow> true_channels thr A p (f (pbh (peers cl p)))"
  shows "computer_true thr (at_pbh p f cl)"
  unfolding at_pbh_def by (rule at_peer_true [OF assms(1)]) (simp_all add: peer_true_def assms(2))

lemma poll_turn_true: "peer_true thr A p n \<Longrightarrow> peer_true thr A p (poll_turn env n)"
  using reports_poll.poll [of thr A p "pbh n" env]
  by (cases "bh_poll env (pbh n)") (auto simp: poll_turn_def peer_true_def)

lemma notify_executed_true:
  assumes "im_true thr A im" and "A who pid" and "notify_executed who pid im = (fin, im')"
  shows "im_true thr A im'" "fin \<Longrightarrow> quorum thr A pid"
proof -
  have S: "\<forall>q. q |\<in>| finsert who S \<longrightarrow> A q pid"
    if "fmlookup (currently_executed im) pid = Some md" "exec_state md = Executing S" for md S
    using assms(1,2) that by (auto simp: im_true_def)
  then show "fin \<Longrightarrow> quorum thr A pid"
    using assms(1,3) unfolding quorum_def
    by (auto simp: notify_executed_def im_true_def Let_def split: option.splits ExecutionState.splits)
  show "im_true thr A im'"
    using S assms(1,3) by (auto simp: notify_executed_def im_true_def Let_def split: option.splits ExecutionState.splits if_splits)
qed

lemma is_run_event_true:
  assumes "im_true thr A im" and "true_is_in A e" and "is_run_event ord e (im, open_sink) = (go, im', c)"
  shows "im_true thr A im' \<and> list_all (true_is_out thr A) (sent c)"
proof (cases e)
  case (FinalizedProgram p)
  with assms show ?thesis
    by (auto simp: notify_finalized_def new_started_executing_def default_execution_state_def im_true_def sink_simps
        split: option.splits if_splits)
next
  case (ExecutedProgram who pid)
  obtain fin im1 where n: "notify_executed who pid im = (fin, im1)" by force
  have A: "A who pid" using assms(2) ExecutedProgram by simp
  show ?thesis
    using assms(3) ExecutedProgram n notify_executed_true [OF assms(1) A n]
    by (auto simp: sink_simps Let_def split: option.splits if_splits)
qed

lemma instruction_turn_true:
  assumes "peer_true thr A p n"
  shows "peer_true thr A p (instruction_turn ord n)"
proof (cases "queue (instruction_input (pbh n))")
  case (Cons e es)
  obtain go im c where r: "is_run_event ord e (pim n, open_sink) = (go, im, c)" by (metis prod_cases3)
  have "im_true thr A im \<and> list_all (true_is_out thr A) (sent c)"
    by (rule is_run_event_true [OF _ _ r]) (use assms Cons in \<open>simp_all add: peer_true_def true_channels_def\<close>)
  with assms Cons r show ?thesis by (simp add: instruction_turn_def peer_true_def true_channels_def)
qed (use assms in \<open>simp add: instruction_turn_def\<close>)

lemma processor_turn_true:
  assumes "peer_true thr A p n" and "\<And>pid. pid \<in> program_identifier ` set (executed (processor_turn lib o' lks n)) \<Longrightarrow> A p pid"
  shows "peer_true thr A p (processor_turn lib o' lks n)"
proof (cases "queue (processor_input (pbh n))")
  case (Cons e es)
  obtain go sp m c where r: "proc_run_step lib o' lks (Input (Some e))
      (\<lparr>memory_access = pbus n, module_state = processor_state (pbh n)\<rparr>, pmem n, open_sink) = (go, sp, m, c)"
    by (metis prod_cases4)
  obtain prog lk1 lk2 where e: "e = Execute prog" "lks = (lk1, lk2)" by (cases e; cases lks)
  have "A p (program_identifier prog)" using assms(2) Cons r e by (simp add: processor_turn_def)
  then have "list_all (true_pr_out A p) (sent c)"
    using r unfolding e by (auto simp: program_into_parts_def sink_simps Let_def split: prod.splits)
  with assms(1) Cons r show ?thesis by (simp add: processor_turn_def peer_true_def true_channels_def)
qed (use assms in \<open>simp add: processor_turn_def\<close>)

lemma consensus_turn_true: "peer_true thr A p n \<Longrightarrow> peer_true thr A p (consensus_turn n)"
  by (auto simp: consensus_turn_def peer_true_def true_channels_def split: list.splits CsInEvent.splits)

lemma new_event_true:
  assumes "computer_true thr cl"
  shows "computer_true thr (exec_step p (NewEvent hs) cl)"
proof -
  let ?cl = "cl\<lparr>chain := (chain cl)(p := chain cl p @ zip hs (scheduled (peers cl p)))\<rparr>"
  have A: "has_executed ?cl = has_executed cl" by (simp add: has_executed_def fun_eq_iff)
  have "list_all (\<lambda>(h, tx). true_tx (has_executed cl) p tx) (zip hs (scheduled (peers cl p)))"
    using assms by (auto simp: computer_true_def peer_true_def list_all_iff dest: set_zip_rightD)
  then have "computer_true thr ?cl" using assms by (simp add: computer_true_def A)
  then show ?thesis by (auto simp: peer_true_def intro!: at_peer_true)
qed

lemma recognize_next_true:
  assumes "computer_true thr cl" and "k < length (chain cl q)"
  shows "computer_true thr (at_peer p (recognize (q, chain cl q ! k)) cl)"
proof (rule at_peer_true [OF assms(1)])
  have "true_tx (has_executed cl) q (snd (chain cl q ! k))"
    using assms by (auto simp: computer_true_def list_all_length case_prod_beta)
  moreover have "has_executed (at_peer p (recognize (q, chain cl q ! k)) cl) = has_executed cl"
    by (simp add: has_executed_def fun_eq_iff)
  ultimately show "peer_true thr (has_executed (at_peer p (recognize (q, chain cl q ! k)) cl)) p (peers cl p)
      \<Longrightarrow> peer_true thr (has_executed (at_peer p (recognize (q, chain cl q ! k)) cl)) p (recognize (q, chain cl q ! k) (peers cl p))"
    by (simp add: peer_true_def true_channels_def recognize_def case_prod_beta)
qed simp

lemma exec_step_true:
  assumes cl: "computer_true thr cl" and e: "possible H e"
  shows "computer_true thr (exec_step p e cl)"
proof (cases e)
  case (ProcessorTurn lib o' lks)
  have "set (executed (peers cl p)) \<subseteq> set (executed (processor_turn lib o' lks (peers cl p)))"
    by (auto simp: processor_turn_def Let_def split: list.splits prod.splits)
  then show ?thesis
    unfolding ProcessorTurn exec_step.simps
    by (rule at_peer_true [OF cl]) (rule processor_turn_true, simp_all add: has_executed_at_peer)
next
  case (NewEvent hs)
  then show ?thesis using new_event_true [OF cl] by simp
next
  case (RecognizeNext q)
  then show ?thesis using recognize_next_true [OF cl] cl by (simp add: Let_def)
next
  case (OtherConsensus c)
  with e have "true_cs_out A c" for A by (cases c) simp_all
  then show ?thesis by (auto simp: OtherConsensus true_channels_def intro!: at_pbh_true [OF cl])
next
  case (ConnectionChanges c)
  then show ?thesis by (cases c) (auto simp: true_channels_def intro!: at_pbh_true [OF cl])
next
  case (GossipArrives q m)
  then show ?thesis by (cases m) (auto simp: true_channels_def intro!: at_pbh_true [OF cl])
next
  case UserLooks
  then show ?thesis by (auto simp: peer_true_def true_channels_def intro!: at_peer_true [OF cl])
next
  case (MemoryChanges m)
  then show ?thesis by (auto simp: peer_true_def intro!: at_peer_true [OF cl])
qed (auto simp: true_channels_def inject_peer_discovered_def poll_turn_true instruction_turn_true consensus_turn_true
    list_all_iff intro!: at_peer_true [OF cl] at_pbh_true [OF cl] dest: list.set_sel(2) [rotated])

lemma computer_start_true: "computer_true thr (computer_start thr buses mems)"
  by (simp add: computer_true_def peer_true_def im_true_def true_channels_def computer_start_def peer_start_def
      InstructionMemory_new_def Behaviour_new_def module_channels_new_def mpsc_channel_def)

lemma computer_reachable_true:
  "computer_reachable H ok (computer_start thr buses mems) cl \<Longrightarrow> computer_true thr cl"
  by (induction rule: computer_reachable.induct) (simp_all add: computer_start_true exec_step_true)

subsection \<open>Properties\<close>

text \<open>C4: a program that a user has been told to be finished has been executed: in every state that the
  swarm can reach, if the user of a peer has been told, or is about to be, that a program is executed,
  then at least as many peers as the threshold of the instruction memories says have executed it.\<close>

theorem finished_means_executed:
  assumes "computer_reachable H ok (computer_start thr buses mems) cl"
    and "ProgramExecuted pid \<in> set (reported (peers cl p) @ queue (user_output (pbh (peers cl p))))"
  shows "\<exists>S. thr \<le> fcard S \<and> (\<forall>q. q |\<in>| S \<longrightarrow> (\<exists>prog \<in> set (executed (peers cl q)). program_identifier prog = pid))"
proof -
  have "true_ui_out thr (has_executed cl) (ProgramExecuted pid)"
    using computer_reachable_true [OF assms(1)] assms(2)
    by (auto simp: computer_true_def peer_true_def true_channels_def list_all_iff simp del: true_ui_out.simps)
  then have "quorum thr (has_executed cl) pid" by simp
  then obtain S where S: "thr \<le> fcard S" "\<And>q. q |\<in>| S \<Longrightarrow> has_executed cl q pid" unfolding quorum_def by blast
  have "\<exists>prog \<in> set (executed (peers cl q)). program_identifier prog = pid" if "q |\<in>| S" for q
    using S(2) [OF that] by (auto simp: has_executed_def)
  with S(1) show ?thesis by blast
qed

theorem finished_means_executed_witness:
  "\<exists>pid S. ProgramExecuted pid \<in> set (reported (peers agreeing 1)) \<and> 2 \<le> fcard S
    \<and> (\<forall>q. q |\<in>| S \<longrightarrow> (\<exists>prog \<in> set (executed (peers agreeing q)). program_identifier prog = pid))"
proof -
  have "list_ex (\<lambda>u. case u of ProgramExecuted _ \<Rightarrow> True | _ \<Rightarrow> False) (reported (peers agreeing 1))"
    by code_simp
  then obtain u where u: "u \<in> set (reported (peers agreeing 1))" "case u of ProgramExecuted _ \<Rightarrow> True | _ \<Rightarrow> False"
    unfolding list_ex_iff by blast
  from u(2) obtain pid where "u = ProgramExecuted pid" by (cases u) simp_all
  with u(1) have pid: "ProgramExecuted pid \<in> set (reported (peers agreeing 1))" by simp
  then have "ProgramExecuted pid \<in> set (reported (peers agreeing 1) @ queue (user_output (pbh (peers agreeing 1))))"
    unfolding set_append by (rule UnI1)
  from finished_means_executed [OF agreeing_reachable this] pid show ?thesis by blast
qed

end
