(* ===== verification/Swarm_Temporal.thy ===== *)
theory Swarm_Temporal
  imports Main
begin

text \<open>
  Progress along infinite runs: something that waits, is never lost and comes closer with every turn of a
  task that gets its turns again and again, happens in the end.
\<close>

definition often :: "(nat \<Rightarrow> bool) \<Rightarrow> bool" where
  "often turn \<longleftrightarrow> (\<forall>i. \<exists>j\<ge>i. turn j)"

text \<open>\<open>P j\<close>: it waits at time \<open>j\<close>, \<open>m j\<close> turns away; \<open>F j\<close>: it happens in step \<open>j\<close>.\<close>

lemma measured_progress:
  fixes m :: "nat \<Rightarrow> nat"
  assumes step: "\<And>j. i \<le> j \<Longrightarrow> P j \<Longrightarrow> F j \<or> P (Suc j) \<and> (m (Suc j) < m j \<or> m (Suc j) = m j \<and> \<not> turn j)"
    and turns: "often turn" and start: "P i"
  shows "\<exists>j\<ge>i. F j"
  using step start
proof (induction "m i" arbitrary: i rule: less_induct)
  case less
  note steps = less.prems(1)
  show ?case
  proof (rule ccontr)
    assume never: "\<not> (\<exists>j\<ge>i. F j)"
    have falls: "m j = m i" if "P j" "i \<le> j" "m j \<le> m i" for j
    proof (rule ccontr)
      assume "m j \<noteq> m i"
      then have "\<exists>j'\<ge>j. F j'" using less.hyps [of j] steps that by auto
      then show False using never that(2) by (meson order_trans)
    qed
    obtain t where t: "i \<le> t" "turn t" using turns by (auto simp: often_def)
    have stays: "P j \<and> m j = m i" if "i \<le> j" for j
      using that
    proof (induction j rule: dec_induct)
      case (step j)
      then have j: "P j" "m j = m i" "\<not> F j" using never by auto
      with steps [of j] step.hyps(1) have "P (Suc j)" "m (Suc j) \<le> m i" by auto
      then show ?case using falls [of "Suc j"] step.hyps(1) by simp
    qed (simp add: less.prems(2))
    show False using steps [of t] stays [of t] stays [of "Suc t"] never t by auto
  qed
qed

text \<open>One turn is enough.\<close>

lemma eventually_done:
  fixes enabled turn finished :: "nat \<Rightarrow> bool"
  assumes "\<And>j. k \<le> j \<Longrightarrow> enabled j \<Longrightarrow> finished (Suc j) \<or> enabled (Suc j) \<and> \<not> turn j"
    and "often turn" and "enabled k"
  shows "\<exists>j>k. finished j"
proof -
  have "\<exists>j\<ge>k. finished (Suc j)"
    by (rule measured_progress [of k enabled _ "\<lambda>_. 0" turn]) (use assms in auto)
  then show ?thesis using le_imp_less_Suc by blast
qed

text \<open>What holds from a time on until something happens.\<close>

lemma holds_until:
  assumes "\<And>j. i \<le> j \<Longrightarrow> P j \<Longrightarrow> P (Suc j) \<or> S (Suc j)" and "P i" and "i \<le> j"
  shows "P j \<or> (\<exists>j'\<ge>i. S j')"
  using assms(3)
proof (induction j rule: dec_induct)
  case (step j)
  then show ?case using assms(1) [of j] by (metis le_Suc_eq)
qed (simp add: assms(2))

end
