(* ===== verification/Swarm_Progress.thy ===== *)
theory Swarm_Progress
  imports Swarm_Execution Swarm_Temporal
begin

text \<open>
  Liveness: a peer whose tasks get their turns executes every program that it has recognized, unless it
  stops. The weighted load of the channels on the way of the programs bounds the turns that are needed.
\<close>

subsection \<open>What a pending poll leaves\<close>

text \<open>A poll does not touch the state of the processor, and what waits for the instruction memory
  (\<open>f\<close>) and for the processor (\<open>g\<close>) stays there.\<close>

definition kept :: "ProcModuleState option \<times> bool \<times> bool \<Rightarrow> 'ev Behaviour \<Rightarrow> bool" where
  "kept k b = (case k of (s, f, g) \<Rightarrow> processor_state b = s
     \<and> (f \<longrightarrow> queue (instruction_input b) \<noteq> []) \<and> (g \<longrightarrow> queue (processor_input b) \<noteq> []))"

text \<open>Besides, the channels from the instruction memory (\<open>out\<close>) and the consensus (\<open>cs\<close>) are empty.\<close>

definition drained :: "ProcModuleState option \<times> bool \<times> bool \<Rightarrow> bool \<Rightarrow> bool \<Rightarrow> 'ev Behaviour \<Rightarrow> bool" where
  "drained k out cs b \<longleftrightarrow> kept k b \<and> (out \<longrightarrow> queue (instruction_output b) = [])
     \<and> (cs \<longrightarrow> queue (consensus_output b) = [])"

interpretation drained_steps: poll_steps "drained k out cs" "\<lambda>_. kept k"
    "\<lambda>_. True" "\<lambda>_. True" "\<lambda>_. True" "\<lambda>_. True" "\<lambda>_. True" "\<lambda>_. True" for k out cs
  by unfold_locales (auto simp: drained_def kept_def)

lemma drained_answer_request: "triple (drained k out cs) (answer_request r x) (drained k out cs) (\<lambda>_. kept k)"
  unfolding answer_request_def [abs_def] Let_def
  by (rule triple_shift [OF drained_steps.respond_all]) (simp_all add: drained_def kept_def list_all_iff)

lemma drained_rr_event: "triple (drained k out cs) (on_rr_event m) (drained k out cs) (\<lambda>_. kept k)"
  by (cases m) (auto simp: triple_def must_send_def and_then_def drained_def kept_def
      split: prod.splits Poll.splits bool.splits option.splits Request.splits ProtoResponse.splits)

lemma drained_taken:
  assumes "triple (drained k out cs) (h e) (drained k out cs) (\<lambda>_. kept k)"
    and "\<And>b es. drained k out cs b \<Longrightarrow> queue (get b) = e # es \<Longrightarrow> drained k out cs (upd (\<lambda>ch. ch\<lparr>queue := es\<rparr>) b)"
  shows "triple (taken get upd (drained k out cs) e) (h e) (drained k out cs) (\<lambda>_. kept k)"
  by (rule triple_weaken [OF assms(1)]) (use assms(2) in \<open>auto simp: taken_def\<close>)

interpretation drained: open_invariant "drained k out cs" "\<lambda>_. kept k" for k out cs
proof
  show "triple (taken data_output data_output_update (drained k out cs) d) (on_data_memory_event env d) (drained k out cs) (\<lambda>_. kept k)"
    for d env
    by (rule drained_taken, rule drained_steps.data_memory_event)
      (simp_all add: list_all_iff drained_answer_request drained_def kept_def)
  show "triple (taken rr_output rr_output_update (drained k out cs) m) (on_rr_event m) (drained k out cs) (\<lambda>_. kept k)" for m
    by (rule drained_taken, rule drained_rr_event) (simp add: drained_def kept_def)
qed (auto simp: drained_def kept_def)

lemma poll_keeps_waiting: "kept k b \<Longrightarrow> kept k (snd (bh_poll env b))"
  using drained.polls.poll [of k False False b env] by (cases "bh_poll env b") (auto simp: drained_def)

lemma instruction_section_drains:
  assumes "out \<Longrightarrow> client_accepts_input proc_accepts_input (processor_locked env) (fst k)"
  shows "triple (drained k False False) (instruction_section env) (drained k out False) (\<lambda>_. kept k)"
proof (rule tripleI)
  fix b b' :: "'a Behaviour" assume b: "drained k False False b" "instruction_section env b = (None, b')"
  then have "queue (instruction_output b') = []" if out
    using assms [OF that] by (auto simp: instruction_section_def drained_def kept_def intro: is_processor.uses_up)
  then show "drained k out False b'"
    using triple_goes_on [OF drained.polls.instruction_section b] by (simp add: drained_def kept_def)
qed (rule triple_returns [OF drained.polls.instruction_section])

lemma consensus_section_drains:
  "triple (drained k out False) (consensus_section env) (drained k out True) (\<lambda>_. kept k)"
proof (rule tripleI)
  fix b b' :: "'a Behaviour" assume b: "drained k out False b" "consensus_section env b = (None, b')"
  then have "queue (consensus_output b') = []" by (auto simp: consensus_section_def intro: cs_data.uses_up)
  then show "drained k out True b'"
    using triple_goes_on [OF drained.polls.sections(6) b] by (simp add: drained_def kept_def)
qed (rule triple_returns [OF drained.polls.sections(6)])

lemma poll_sections_drain:
  assumes "out \<Longrightarrow> client_accepts_input proc_accepts_input (processor_locked env) (fst k)"
  shows "triple (drained k False False) (poll_sections env) (drained k out True) (\<lambda>_. kept k)"
  unfolding poll_sections_def
  by (rule triple_and_then drained.polls.sections drained.polls.oneshot_section drained.polls.gossip
      instruction_section_drains [OF assms] consensus_section_drains | assumption)+

lemma pending_poll_drains:
  assumes "bh_poll env b = (PollPending, b')"
  shows "discovered_peers b = []" "queue (consensus_output b') = []"
    "client_accepts_input proc_accepts_input (processor_locked env) (processor_state b) \<Longrightarrow> queue (instruction_output b') = []"
proof -
  let ?out = "client_accepts_input proc_accepts_input (processor_locked env) (processor_state b)"
  have none: "poll_sections env b = (None, b')" by (rule poll_pending_sections [OF assms])
  have "drained (processor_state b, False, False) False False b" by (simp add: drained_def kept_def)
  from triple_goes_on [OF poll_sections_drain [of ?out] this none]
  have "drained (processor_state b, False, False) ?out True b'" by simp
  then show "queue (consensus_output b') = []" "?out \<Longrightarrow> queue (instruction_output b') = []"
    by (simp_all add: drained_def)
  show "discovered_peers b = []" using none
    by (auto simp: poll_sections_def and_then_None shutdown_section_def discovery_section_def pop_back_def split: if_splits)
qed

subsection \<open>Turns reduce the load\<close>

text \<open>An event of the instruction memory makes it send at most two, a program passes from its channel to
  that of the processor: with these weights every turn that finds something to do reduces the load.\<close>

definition peer_load :: "('ev, 'm) peer \<Rightarrow> nat" where
  "peer_load n = load 5 1 1 1 (pbh n)"

lemma peer_load_0:
  "peer_load n = 0 \<longleftrightarrow> discovered_peers (pbh n) = [] \<and> queue (consensus_output (pbh n)) = []
     \<and> queue (instruction_input (pbh n)) = [] \<and> queue (instruction_output (pbh n)) = []
     \<and> queue (processor_input (pbh n)) = []"
  by (auto simp: peer_load_def load_def)

definition poll_work :: "('ev, 'm) peer \<Rightarrow> bool" where
  "poll_work n \<longleftrightarrow> discovered_peers (pbh n) \<noteq> [] \<or> queue (consensus_output (pbh n)) \<noteq> [] \<or> queue (instruction_output (pbh n)) \<noteq> []"

lemma poll_turn_load: "peer_load (poll_turn env n) \<le> peer_load n"
  by (cases "bh_poll env (pbh n)") (auto simp: peer_load_def poll_turn_def poll_load(1))

lemma poll_turn_works:
  assumes "poll_work n" and "running (poll_turn env n)"
  shows "peer_load (poll_turn env n) < peer_load n
    \<or> poll_work (poll_turn env n) \<and> (processor_locked env \<or> processor_state (pbh n) = Some Executing_State)"
proof -
  obtain r b where r: "bh_poll env (pbh n) = (r, b)" by force
  have run: "pbh (poll_turn env n) = b" "r = PollPending \<or> busy r"
    using assms(2) r by (auto simp: poll_turn_def split: if_splits)
  show ?thesis
  proof (cases "busy r")
    case True
    with r run show ?thesis by (simp add: peer_load_def poll_load(2))
  next
    case False
    then have pend: "bh_poll env (pbh n) = (PollPending, b)" using r run(2) by simp
    note drains = pending_poll_drains [OF pend]
    show ?thesis
    proof (cases "queue (instruction_output b) = []")
      case True
      then have "peer_load (poll_turn env n) = load 5 0 1 0 b" using drains(2) run(1) by (simp add: peer_load_def load_def)
      moreover have "load 5 0 1 0 b \<le> load 5 0 1 0 (pbh n)" by (rule poll_load(1) [OF r])
      moreover have "load 5 0 1 0 (pbh n) < peer_load n" using assms(1) drains(1) by (auto simp: peer_load_def load_def poll_work_def)
      ultimately show ?thesis by simp
    next
      case False
      then have "\<not> client_accepts_input proc_accepts_input (processor_locked env) (processor_state (pbh n))"
        using drains(3) by blast
      then have "processor_locked env \<or> processor_state (pbh n) = Some Executing_State"
        by (cases "processor_state (pbh n)"; cases "the (processor_state (pbh n))")
          (auto simp: client_accepts_input_def split: if_splits)
      with False run(1) show ?thesis by (simp add: poll_work_def)
    qed
  qed
qed

lemma is_run_event_two: "is_run_event ord e (im, open_sink) = (go, im', c) \<Longrightarrow> length (sent c) \<le> 2"
  by (cases e) (auto simp: sink_simps Let_def split: prod.splits option.splits if_splits)

lemma instruction_turn_works:
  "queue (instruction_input (pbh n)) \<noteq> [] \<Longrightarrow> peer_load (instruction_turn ord n) < peer_load n"
proof -
  assume "queue (instruction_input (pbh n)) \<noteq> []"
  then obtain e es where q: "queue (instruction_input (pbh n)) = e # es" by (auto simp: neq_Nil_conv)
  obtain go im c where r: "is_run_event ord e (pim n, open_sink) = (go, im, c)" by (metis prod_cases3)
  show ?thesis using is_run_event_two [OF r] q r by (simp add: instruction_turn_def peer_load_def load_def)
qed

lemma processor_turn_works:
  "queue (processor_input (pbh n)) \<noteq> [] \<Longrightarrow> peer_load (processor_turn lib o' lks n) < peer_load n"
  by (auto simp: processor_turn_def peer_load_def load_def Let_def split: list.splits prod.splits)

lemma processor_turn_state:
  "processor_state (pbh (processor_turn lib o' (False, False) n)) \<in> {processor_state (pbh n), Some Ready_State}"
proof (cases "queue (processor_input (pbh n))")
  case (Cons e es)
  then show ?thesis
    by (cases e) (auto simp: processor_turn_def set_state_def sink_simps Let_def split: prod.splits option.splits)
qed (simp add: processor_turn_def)

subsection \<open>Fair schedules\<close>

primrec trace :: "(nat \<Rightarrow> PeerId \<times> ('ev, 'm) event) \<Rightarrow> ('ev, 'm) computer \<Rightarrow> nat \<Rightarrow> ('ev, 'm) computer" where
  "trace acts cl 0 = cl"
| "trace acts cl (Suc k) = exec_step (fst (acts k)) (snd (acts k)) (trace acts cl k)"

text \<open>Nothing new for the way of the programs: no further transaction, answer of the consensus or
  discovered peer, and the processor can set its state.\<close>

fun undisturbed :: "('ev, 'm) event \<Rightarrow> bool" where
  "undisturbed (RecognizeNext q) \<longleftrightarrow> False"
| "undisturbed (OtherConsensus c) \<longleftrightarrow> False"
| "undisturbed (PeerDiscovered q) \<longleftrightarrow> False"
| "undisturbed (StateChanges s) \<longleftrightarrow> False"
| "undisturbed (ProcessorTurn lib o' lks) \<longleftrightarrow> lks = (False, False)"
| "undisturbed _ \<longleftrightarrow> True"

fun unlocked_poll :: "('ev, 'm) event \<Rightarrow> bool" where
  "unlocked_poll (PollTurn env) \<longleftrightarrow> \<not> processor_locked env"
| "unlocked_poll _ \<longleftrightarrow> False"

fun is_instruction_turn :: "('ev, 'm) event \<Rightarrow> bool" where
  "is_instruction_turn (InstructionTurn _) \<longleftrightarrow> True"
| "is_instruction_turn _ \<longleftrightarrow> False"

fun is_processor_turn :: "('ev, 'm) event \<Rightarrow> bool" where
  "is_processor_turn (ProcessorTurn _ _ _) \<longleftrightarrow> True"
| "is_processor_turn _ \<longleftrightarrow> False"

definition fair :: "PeerId \<Rightarrow> (nat \<Rightarrow> PeerId \<times> ('ev, 'm) event) \<Rightarrow> bool" where
  "fair p acts \<longleftrightarrow> (\<forall>k. fst (acts k) = p \<longrightarrow> undisturbed (snd (acts k)))
     \<and> often (\<lambda>j. fst (acts j) = p \<and> unlocked_poll (snd (acts j)))
     \<and> often (\<lambda>j. fst (acts j) = p \<and> is_instruction_turn (snd (acts j)))
     \<and> often (\<lambda>j. fst (acts j) = p \<and> is_processor_turn (snd (acts j)))"

text \<open>What an undisturbed step does to the peer, as far as the programs are concerned.\<close>

definition progress :: "('ev, 'm) event \<Rightarrow> ('ev, 'm) peer \<Rightarrow> ('ev, 'm) peer \<Rightarrow> bool" where
  "progress e n n' \<longleftrightarrow> peer_load n' \<le> peer_load n \<and> recog n' = recog n
     \<and> (processor_state (pbh n) \<noteq> Some Executing_State \<longrightarrow> processor_state (pbh n') \<noteq> Some Executing_State)
     \<and> (poll_work n \<longrightarrow> poll_work n' \<or> \<not> running n' \<or> peer_load n' < peer_load n)
     \<and> (queue (instruction_input (pbh n)) \<noteq> [] \<longrightarrow> queue (instruction_input (pbh n')) \<noteq> [] \<or> peer_load n' < peer_load n)
     \<and> (queue (processor_input (pbh n)) \<noteq> [] \<longrightarrow> queue (processor_input (pbh n')) \<noteq> [] \<or> peer_load n' < peer_load n)"

lemma progress_same:
  assumes "recog n' = recog n" "processor_state (pbh n') = processor_state (pbh n)"
    "discovered_peers (pbh n') = discovered_peers (pbh n)" "queue (consensus_output (pbh n')) = queue (consensus_output (pbh n))"
    "queue (instruction_input (pbh n')) = queue (instruction_input (pbh n))"
    "queue (instruction_output (pbh n')) = queue (instruction_output (pbh n))"
    "queue (processor_input (pbh n')) = queue (processor_input (pbh n))"
  shows "progress e n n'"
  using assms by (simp add: progress_def poll_work_def peer_load_def load_def)

lemma swarm_handler_same:
  "processor_state (on_swarm_event e b) = processor_state b" "discovered_peers (on_swarm_event e b) = discovered_peers b"
  "processor_state (on_connection_handler_event q m b) = processor_state b"
  "discovered_peers (on_connection_handler_event q m b) = discovered_peers b"
  by (cases e; cases m; simp)+

lemma poll_progress: "progress (PollTurn env) n (poll_turn env n)"
proof -
  obtain r b where r: "bh_poll env (pbh n) = (r, b)" by force
  let ?k = "(processor_state (pbh n), queue (instruction_input (pbh n)) \<noteq> [], queue (processor_input (pbh n)) \<noteq> [])"
  have "kept ?k b" using poll_keeps_waiting [of ?k "pbh n" env] r by (simp add: kept_def)
  then show ?thesis
    using poll_turn_works [of n env] poll_turn_load [of env n] r
    by (cases "running n") (auto simp: progress_def kept_def poll_turn_def)
qed

lemma instruction_progress: "progress (InstructionTurn ord) n (instruction_turn ord n)"
proof (cases "queue (instruction_input (pbh n))")
  case (Cons e es)
  obtain go im c where r: "is_run_event ord e (pim n, open_sink) = (go, im, c)" by (metis prod_cases3)
  show ?thesis using instruction_turn_works [of n ord] Cons r
    by (auto simp: progress_def instruction_turn_def poll_work_def)
qed (simp add: instruction_turn_def progress_same)

lemma processor_progress: "progress (ProcessorTurn lib o' (False, False)) n (processor_turn lib o' (False, False) n)"
proof (cases "queue (processor_input (pbh n))")
  case (Cons e es)
  show ?thesis using processor_turn_works [of n lib o' "(False, False)"] processor_turn_state [of lib o' n] Cons
    by (auto simp: progress_def processor_turn_def poll_work_def Let_def split: prod.splits)
qed (simp add: processor_turn_def progress_same)

lemma undisturbed_progress:
  assumes "q = p \<Longrightarrow> undisturbed e"
  shows "progress e (peers cl p) (peers (exec_step q e cl) p)"
proof (cases "q = p")
  case True
  with assms have "undisturbed e" by blast
  then show ?thesis
    by (cases e) (auto simp: True poll_progress instruction_progress processor_progress consensus_turn_def
        swarm_event_queues handler_event_queues swarm_handler_same split: list.splits intro!: progress_same)
qed (cases e; auto simp: Let_def intro!: progress_same)

subsection \<open>Every recognized program is executed\<close>

lemma trace_progress: "fair p acts \<Longrightarrow> progress (snd (acts k)) (peers (trace acts cl k) p) (peers (trace acts cl (Suc k)) p)"
  by (simp add: fair_def undisturbed_progress)

lemma trace_load:
  assumes "fair p acts" and "k \<le> j"
  shows "peer_load (peers (trace acts cl j) p) \<le> peer_load (peers (trace acts cl k) p)"
  using assms(2)
proof (induction j rule: dec_induct)
  case (step j)
  then show ?case using trace_progress [OF assms(1), of j cl] by (auto simp: progress_def)
qed simp

lemma trace_fixed:
  assumes "fair p acts" and "processor_state (pbh (peers cl p)) \<noteq> Some Executing_State"
  shows "recog (peers (trace acts cl k) p) = recog (peers cl p)
    \<and> processor_state (pbh (peers (trace acts cl k) p)) \<noteq> Some Executing_State"
proof (induction k)
  case (Suc k)
  then show ?case using trace_progress [OF assms(1), of k cl] by (auto simp: progress_def)
qed (use assms(2) in simp)

text \<open>With something on the way, the load falls or the peer stops.\<close>

lemma turn_gets_done:
  assumes fair: "fair p acts" and waiting: "W (peers (trace acts cl k) p)"
    and keep: "\<And>e n n'. progress e n n' \<Longrightarrow> W n \<Longrightarrow> W n' \<or> \<not> running n' \<or> peer_load n' < peer_load n"
    and works: "\<And>j e. W (peers (trace acts cl j) p) \<Longrightarrow> acts j = (p, e) \<Longrightarrow> turn e
      \<Longrightarrow> \<not> running (peers (trace acts cl (Suc j)) p) \<or> peer_load (peers (trace acts cl (Suc j)) p) < peer_load (peers (trace acts cl j) p)"
    and turns: "often (\<lambda>j. fst (acts j) = p \<and> turn (snd (acts j)))"
  shows "\<exists>j>k. \<not> running (peers (trace acts cl j) p) \<or> peer_load (peers (trace acts cl j) p) < peer_load (peers (trace acts cl k) p)"
proof (rule eventually_done [of k "\<lambda>j. W (peers (trace acts cl j) p)" _ "\<lambda>j. fst (acts j) = p \<and> turn (snd (acts j))"])
  let ?n = "\<lambda>j. peers (trace acts cl j) p"
  fix j assume j: "k \<le> j" "W (?n j)"
  have "peer_load (?n j) \<le> peer_load (?n k)" by (rule trace_load [OF fair j(1)])
  moreover have "W (?n (Suc j)) \<or> \<not> running (?n (Suc j)) \<or> peer_load (?n (Suc j)) < peer_load (?n j)"
    by (rule keep [OF trace_progress [OF fair] j(2)])
  moreover have "\<not> running (?n (Suc j)) \<or> peer_load (?n (Suc j)) < peer_load (?n j)" if "fst (acts j) = p \<and> turn (snd (acts j))"
    by (rule works [OF j(2), of "snd (acts j)"]) (use that in auto)
  ultimately show "(\<not> running (?n (Suc j)) \<or> peer_load (?n (Suc j)) < peer_load (?n k))
      \<or> W (?n (Suc j)) \<and> \<not> (fst (acts j) = p \<and> turn (snd (acts j)))" by linarith
qed (use waiting turns in simp_all)

lemma load_falls:
  assumes fair: "fair p acts" and state: "processor_state (pbh (peers cl p)) \<noteq> Some Executing_State"
    and load: "peer_load (peers (trace acts cl k) p) \<noteq> 0"
  shows "\<exists>j>k. \<not> running (peers (trace acts cl j) p) \<or> peer_load (peers (trace acts cl j) p) < peer_load (peers (trace acts cl k) p)"
proof -
  let ?n = "\<lambda>j. peers (trace acts cl j) p"
  consider "poll_work (?n k)" | "queue (instruction_input (pbh (?n k))) \<noteq> []" | "queue (processor_input (pbh (?n k))) \<noteq> []"
    using load by (auto simp: peer_load_0 poll_work_def)
  then show ?thesis
  proof cases
    case 1
    show ?thesis
    proof (rule turn_gets_done [of p acts poll_work _ _ unlocked_poll, OF fair 1])
      fix j e assume j: "poll_work (?n j)" "acts j = (p, e)" "unlocked_poll e"
      then obtain env where "e = PollTurn env" "\<not> processor_locked env" by (auto elim: unlocked_poll.elims(2))
      with poll_turn_works [OF j(1), of env] trace_fixed [OF fair state, of j] j(2)
      show "\<not> running (?n (Suc j)) \<or> peer_load (?n (Suc j)) < peer_load (?n j)" by auto
    qed (use fair in \<open>auto simp: progress_def fair_def\<close>)
  next
    case 2
    show ?thesis
    proof (rule turn_gets_done [of p acts "\<lambda>n. queue (instruction_input (pbh n)) \<noteq> []" _ _ is_instruction_turn, OF fair 2])
      fix j e assume j: "queue (instruction_input (pbh (?n j))) \<noteq> []" "acts j = (p, e)" "is_instruction_turn e"
      with instruction_turn_works [OF j(1)]
      show "\<not> running (?n (Suc j)) \<or> peer_load (?n (Suc j)) < peer_load (?n j)" by (cases e) auto
    qed (use fair in \<open>auto simp: progress_def fair_def\<close>)
  next
    case 3
    show ?thesis
    proof (rule turn_gets_done [of p acts "\<lambda>n. queue (processor_input (pbh n)) \<noteq> []" _ _ is_processor_turn, OF fair 3])
      fix j e assume j: "queue (processor_input (pbh (?n j))) \<noteq> []" "acts j = (p, e)" "is_processor_turn e"
      with processor_turn_works [OF j(1)]
      show "\<not> running (?n (Suc j)) \<or> peer_load (?n (Suc j)) < peer_load (?n j)" by (cases e) auto
    qed (use fair in \<open>auto simp: progress_def fair_def\<close>)
  qed
qed

lemma load_vanishes:
  assumes "fair p acts" and "processor_state (pbh (peers cl p)) \<noteq> Some Executing_State"
  shows "\<exists>j. \<not> running (peers (trace acts cl j) p) \<or> peer_load (peers (trace acts cl j) p) = 0"
proof -
  have "\<exists>j\<ge>k. \<not> running (peers (trace acts cl j) p) \<or> peer_load (peers (trace acts cl j) p) = 0" for k
  proof (induction "peer_load (peers (trace acts cl k) p)" arbitrary: k rule: less_induct)
    case less
    show ?case
    proof (cases "peer_load (peers (trace acts cl k) p) = 0")
      case False
      then obtain j where "j > k" "\<not> running (peers (trace acts cl j) p)
          \<or> peer_load (peers (trace acts cl j) p) < peer_load (peers (trace acts cl k) p)"
        using load_falls [OF assms] by blast
      then show ?thesis using less [of j] by (meson less_imp_le order_trans)
    qed blast
  qed
  then show ?thesis by blast
qed

lemma trace_reachable:
  assumes "computer_reachable H (\<lambda>_ _ _. True) start cl" and "\<And>k. possible H (snd (acts k))"
  shows "computer_reachable H (\<lambda>_ _ _. True) start (trace acts cl k)"
  by (induction k) (use assms in \<open>auto intro: computer_reachable.step\<close>)

lemma unloaded_executed:
  assumes "peer_flow H n" and "running n" and "peer_load n = 0"
  shows "executed n = programs H (recog n)"
  using assms by (auto simp: peer_flow_def flow_def peer_load_0)

text \<open>The tasks of the first peer in turn, after it has recognized a program.\<close>

abbreviation round_robin :: "nat \<Rightarrow> PeerId \<times> (unit, bus_world) event" where
  "round_robin k \<equiv> (1, [PollTurn quiet_env, InstructionTurn sorted_list_of_fset,
     ProcessorTurn parity_library sorted_orders (False, False)] ! (k mod 3))"

definition commanded :: "(unit, bus_world) computer" where
  "commanded = computer_run (command 1 1 example_sum @ [(1, RecognizeNext 1)]) start_two"

lemma quiet_unlocked: "\<not> processor_locked quiet_env"
  by (simp add: quiet_env_def)

lemma round_robin_possible: "possible (hashing quiet_env) (snd (round_robin k))"
proof -
  have "k mod 3 \<in> {0, 1, 2}" by auto
  then show ?thesis by auto
qed

lemma round_robin_fair: "fair 1 round_robin"
proof -
  have "k mod 3 \<in> {0, 1, 2}" for k :: nat by auto
  then have "undisturbed (snd (round_robin k))" for k by (cases "k mod 3 = 0"; cases "k mod 3 = 1") fastforce+
  moreover have "\<exists>j\<ge>k. j mod 3 = i" if "i < 3" for i k :: nat
    using that by (intro exI [of _ "3 * k + i"]) simp
  then have "\<exists>j\<ge>k. j mod 3 = 0" "\<exists>j\<ge>k. j mod 3 = 1" "\<exists>j\<ge>k. j mod 3 = 2" for k :: nat by simp_all
  then have "\<exists>j\<ge>k. unlocked_poll (snd (round_robin j))" "\<exists>j\<ge>k. is_instruction_turn (snd (round_robin j))"
    "\<exists>j\<ge>k. is_processor_turn (snd (round_robin j))" for k
    by (metis is_instruction_turn.simps(1) is_processor_turn.simps(1) unlocked_poll.simps(1) nth_Cons_0 nth_Cons_Suc
        One_nat_def Suc_1 snd_conv quiet_unlocked)+
  ultimately show ?thesis by (simp add: fair_def often_def)
qed

subsection \<open>Properties\<close>

text \<open>C5: every program that a peer has recognized is executed. From any state that the swarm can reach, if
  from then on the consensus of the peer is silent and no further peers are discovered, the processor
  is not left in its executing state, and the behaviour is polled again and again with its state lock free and
  instruction memory and processor get turns again and again, then, whatever the other peers, the users
  and the network do, the peer stops or comes to a state where it has executed exactly the programs it
  recognized, in their order.\<close>

theorem recognized_programs_executed:
  assumes "computer_reachable H (\<lambda>_ _ _. True) (computer_start thr buses mems) cl"
    and "\<And>k. possible H (snd (acts k))" and "fair p acts"
    and "processor_state (pbh (peers cl p)) \<noteq> Some Executing_State"
  shows "\<exists>k. \<not> running (peers (trace acts cl k) p)
    \<or> executed (peers (trace acts cl k) p) = programs H (recog (peers cl p))"
proof -
  obtain k where k: "\<not> running (peers (trace acts cl k) p) \<or> peer_load (peers (trace acts cl k) p) = 0"
    using load_vanishes [OF assms(3,4)] by blast
  have "peer_flow H (peers (trace acts cl k) p)"
    using computer_reachable_flow [OF trace_reachable [OF assms(1,2)]] by (simp add: computer_flow_def)
  with k unloaded_executed trace_fixed [OF assms(3,4), of k] show ?thesis by metis
qed

theorem recognized_programs_executed_witness:
  "\<exists>k. \<not> running (peers (trace round_robin commanded k) 1)
     \<or> map instructions (executed (peers (trace round_robin commanded k) 1)) = [example_sum]"
proof -
  have "computer_reachable (hashing quiet_env) (\<lambda>_ _ _. True) start_two commanded"
    unfolding commanded_def by (rule computer_run_reachable [OF computer_reachable.start]) simp
  moreover have "processor_state (pbh (peers commanded 1)) = Some Ready_State" by code_simp
  then have "processor_state (pbh (peers commanded 1)) \<noteq> Some Executing_State" by simp
  ultimately have "\<exists>k. \<not> running (peers (trace round_robin commanded k) 1)
      \<or> executed (peers (trace round_robin commanded k) 1) = programs (hashing quiet_env) (recog (peers commanded 1))"
    by (rule recognized_programs_executed [OF _ round_robin_possible round_robin_fair])
  moreover have "map instructions (programs (hashing quiet_env) (recog (peers commanded 1))) = [example_sum]"
    by code_simp
  ultimately show ?thesis by metis
qed

end
