(* ===== verification/Swarm_Computation.thy ===== *)
theory Swarm_Computation
  imports Swarm_Execution
begin

text \<open>
  The data of the swarm: what the processors of all peers leave in their memories when they execute the
  programs of one commander, against the programs run on the whole data. Between two programs the memory
  of a peer takes the writes of the first.
\<close>

subsection \<open>Programs on whole data\<close>

text \<open>The store after a sequence of programs, and whether all of them succeed.\<close>

fun store_after :: "rs_library \<Rightarrow> Program list \<Rightarrow> (Vid, Data) HashMap \<Rightarrow> (Vid, Data) HashMap" where
  "store_after lib [] store = store"
| "store_after lib (p # ps) store = store_after lib ps (snd (mock_execute_on lib p store))"

fun all_succeed :: "rs_library \<Rightarrow> Program list \<Rightarrow> (Vid, Data) HashMap \<Rightarrow> bool" where
  "all_succeed lib [] store \<longleftrightarrow> True"
| "all_succeed lib (p # ps) store \<longleftrightarrow>
     fst (mock_execute_on lib p store) = Inr () \<and> all_succeed lib ps (snd (mock_execute_on lib p store))"

definition linear_program :: "Program \<Rightarrow> bool" where
  "linear_program p \<longleftrightarrow> list_all (\<lambda>ins. linear_op (operation ins)) (instructions p)"

lemma store_after_append: "store_after lib (ps @ qs) store = store_after lib qs (store_after lib ps store)"
  by (induction ps arbitrary: store) simp_all

lemma all_succeed_append:
  "all_succeed lib (ps @ qs) store \<longleftrightarrow> all_succeed lib ps store \<and> all_succeed lib qs (store_after lib ps store)"
  by (induction ps arbitrary: store) auto

subsection \<open>One program at one peer\<close>

text \<open>The memory of the peer with shard \<open>i\<close> holds the shards of a store once its queued writes are taken.\<close>

definition holds_shards ::
  "array_feature \<Rightarrow> ReedSolomonWrapper \<Rightarrow> Sid \<Rightarrow> (Vid, Data) HashMap \<Rightarrow> bus_world \<Rightarrow> bool" where
  "holds_shards ft w i store bw \<longleftrightarrow> bus_up bw \<and> bus_assigned bw = Some i
     \<and> (\<forall>v. get_shard (v, i) (settled bw) = shard_view ft w i store v)"

lemma execute_holds_shards:
  assumes crate: "rs_wrapper w ord" and wf: "wf_store ft store" and lin: "linear_program p"
    and i: "unat (sid_raw i) < total_shard_count w"
    and ok: "fst (mock_execute_on (inner w) p store) = Inr ()"
    and orders: "hash_ordered (shards_order env)" "exec_ordered o'"
    and holds: "holds_shards ft w i store bw" and idle: "bus_writes bw = []"
    and ex: "execute (inner w) o' (dm_bus env) (instructions p) bw = (rs, bw')"
  shows "holds_shards ft w i (snd (mock_execute_on (inner w) p store)) bw'
    \<and> wf_store ft (snd (mock_execute_on (inner w) p store)) \<and> rs = map (\<lambda>ins. Inr (result ins)) (instructions p)"
proof -
  have bw: "bus_idle bw" "assigned_shard_id (bus_memory bw) = Some i"
    and view: "(\<lambda>v. get_shard (v, i) (bus_memory bw)) = shard_view ft w i store"
    using holds idle by (simp_all add: holds_shards_def bus_idle_def bus_assigned_def settled_def fun_eq_iff)
  have run: "direct_run (inner w) (instructions p) (shard_view ft w i store) = (rs, \<lambda>v. get_shard (v, i) (settled bw'))"
    using execute_on_data_memory_run [OF orders bw, of "inner w" "instructions p"] ex view by auto
  have whole: "mock_run (inner w) (instructions p) store = (Inr (), snd (mock_execute_on (inner w) p store))"
    using ok by (simp add: mock_execute_on_def prod_eq_iff)
  have com: "commutes_at i (operation ins)" if "ins \<in> set (instructions p)" for ins
    using lin that by (simp add: linear_program_def list_all_iff commutes_at_def)
  have "bus_up bw'"
    using memory_bus.execute_refines [OF memory_bus_dm [OF orders(1)] orders(2) bw(1)] ex by (metis prod.inject)
  moreover have "bus_assigned bw' = Some i"
    using execute_keeps [of bus_assigned "dm_bus env", OF dm_bus_assigned ex] holds by (simp add: holds_shards_def)
  ultimately show ?thesis
    using rs_wrapper.direct_run_commutes [OF crate com wf i whole] run
    by (auto simp: holds_shards_def fun_eq_iff)
qed

text \<open>One program, with what the peers report: let every peer hold its
  shards of a store of data units and run the same program on them over its own bus, in its own
  iteration orders and interleavings. If the program uses the linear operations and succeeds on
  the whole data, then every peer reports every instruction as done, and from then on any
  sufficient set of the shards that the peers hold under an id decodes to the data unit that the
  program leaves under that id.\<close>

lemma swarm_execution:
  fixes peer :: "Sid \<Rightarrow> bus_world" and orders :: "Sid \<Rightarrow> exec_orders" and env :: "Sid \<Rightarrow> dm_env"
  assumes crate: "rs_wrapper w ord" and wf: "wf_store ft store"
    and linear: "\<And>ins. ins \<in> set program \<Longrightarrow> linear_op (operation ins)"
    and whole: "mock_run (inner w) program store = (Inr (), store')"
    and orders: "\<And>i. hash_ordered (shards_order (env i))" "\<And>i. exec_ordered (orders i)"
    and peers: "\<And>i. unat (sid_raw i) < total_shard_count w \<Longrightarrow>
        bus_idle (peer i) \<and> assigned_shard_id (bus_memory (peer i)) = Some i
        \<and> (\<forall>v. get_shard (v, i) (bus_memory (peer i)) = shard_view ft w i store v)"
  shows "\<exists>peer'. (\<forall>i. unat (sid_raw i) < total_shard_count w \<longrightarrow>
        execute (inner w) (orders i) (dm_bus (env i)) program (peer i)
          = (map (\<lambda>ins. Inr (result ins)) program, peer' i))
    \<and> (\<forall>v d part. fmlookup store' v = Some d \<longrightarrow> 2 \<le> hm_len part \<longrightarrow>
        (\<forall>i s. fmlookup part i = Some s \<longrightarrow>
           unat (sid_raw i) < total_shard_count w \<and> get_shard (v, i) (settled (peer' i)) = Some s)
        \<longrightarrow> rs_wrapper_decode ft ord w part = Ok d)"
proof -
  let ?ex = "\<lambda>i. execute (inner w) (orders i) (dm_bus (env i)) program (peer i)"
  obtain p :: Program where p: "instructions p = program" by (metis Program.select_convs(1))
  have ok: "fst (mock_execute_on (inner w) p store) = Inr ()" "snd (mock_execute_on (inner w) p store) = store'"
    "linear_program p"
    using whole linear by (simp_all add: mock_execute_on_def p linear_program_def list_all_iff)
  have step: "holds_shards ft w i store' (snd (?ex i)) \<and> wf_store ft store' \<and> fst (?ex i) = map (\<lambda>ins. Inr (result ins)) program"
    if i: "unat (sid_raw i) < total_shard_count w" for i
  proof -
    have "holds_shards ft w i store (peer i)" "bus_writes (peer i) = []"
      using peers [OF i] by (simp_all add: holds_shards_def bus_idle_def bus_assigned_def settled_def)
    from execute_holds_shards [OF crate wf ok(3) i ok(1) orders(1) [of i] orders(2) [of i] this, of "fst (?ex i)" "snd (?ex i)"]
    show ?thesis by (simp add: ok(2) p)
  qed
  have "rs_wrapper_decode ft ord w part = Ok d"
    if d: "fmlookup store' v = Some d" and n: "2 \<le> hm_len part"
      and part: "\<forall>i s. fmlookup part i = Some s \<longrightarrow>
        unat (sid_raw i) < total_shard_count w \<and> get_shard (v, i) (settled (snd (?ex i))) = Some s"
    for v d part
  proof (rule rs_wrapper.faithful_part [OF crate _ _ n])
    have "unat (sid_raw (Sid 0)) < total_shard_count w"
      using rs_wrapper.two_data [OF crate] by (simp add: total_shard_count_def)
    then show "wf_data ft d" using step d unfolding wf_store_def by blast
    show "shard_of ft w i d = Some s" if "fmlookup part i = Some s" for i s
      using part [rule_format, OF that] step [of i] d by (auto simp: holds_shards_def shard_view_def)
  qed
  with step show ?thesis by (intro exI [of _ "\<lambda>i. snd (?ex i)"]) (auto simp: prod_eq_iff)
qed

subsection \<open>The whole swarm\<close>

text \<open>The processors run on the crate of the encoding, a program starts when the writes of the last one are
  taken, and nothing else changes the stored shards.\<close>

fun settled_first :: "ReedSolomonWrapper \<Rightarrow> PeerId \<Rightarrow> ('ev, bus_world) event \<Rightarrow> ('ev, bus_world) computer \<Rightarrow> bool" where
  "settled_first w p (ProcessorTurn lib o' lks) cl \<longleftrightarrow>
     lib = inner w \<and> exec_ordered o' \<and> bus_writes (pmem (peers cl p)) = []"
| "settled_first w p (MemoryChanges m) cl \<longleftrightarrow> bus_memory m = settled (pmem (peers cl p)) \<and> bus_writes m = []"
| "settled_first w p _ cl \<longleftrightarrow> True"

definition good_programs :: "rs_library \<Rightarrow> (Vid, Data) HashMap \<Rightarrow> Program list \<Rightarrow> bool" where
  "good_programs lib store ps \<longleftrightarrow> list_all linear_program ps \<and> all_succeed lib ps store"

lemma good_prefix: "prefix ps qs \<Longrightarrow> good_programs lib store qs \<Longrightarrow> good_programs lib store ps"
  by (auto simp: prefix_def good_programs_def all_succeed_append)

text \<open>A peer with shard \<open>i\<close> whose memory holds what its programs make of the initial store.\<close>

definition peer_computes ::
  "array_feature \<Rightarrow> ReedSolomonWrapper \<Rightarrow> dm_env \<Rightarrow> (Vid, Data) HashMap \<Rightarrow> Sid \<Rightarrow> ('ev, bus_world) peer \<Rightarrow> bool" where
  "peer_computes ft w env store i n \<longleftrightarrow> pbus n = dm_bus env
     \<and> (good_programs (inner w) store (executed n) \<longrightarrow>
         holds_shards ft w i (store_after (inner w) (executed n) store) (pmem n)
         \<and> wf_store ft (store_after (inner w) (executed n) store))"

lemma turn_memory [simp]:
  "pmem (poll_turn env n) = pmem n" "pmem (instruction_turn ord n) = pmem n"
  "pmem (consensus_turn n) = pmem n" "pmem (recognize x n) = pmem n"
  "pbus (poll_turn env n) = pbus n" "pbus (instruction_turn ord n) = pbus n" "pbus (processor_turn lib o' lks n) = pbus n"
  "pbus (consensus_turn n) = pbus n" "pbus (recognize x n) = pbus n"
  by (simp_all add: poll_turn_def instruction_turn_def processor_turn_def consensus_turn_def recognize_def Let_def
      split: list.splits prod.splits)

lemma turn_computes:
  "peer_computes ft w env store i (poll_turn env' n) = peer_computes ft w env store i n"
  "peer_computes ft w env store i (instruction_turn ord n) = peer_computes ft w env store i n"
  "peer_computes ft w env store i (consensus_turn n) = peer_computes ft w env store i n"
  "peer_computes ft w env store i (recognize x n) = peer_computes ft w env store i n"
  by (simp_all add: peer_computes_def)

lemma processor_turn_computes:
  assumes "rs_wrapper w ord" and "hash_ordered (shards_order env)" and "unat (sid_raw i) < total_shard_count w"
    and "exec_ordered o'" and "bus_writes (pmem n) = []" and n: "peer_computes ft w env store i n"
  shows "peer_computes ft w env store i (processor_turn (inner w) o' lks n)"
proof (cases "queue (processor_input (pbh n))")
  case (Cons e es)
  obtain prog lk1 lk2 where e: "e = Execute prog" "lks = (lk1, lk2)" by (cases e; cases lks)
  obtain rs m where ex: "execute (inner w) o' (dm_bus env) (instructions prog) (pmem n) = (rs, m)" by force
  let ?n = "processor_turn (inner w) o' lks n"
  have n': "pmem ?n = m" "executed ?n = executed n @ [prog]" "pbus ?n = dm_bus env"
    using n Cons e ex by (auto simp: peer_computes_def processor_turn_def program_into_parts_def sink_simps Let_def)
  show ?thesis
  proof (cases "good_programs (inner w) store (executed n @ [prog])")
    case True
    let ?s = "store_after (inner w) (executed n) store"
    have good: "good_programs (inner w) store (executed n)" by (rule good_prefix [OF _ True]) simp
    have step: "linear_program prog" "fst (mock_execute_on (inner w) prog ?s) = Inr ()"
      using True by (simp_all add: good_programs_def all_succeed_append)
    have "holds_shards ft w i ?s (pmem n)" "wf_store ft ?s" using n good by (simp_all add: peer_computes_def)
    from execute_holds_shards [OF assms(1) this(2) step(1) assms(3) step(2) assms(2,4) this(1) assms(5) ex]
    show ?thesis using n by (simp add: peer_computes_def n' store_after_append)
  qed (use n in \<open>simp add: peer_computes_def n'\<close>)
qed (use n in \<open>simp add: processor_turn_def\<close>)

lemma settle_computes:
  assumes "peer_computes ft w env store i n" and "bus_memory m = settled (pmem n)" "bus_writes m = []"
  shows "peer_computes ft w env store i (n\<lparr>pmem := m\<rparr>)"
  using assms by (auto simp: peer_computes_def holds_shards_def bus_up_def bus_assigned_def settled_def bus_writes_only)

lemma exec_step_computes:
  assumes "rs_wrapper w ord" and "hash_ordered (shards_order env)" and "unat (sid_raw i) < total_shard_count w"
    and "settled_first w q e cl" and "peer_computes ft w env store i (peers cl p)"
  shows "peer_computes ft w env store i (peers (exec_step q e cl) p)"
proof (cases "q = p")
  case True
  with assms show ?thesis
    by (cases e) (auto simp: Let_def turn_computes processor_turn_computes settle_computes,
        simp_all add: peer_computes_def)
next
  case False
  with assms(5) show ?thesis by (cases e) (auto simp: Let_def)
qed

lemma reachable_computes:
  assumes reach: "computer_reachable H (settled_first w) (computer_start thr (\<lambda>p. dm_bus (envs p)) mems) cl"
    and crate: "rs_wrapper w ord" and wf: "wf_store ft store"
    and p: "hash_ordered (shards_order (envs p))" "unat (sid_raw i) < total_shard_count w"
    and start: "holds_shards ft w i store (mems p)"
  shows "peer_computes ft w (envs p) store i (peers cl p)"
  using reach
proof induction
  case start
  then show ?case using assms by (simp add: peer_computes_def computer_start_def peer_start_def)
next
  case (step cl e q)
  then show ?case using exec_step_computes [OF crate p] by blast
qed

text \<open>The shards that the peers hold under an id after the first \<open>k\<close> programs of the commander.\<close>

lemma computed_shard:
  assumes reach: "computer_reachable H (settled_first w) (computer_start thr (\<lambda>p. dm_bus (envs p)) mems) cl"
    and commander: "\<And>q h ins. (h, ExecuteTx ins) \<in> set (chain cl q) \<Longrightarrow> q = c"
    and crate: "rs_wrapper w ord" and wf: "wf_store ft store"
    and good: "good_programs (inner w) store (programs H (map (Pair c) (chain cl c)))"
    and p: "hash_ordered (shards_order (envs p))" "unat (sid_raw i) < total_shard_count w" "holds_shards ft w i store (mems p)"
    and k: "length (executed (peers cl p)) = k"
  shows "executed (peers cl p) = take k (programs H (map (Pair c) (chain cl c)))"
    and "get_shard (v, i) (settled (pmem (peers cl p)))
      = shard_view ft w i (store_after (inner w) (take k (programs H (map (Pair c) (chain cl c)))) store) v"
    and "wf_store ft (store_after (inner w) (take k (programs H (map (Pair c) (chain cl c)))) store)"
proof -
  have pre: "prefix (executed (peers cl p)) (programs H (map (Pair c) (chain cl c)))"
    by (rule executed_of_commander [OF computer_reachable_flow [OF reach]]) (rule commander)
  then show ex: "executed (peers cl p) = take k (programs H (map (Pair c) (chain cl c)))"
    using k by (auto simp: prefix_def)
  have "peer_computes ft w (envs p) store i (peers cl p)" by (rule reachable_computes [OF reach crate wf p])
  with good_prefix [OF pre good] show "get_shard (v, i) (settled (pmem (peers cl p)))
      = shard_view ft w i (store_after (inner w) (take k (programs H (map (Pair c) (chain cl c)))) store) v"
    "wf_store ft (store_after (inner w) (take k (programs H (map (Pair c) (chain cl c)))) store)"
    by (auto simp: peer_computes_def holds_shards_def ex)
qed

subsection \<open>Runs that settle first\<close>

text \<open>For runs that are evaluated: the writes are taken before each turn of a processor.\<close>

fun writes_taken :: "(PeerId \<times> ('ev, bus_world) event) list \<Rightarrow> ('ev, bus_world) computer \<Rightarrow> bool" where
  "writes_taken [] cl \<longleftrightarrow> True"
| "writes_taken ((p, e) # acts) cl \<longleftrightarrow>
     (case e of ProcessorTurn _ _ _ \<Rightarrow> List.null (bus_writes (pmem (peers cl p))) | MemoryChanges _ \<Rightarrow> False | _ \<Rightarrow> True)
     \<and> writes_taken acts (exec_step p e cl)"

fun ordered_turn :: "ReedSolomonWrapper \<Rightarrow> ('ev, 'm) event \<Rightarrow> bool" where
  "ordered_turn w (ProcessorTurn lib o' lks) \<longleftrightarrow> lib = inner w \<and> exec_ordered o'"
| "ordered_turn w _ \<longleftrightarrow> True"

lemma settled_run_reachable:
  assumes "computer_reachable H (settled_first w) start cl" and "list_all (\<lambda>(p, e). possible H e \<and> ordered_turn w e) acts"
    and "writes_taken acts cl"
  shows "computer_reachable H (settled_first w) start (computer_run acts cl)"
  using assms
proof (induction acts arbitrary: cl)
  case (Cons x acts)
  obtain p e where x: "x = (p, e)" by force
  have "settled_first w p e cl" using Cons.prems(2,3) x by (cases e) (auto simp: List.null_iff)
  then have "computer_reachable H (settled_first w) start (exec_step p e cl)"
    using Cons.prems(1,2) x by (auto intro: computer_reachable.step)
  from Cons.IH [OF this] Cons.prems(2,3) x show ?case by (simp add: computer_run_def)
qed (simp add: computer_run_def)

end
