(* ===== verification/Swarm_Lifecycle.thy ===== *)
theory Swarm_Lifecycle
  imports Swarm_Main Swarm_Memory_Bus Swarm_Instruction_Storage
begin

text \<open>
  The end of a node: the terminal of \<open>ui.rs\<close> that cancels the shutdown token, the event loop that stops on
  it, the tasks that see the token in their \<open>select!\<close>, and the end of \<open>main.rs\<close>, where the handles of the
  tasks of \<open>network.rs\<close> are awaited. The theorems say when a node with a terminal comes to its end, and
  that one without does not.
\<close>

subsection \<open>The terminal\<close>

text \<open>What the user does next: a command, or leaving the terminal. \<open>critical\<close> tells which errors of a
  handler end the loop of the command-line library.\<close>

datatype repl_line = Command string "string list" | Quit

record repl_setup =
  runtime_builds :: bool
  repl_builds :: bool
  critical :: "string \<Rightarrow> bool"

text \<open>\<open>repl.run()\<close>; \<open>None\<close> while it waits for the next line. An unknown command is only reported.\<close>

fun repl_run ::
  "'fs ui_env \<Rightarrow> repl_library \<Rightarrow> repl_setup \<Rightarrow> 'fs \<Rightarrow> repl_line list \<Rightarrow> UiInEvent sink
   \<Rightarrow> (string, unit) outcome option \<times> UiInEvent sink" where
  "repl_run u lib st fs [] c = (None, c)"
| "repl_run u lib st fs (Quit # _) c = (Some (Ok ()), c)"
| "repl_run u lib st fs (Command name args # rest) c =
     (case repl_command u lib fs name args c of
        None \<Rightarrow> repl_run u lib st fs rest c
      | Some (Panic, c, _) \<Rightarrow> (Some Panic, c)
      | Some (Err e, c, _) \<Rightarrow> if critical st e then (Some (Err e), c) else repl_run u lib st fs rest c
      | Some (Ok Done, c, _) \<Rightarrow> repl_run u lib st fs rest c)"

text \<open>The thread of the terminal. The second component is whether it has cancelled the shutdown token.\<close>

definition run_repl ::
  "'fs ui_env \<Rightarrow> repl_library \<Rightarrow> repl_setup \<Rightarrow> 'fs \<Rightarrow> repl_line list \<Rightarrow> UiInEvent sink
   \<Rightarrow> (string, unit) outcome option \<times> bool \<times> UiInEvent sink" where
  "run_repl u lib st fs lines c =
     (if \<not> runtime_builds st then (Some Panic, False, c)
      else if \<not> repl_builds st then (Some Panic, False, c)
      else (case repl_run u lib st fs lines c of
              (None, c) \<Rightarrow> (None, False, c)
            | (Some (Ok _), c) \<Rightarrow> (Some (Ok ()), True, c)
            | (Some _, c) \<Rightarrow> (Some Panic, False, c)))"

subsection \<open>The tasks\<close>

text \<open>How a task stands as seen from its handle: finished, unwound by a panic, waiting for a send that never
  completes, or still running after the given choices of \<open>select!\<close>.\<close>

datatype task_end = Task_Done | Task_Panicked | Task_Blocked | Task_Running

text \<open>After the event loop nobody takes events from the output channels any more. A task goes through the
  choices of its \<open>select!\<close>, of which the cancelled token is one; \<open>room\<close> is what its output channel can
  still hold. A step that sends more waits inside the branch, out of reach of the token.\<close>

fun drive ::
  "('sel \<Rightarrow> 's \<Rightarrow> (task_ctl \<times> 's) option) \<Rightarrow> ('s \<Rightarrow> nat) \<Rightarrow> nat \<Rightarrow> 'sel list \<Rightarrow> 's \<Rightarrow> task_end" where
  "drive step sends room [] s = Task_Running"
| "drive step sends room (x # xs) s =
     (case step x s of
        None \<Rightarrow> Task_Blocked
      | Some (ctl, s') \<Rightarrow>
          if room < sends s' - sends s then Task_Blocked
          else (case ctl of
                  Go_On \<Rightarrow> drive step sends (room - (sends s' - sends s)) xs s'
                | Task_Return \<Rightarrow> Task_Done
                | Task_Panic \<Rightarrow> Task_Panicked))"

fun ctl_of :: "bool \<times> 's \<Rightarrow> (task_ctl \<times> 's) option" where
  "ctl_of (go, s) = Some (if go then Go_On else Task_Return, s)"

definition consensus_end ::
  "('g, 'ev) graph_library \<Rightarrow> nat \<Rightarrow> ((bool \<times> bool) \<times> 'ev cs_select) list \<Rightarrow> ('g, 'ev) cs_conf \<Rightarrow> task_end" where
  "consensus_end lib = drive (\<lambda>(lks, x). cs_run_step lib lks x) (\<lambda>(w, st, c). length (sent c))"

definition instruction_memory_end ::
  "(Vid fset \<Rightarrow> Vid list) \<Rightarrow> nat \<Rightarrow> is_select list \<Rightarrow> InstructionMemory \<times> IsOutEvent sink \<Rightarrow> task_end" where
  "instruction_memory_end ord = drive (\<lambda>x s. ctl_of (is_run_step ord x s)) (\<lambda>(im, c). length (sent c))"

definition processor_end ::
  "rs_library \<Rightarrow> exec_orders \<Rightarrow> nat \<Rightarrow> ((bool \<times> bool) \<times> proc_select) list
   \<Rightarrow> 'm ShardProcessor \<times> 'm \<times> ProcOutEvent sink \<Rightarrow> task_end" where
  "processor_end lib o' = drive (\<lambda>(lks, x) s. ctl_of (proc_run_step lib o' lks x s)) (\<lambda>(sp, m, c). length (sent c))"

text \<open>The data memory is different: the \<open>select!\<close> on the token is around both of its loops, so that the token
  reaches it even while it waits for a send. \<open>None\<close> is the choice of the token.\<close>

type_synonym memory_state = "UninitializedDataMemory + InitializedDataMemory"

definition memory_step ::
  "dm_env \<Rightarrow> dm_select \<Rightarrow> memory_state \<Rightarrow> dm_ctl \<times> memory_state \<times> DmOutEvent list" where
  "memory_step env x m =
     (case m of
        Inl un \<Rightarrow>
          (case un_run_step x un open_sink of
             (UnContinue, c) \<Rightarrow> (Dm_Continue, Inl un, sent c)
           | (UnClosed, c) \<Rightarrow> (Dm_Return, Inl un, sent c)
           | (UnInit dm, c) \<Rightarrow> (Dm_Continue, Inr dm, sent c))
      | Inr dm \<Rightarrow>
          (case dm_run_step env x ((dm, open_sink), []) of
             (ctl, (dm, c), _) \<Rightarrow> (ctl, Inr dm, sent c)))"

fun data_memory_end :: "dm_env \<Rightarrow> nat \<Rightarrow> dm_select option list \<Rightarrow> memory_state \<Rightarrow> task_end" where
  "data_memory_end env room [] m = Task_Running"
| "data_memory_end env room (None # _) m = Task_Done"
| "data_memory_end env room (Some x # xs) m =
     (case memory_step env x m of
        (ctl, m', out) \<Rightarrow>
          if room < length out then (if None \<in> set xs then Task_Done else Task_Running)
          else (case ctl of
                  Dm_Continue \<Rightarrow> data_memory_end env (room - length out) xs m'
                | Dm_Panic \<Rightarrow> Task_Panicked
                | _ \<Rightarrow> Task_Done))"

text \<open>The task that stands for the user of a node without a terminal:
  \<open>while behaviour_client.output.recv().await.is_some() {}\<close>.\<close>

function dummy_receiver :: "'a chan \<Rightarrow> task_end" where
  "dummy_receiver ch =
     (case poll_recv ch of
        (Ready (Some _), ch') \<Rightarrow> dummy_receiver ch'
      | (Ready None, _) \<Rightarrow> Task_Done
      | (Pending, _) \<Rightarrow> Task_Running)"
  by auto
termination
  by (relation "measure (\<lambda>ch. length (queue ch))") (auto simp: poll_recv_def split: list.splits if_splits)

declare dummy_receiver.simps [simp del]

subsection \<open>The end of \<open>main\<close>\<close>

text \<open>\<open>for handle in join_handles { handle.await.unwrap() }\<close> and \<open>Ok(())\<close>; \<open>None\<close> is a handle that is awaited
  forever.\<close>

fun await_handles :: "task_end list \<Rightarrow> (string, unit) outcome option" where
  "await_handles [] = Some (Ok ())"
| "await_handles (Task_Done # rest) = await_handles rest"
| "await_handles (Task_Panicked # rest) = Some Panic"
| "await_handles (_ # rest) = None"

text \<open>The handles in the order in which \<open>network.rs\<close> creates them. The thread of the terminal has none.\<close>

definition join_handles ::
  "bool \<Rightarrow> task_end \<times> task_end \<times> task_end \<times> task_end \<Rightarrow> UiOutEvent chan \<Rightarrow> task_end list" where
  "join_handles run_ui ends user =
     (case ends of (cs, dm, im, pr) \<Rightarrow> [cs, dm, im, pr] @ (if run_ui then [] else [dummy_receiver user]))"

text \<open>After the loop the swarm, and the behaviour in it, live on until \<open>main\<close> returns.\<close>

definition main_finish ::
  "('g, 'ev) launched \<Rightarrow> task_end \<times> task_end \<times> task_end \<times> task_end \<Rightarrow> ('sw, 'ev) main_state
   \<Rightarrow> (string, unit) outcome option" where
  "main_finish node ends s = await_handles (join_handles (ui_started node) ends (user_output (main_bh s)))"

definition main_begin :: "('g, 'ev) launched \<Rightarrow> 'sw \<Rightarrow> ('sw, 'ev) main_state" where
  "main_begin node sw = \<lparr>swarm = sw, main_bh = main_behaviour node, rr_out = open_sink, cancelled = shutdown_token node\<rparr>"

text \<open>How the state of a node develops: the swarm polls the behaviour, the event loop takes something, the
  user end of the output is served, and the tasks use their ends of all other channels.\<close>

inductive node_reachable :: "('sw, 'ev) main_state \<Rightarrow> ('sw, 'ev) main_state \<Rightarrow> bool" for s0 where
  start: "node_reachable s0 s0"
| poll: "node_reachable s0 s \<Longrightarrow> bh_poll env (main_bh s) = (r, b) \<Longrightarrow> node_reachable s0 (s\<lparr>main_bh := b\<rparr>)"
| select: "node_reachable s0 s \<Longrightarrow> main_step ops x s = (go, s') \<Longrightarrow> node_reachable s0 s'"
| user: "node_reachable s0 s
    \<Longrightarrow> node_reachable s0 (s\<lparr>main_bh := user_output_update (\<lambda>ch. ch\<lparr>queue := es\<rparr>) (main_bh s)\<rparr>)"
| tasks: "node_reachable s0 s \<Longrightarrow> user_output b = user_output (main_bh s) \<Longrightarrow> node_reachable s0 (s\<lparr>main_bh := b\<rparr>)"

subsection \<open>Tasks that can be cancelled\<close>

text \<open>What the awaiting of a handle relies on: the token ends the task, every other choice comes to an end and
  sends a bounded number of events.\<close>

locale cancellable_task =
  fixes step :: "'sel \<Rightarrow> 's \<Rightarrow> (task_ctl \<times> 's) option"
    and sends :: "'s \<Rightarrow> nat"
    and token :: "'sel \<Rightarrow> bool"
    and returns :: "'sel \<Rightarrow> bool"
    and most :: nat
  assumes token_ends: "token x \<Longrightarrow> step x s = Some (Task_Return, s)"
    and step_returns: "returns x \<Longrightarrow> step x s \<noteq> None"
    and sends_at_most: "step x s = Some (ctl, s') \<Longrightarrow> sends s' \<le> sends s + most"
begin

text \<open>A task that takes the token before its channel can be full ends, or has panicked before.\<close>

lemma ends_in_time:
  assumes "list_all returns xs" and "\<exists>x \<in> set (take (Suc k) xs). token x" and "k * most \<le> room"
  shows "drive step sends room xs s = Task_Done \<or> drive step sends room xs s = Task_Panicked"
  using assms
proof (induction xs arbitrary: k room s)
  case (Cons x xs)
  obtain ctl s' where step: "step x s = Some (ctl, s')"
    using step_returns [of x s] Cons.prems(1) by auto
  show ?case
  proof (cases "token x")
    case True
    then show ?thesis using token_ends [of x s] by simp
  next
    case False
    with Cons.prems(2) obtain j where k: "k = Suc j" "\<exists>x \<in> set (take (Suc j) xs). token x" by (cases k) auto
    have n: "sends s' - sends s \<le> most" using sends_at_most [OF step] by simp
    with k(1) Cons.prems(3) have "j * most \<le> room - (sends s' - sends s)" "\<not> room < sends s' - sends s" by auto
    with Cons.IH [OF _ k(2)] Cons.prems(1) step show ?thesis by (cases ctl) auto
  qed
qed simp

end

locale steady_task = cancellable_task +
  assumes never_panics: "step x s \<noteq> Some (Task_Panic, s')"
begin

lemma drive_never_panics: "drive step sends room xs s \<noteq> Task_Panicked"
proof (induction xs arbitrary: room s)
  case (Cons x xs)
  then show ?case using never_panics [of x s]
    by (auto split: option.split task_ctl.split)
qed simp

lemma finishes_in_time:
  assumes "list_all returns xs" and "\<exists>x \<in> set (take (Suc k) xs). token x" and "k * most \<le> room"
  shows "drive step sends room xs s = Task_Done"
  using ends_in_time [OF assms] drive_never_panics by blast

end

lemma ctl_of_Some: "ctl_of r = Some (ctl, s) \<longleftrightarrow> r = (ctl = Go_On, s) \<and> ctl \<noteq> Task_Panic"
  by (cases r) (auto intro: task_ctl.exhaust [of ctl])

lemma ctl_of_total: "ctl_of r \<noteq> None"
  by (cases r) simp

lemma sink_send_length: "sink_send x c = (ok, c') \<Longrightarrow> length (sent c') \<le> Suc (length (sent c))"
  by (auto dest: sink_send_sent)

text \<open>How much the steps of the tasks send.\<close>

lemma cs_send_length: "cs_send e (w, st, c) = (ctl, w', st', c') \<Longrightarrow> length (sent c') \<le> Suc (length (sent c))"
  by (auto dest!: sink_send_length split: prod.splits)

lemma cs_run_step_length:
  assumes "cs_run_step lib lks x (w, st, c) = Some (ctl, w', st', c')"
  shows "length (sent c') \<le> Suc (length (sent c))"
proof (cases x)
  case CsPoll
  with assms show ?thesis
    by (auto dest!: cs_send_length simp del: cs_send.simps split: option.splits prod.splits Poll.splits)
next
  case (CsInput e)
  then show ?thesis
  proof (cases e)
    case (Some d)
    with CsInput assms show ?thesis
      by (cases d; cases lks) (auto dest!: cs_send_length simp: Let_def simp del: cs_send.simps
        split: sum.splits prod.splits outcome.splits)
  qed (use assms in simp)
qed (use assms in simp)

lemma is_run_step_length:
  assumes "is_run_step ord x (im, c) = (go, im', c')"
  shows "length (sent c') \<le> length (sent c) + 2"
proof (cases "(ord, x, im, c)" rule: is_run_step.cases)
  case (1 ord' e s)
  with assms show ?thesis
    by (cases e) (auto dest!: sink_send_length simp: Let_def split: prod.splits if_splits option.splits)
qed (use assms in auto)

lemma proc_run_step_length:
  assumes "proc_run_step lib o' lks x (sp, m, c) = (go, sp', m', c')"
  shows "length (sent c') \<le> Suc (length (sent c))"
  using assms by (cases "(lib, o', lks, x, sp, m, c)" rule: proc_run_step.cases)
    (auto dest!: sink_send_length simp: Let_def split: prod.splits if_splits)

lemma cs_run_step_total:
  assumes "x = CsPoll \<longrightarrow> (\<forall>w. poll_next lib w \<noteq> None)"
  shows "cs_run_step lib lks x s \<noteq> None"
  using assms by (cases "(lib, lks, x, s)" rule: cs_run_step.cases)
    (auto simp del: cs_send.simps not_None_eq split: option.splits prod.splits Poll.splits)

interpretation consensus: cancellable_task "\<lambda>(lks, x). cs_run_step lib lks x" "\<lambda>(w, st, c). length (sent c)"
    "\<lambda>(lks, x). x = CsCancelled" "\<lambda>(lks, x). x = CsPoll \<longrightarrow> (\<forall>w. poll_next lib w \<noteq> None)" 1 for lib
  by unfold_locales (auto dest: cs_run_step_length simp: cs_run_step_total simp del: not_None_eq split: prod.splits)

interpretation instruction_memory: steady_task "\<lambda>x s. ctl_of (is_run_step ord x s)" "\<lambda>(im, c). length (sent c)"
    "\<lambda>x. x = IsCancelled" "\<lambda>_. True" 2 for ord
  by unfold_locales (auto dest: is_run_step_length simp: ctl_of_Some ctl_of_total simp del: not_None_eq)

interpretation processor: steady_task "\<lambda>(lks, x) s. ctl_of (proc_run_step lib o' lks x s)" "\<lambda>(sp, m, c). length (sent c)"
    "\<lambda>(lks, x). x = Cancelled" "\<lambda>_. True" 1 for lib o'
proof
  show "(case x of (lks, x) \<Rightarrow> \<lambda>s. ctl_of (proc_run_step lib o' lks x s)) s \<noteq> None" for x and s :: "'a ShardProcessor \<times> 'a \<times> ProcOutEvent sink"
    using ctl_of_total by (cases x) (simp del: not_None_eq)
qed (auto dest: proc_run_step_length simp: ctl_of_Some)

text \<open>The data memory ends whenever it is given the token at all.\<close>

lemma data_memory_ends:
  "None \<in> set xs \<Longrightarrow> data_memory_end env room xs m = Task_Done \<or> data_memory_end env room xs m = Task_Panicked"
proof (induction xs arbitrary: room m)
  case (Cons x xs)
  then show ?case
    by (cases x) (auto split: prod.split dm_ctl.split)
qed simp

subsection \<open>The user end of the behaviour\<close>

text \<open>As long as the behaviour lives, so does its end of the channel to the user.\<close>

definition user_end_alive :: "'ev Behaviour \<Rightarrow> bool" where
  "user_end_alive b \<longleftrightarrow> tx_alive (user_output b)"

interpretation user_end_steps: poll_steps user_end_alive "\<lambda>_. user_end_alive"
    "\<lambda>_. True" "\<lambda>_. True" "\<lambda>_. True" "\<lambda>_. True" "\<lambda>_. True" "\<lambda>_. True"
  by unfold_locales (auto simp: user_end_alive_def)

lemma user_end_answer_request: "triple user_end_alive (answer_request r x) user_end_alive (\<lambda>_. user_end_alive)"
  unfolding answer_request_def [abs_def] Let_def
  by (rule triple_shift [OF user_end_steps.respond_all]) (simp_all add: user_end_alive_def list_all_iff)

lemma user_end_rr_event: "triple user_end_alive (on_rr_event m) user_end_alive (\<lambda>_. user_end_alive)"
  by (cases m) (auto simp: triple_def must_send_def and_then_def user_end_alive_def
      split: prod.splits Poll.splits bool.splits option.splits Request.splits ProtoResponse.splits)

lemma user_end_taken:
  assumes "triple user_end_alive (h e) user_end_alive (\<lambda>_. user_end_alive)"
    and "\<And>b f. user_output (upd f b) = user_output b"
  shows "triple (taken get upd user_end_alive e) (h e) user_end_alive (\<lambda>_. user_end_alive)"
  by (rule triple_weaken [OF assms(1)]) (auto simp: taken_def user_end_alive_def assms(2))

interpretation user_end: open_invariant user_end_alive "\<lambda>_. user_end_alive"
proof
  show "triple (taken data_output data_output_update user_end_alive d) (on_data_memory_event env d)
      user_end_alive (\<lambda>_. user_end_alive)" for d env
    by (rule user_end_taken, rule user_end_steps.data_memory_event) (simp_all add: list_all_iff user_end_answer_request)
  show "triple (taken rr_output rr_output_update user_end_alive m) (on_rr_event m) user_end_alive (\<lambda>_. user_end_alive)" for m
    by (rule user_end_taken, rule user_end_rr_event) simp
qed (auto simp: user_end_alive_def)

lemma poll_keeps_user_end: "user_end_alive b \<Longrightarrow> bh_poll env b = (r, b') \<Longrightarrow> user_end_alive b'"
  using user_end.polls.poll by blast

lemma main_step_user_output:
  assumes "main_step ops x s = (go, s')"
  shows "user_output (main_bh s') = user_output (main_bh s)"
proof (cases "(ops, x, s)" rule: main_step.cases)
  case (1 ops' list s1)
  have "user_output (main_bh (on_discovered ops list s)) = user_output (main_bh s)"
    unfolding on_discovered_def by (induction list arbitrary: s) (auto simp: inject_peer_discovered_def)
  then show ?thesis using 1 assms by auto
next
  case (8 ops' action s1)
  then show ?thesis using assms
    by (cases action) (auto simp: stop_main_def Let_def split: prod.splits if_splits)
qed (use assms on_expired_state [of ops _ s] in \<open>auto simp: stop_main_def Let_def split: prod.splits if_splits\<close>)

lemma node_user_end:
  assumes "node_reachable s0 s" and "user_end_alive (main_bh s0)"
  shows "user_end_alive (main_bh s)"
  using assms
proof (induction rule: node_reachable.induct)
  case (poll s env r b)
  then show ?case using poll_keeps_user_end by fastforce
next
  case (select s ops x go s')
  then show ?case using main_step_user_output by (fastforce simp: user_end_alive_def)
qed (simp_all add: user_end_alive_def)

lemma network_new_ui:
  assumes "network_new oc rs net t p1 p2 seed settings run_ui addr = Ok node"
  shows "ui_started node = run_ui \<and> user_end_alive (main_behaviour node) \<and> \<not> shutdown_token node"
proof -
  from assms have "\<exists>own. ui_started node = run_ui \<and> \<not> shutdown_token node \<and> main_behaviour node =
      Behaviour_new t t own 2 12
       (module_channels_new None CHANNEL_BUFFER_LIMIT) (module_channels_new (Some CsReady) CHANNEL_BUFFER_LIMIT)
       (module_channels_new None CHANNEL_BUFFER_LIMIT) (module_channels_new None CHANNEL_BUFFER_LIMIT)
       (module_channels_new (Some Ready_State) CHANNEL_BUFFER_LIMIT) (module_channels_new None CHANNEL_BUFFER_LIMIT)"
    by (cases "local_keypair net seed") (auto simp: network_new_def Let_def split: sum.splits outcome.splits)
  then show ?thesis by (auto simp: user_end_alive_def Behaviour_new_def module_channels_new_def mpsc_channel_def)
qed

text \<open>The stand-in for the user ends exactly when the behaviour is gone.\<close>

lemma dummy_receiver_iff: "dummy_receiver ch = (if tx_alive ch then Task_Running else Task_Done)"
proof (induction ch rule: dummy_receiver.induct)
  case (1 ch)
  then show ?case
    by (subst dummy_receiver.simps) (auto simp: poll_recv_def split: list.splits)
qed

lemma await_handles_Ok: "await_handles hs = Some (Ok ()) \<longleftrightarrow> (\<forall>h \<in> set hs. h = Task_Done)"
  by (induction hs rule: await_handles.induct) auto

lemma await_handles_done: "\<forall>h \<in> set hs. h = Task_Done \<Longrightarrow> await_handles (hs @ rest) = await_handles rest"
  by (induction hs rule: await_handles.induct) auto

text \<open>No command ends the terminal, only leaving it does.\<close>

lemma repl_run_ends:
  assumes "argument_checks lib" and "\<And>bytes. length (blake2b512 (ui_hashing u) bytes) = 64"
    and "\<And>e. \<not> critical st e"
  shows "fst (repl_run u lib st fs lines c) = (if Quit \<in> set lines then Some (Ok ()) else None)"
proof (induction lines arbitrary: c)
  case (Cons line lines)
  show ?case
  proof (cases line)
    case (Command name args)
    then show ?thesis
      using Cons assms(3) repl_never_panics [OF assms(1,2), of fs name args c]
      by (auto split: option.split outcome.split prod.split CommandStatus.split)
  qed simp
qed simp

lemma run_repl_quits:
  assumes "argument_checks lib" and "\<And>bytes. length (blake2b512 (ui_hashing u) bytes) = 64"
    and "\<And>e. \<not> critical st e" and "runtime_builds st" and "repl_builds st" and "Quit \<in> set lines"
  obtains c' where "run_repl u lib st fs lines c = (Some (Ok ()), True, c')"
  using repl_run_ends [OF assms(1-3), of fs lines c] assms(4-6) that
  by (cases "repl_run u lib st fs lines c") (auto simp: run_repl_def)

subsection \<open>Properties\<close>

text \<open>C26: a node without a terminal does not come to its end. Whatever happened before, and even when all
  modules have finished, \<open>main\<close> waits forever for the task that stands for the user: that one ends only
  when the behaviour is dropped, and the behaviour lives in the swarm until \<open>main\<close> returns.\<close>

theorem passive_node_never_exits:
  assumes "network_new oc rs net t p1 p2 seed settings False addr = Ok node"
    and "node_reachable (main_begin node sw) s"
  shows "main_finish node ends s \<noteq> Some (Ok ())
    \<and> main_finish node (Task_Done, Task_Done, Task_Done, Task_Done) s = None"
proof -
  have "user_end_alive (main_bh s)"
    using node_user_end [OF assms(2)] network_new_ui [OF assms(1)] by (simp add: main_begin_def)
  then have "dummy_receiver (user_output (main_bh s)) = Task_Running" "\<not> ui_started node"
    using network_new_ui [OF assms(1)] by (simp_all add: dummy_receiver_iff user_end_alive_def)
  then show ?thesis
    by (cases ends) (simp add: main_finish_def join_handles_def await_handles_Ok)
qed

theorem passive_node_never_exits_witness:
  "\<exists>(node :: (unit, nat) launched) s'.
     network_new True parity_library example_net 0 0 0 None \<lparr>data_shards_total = 3, data_shards_sufficient = 2\<rparr> False [] = Ok node
     \<and> main_step counting_swarm (BehaviourEvent (MainEvent UnableToOperate)) (main_begin node 0) = (False, s')
     \<and> cancelled s' \<and> main_finish node (Task_Done, Task_Done, Task_Done, Task_Done) s' = None"
proof -
  obtain node :: "(unit, nat) launched" where node:
    "network_new True parity_library example_net 0 0 0 None \<lparr>data_shards_total = 3, data_shards_sufficient = 2\<rparr> False [] = Ok node"
    by (simp add: network_new_def local_keypair_def UninitializedDataMemory_new_def rs_wrapper_new_def parity_library_def Let_def)
  let ?s = "main_begin node (0 :: nat)"
  have stop: "main_step counting_swarm (BehaviourEvent (MainEvent UnableToOperate)) ?s = (False, ?s\<lparr>cancelled := True\<rparr>)"
    by (simp add: stop_main_def)
  then have "node_reachable ?s (?s\<lparr>cancelled := True\<rparr>)" by (rule node_reachable.select [OF node_reachable.start])
  from passive_node_never_exits [OF node this] stop node show ?thesis by auto
qed

text \<open>C25: leaving the terminal ends a node that has one. Whatever commands the user typed before, the
  terminal then cancels the shutdown token; the next poll of the behaviour reports it and the event loop
  ends; and when every task is given the token before it could fill its output channel, all handles
  complete and \<open>main\<close> returns, with success unless the consensus or the data memory panicked before the
  token reached them.\<close>

theorem quitting_ends_node:
  assumes terminal: "argument_checks lib" "\<And>bytes. length (blake2b512 (ui_hashing u) bytes) = 64"
      "\<And>e. \<not> critical st e" "runtime_builds st" "repl_builds st" "Quit \<in> set lines"
    and "run_repl u lib st fs lines c = (ended, token, c')"
    and started: "network_new oc rs net t p1 p2 seed settings True addr = Ok node"
    and consensus: "list_all (\<lambda>(lks, x). x = CsPoll \<longrightarrow> (\<forall>w. poll_next glib w \<noteq> None)) css"
      "\<exists>lks. (lks, CsCancelled) \<in> set (take (Suc cs_room) css)" "cs = consensus_end glib cs_room css csc"
    and data: "None \<in> set dms" "dm = data_memory_end denv dm_room dms mem"
    and instructions: "IsCancelled \<in> set (take (Suc (is_room div 2)) iss)" "im = instruction_memory_end ord is_room iss imc"
    and processor: "\<exists>lks. (lks, Cancelled) \<in> set (take (Suc pr_room) prs)" "pr = processor_end prs_lib o' pr_room prs prc"
    and b: "b = (main_bh s)\<lparr>user_shutdown := token\<rparr>"
  shows "ended = Some (Ok ()) \<and> bh_poll env b = (GenerateError CancelSignal, b)
    \<and> (\<exists>s'. main_step ops (BehaviourEvent (MainEvent CancelSignal)) (s\<lparr>main_bh := b\<rparr>) = (False, s') \<and> cancelled s'
        \<and> main_finish node (cs, dm, im, pr) s'
          = Some (if cs = Task_Panicked \<or> dm = Task_Panicked then Panic else Ok ()))"
proof -
  have token: "ended = Some (Ok ())" "token"
    using run_repl_quits [OF terminal, of fs c] assms(7) by fastforce+
  have poll: "bh_poll env b = (GenerateError CancelSignal, b)"
    by (simp add: bh_poll_def and_then_def shutdown_section_def b token(2))
  have "cs = Task_Done \<or> cs = Task_Panicked"
    unfolding consensus(3) consensus_end_def
    by (rule consensus.ends_in_time [of _ _ cs_room]) (use consensus in auto)
  moreover have "dm = Task_Done \<or> dm = Task_Panicked"
    unfolding data(2) by (rule data_memory_ends [OF data(1)])
  moreover have "im = Task_Done"
    unfolding instructions(2) instruction_memory_end_def
    by (rule instruction_memory.finishes_in_time [of _ "is_room div 2"]) (use instructions(1) in \<open>auto simp: list_all_iff\<close>)
  moreover have "pr = Task_Done"
    unfolding processor(2) processor_end_def
    by (rule processor.finishes_in_time [of _ pr_room]) (use processor(1) in \<open>auto simp: list_all_iff\<close>)
  ultimately show ?thesis
    using poll token(1) network_new_ui [OF started] by (auto simp: stop_main_def main_finish_def join_handles_def)
qed

text \<open>The user reads everything and leaves; the instruction memory takes one more program before it sees the
  token.\<close>

theorem quitting_ends_node_witness:
  "\<exists>(node :: (unit, nat) launched) s'.
     network_new True parity_library example_net 0 0 0 None \<lparr>data_shards_total = 3, data_shards_sufficient = 2\<rparr> True [] = Ok node
     \<and> main_step counting_swarm (BehaviourEvent (MainEvent CancelSignal))
         (example_main\<lparr>main_bh := example_behaviour\<lparr>user_shutdown := True\<rparr>\<rparr>) = (False, s')
     \<and> main_finish node (Task_Done, Task_Done, Task_Done, Task_Done) s' = Some (Ok ())"
proof -
  obtain node :: "(unit, nat) launched" where node:
    "network_new True parity_library example_net 0 0 0 None \<lparr>data_shards_total = 3, data_shards_sufficient = 2\<rparr> True [] = Ok node"
    by (simp add: network_new_def local_keypair_def UninitializedDataMemory_new_def rs_wrapper_new_def parity_library_def Let_def)
  let ?st = "\<lparr>runtime_builds = True, repl_builds = True, critical = (\<lambda>_. False)\<rparr>"
  let ?lines = "[Command ''readall'' [], Quit]"
  obtain c' where run: "run_repl example_ui strict_checks ?st Map.empty ?lines open_sink = (Some (Ok ()), True, c')"
    by (rule run_repl_quits [OF strict.argument_checks_axioms, of example_ui ?st ?lines]) simp_all
  let ?css = "[((False, False), CsInput (Some KnownPeersRequest)), ((False, False), CsCancelled)]
    :: ((bool \<times> bool) \<times> EventWrapper cs_select) list"
  let ?csc = "(from_graph 0 0 ([], [], []), Some CsReady, open_sink)" and ?dms = "[Some (BusRead (Some (Vid 1))), None]"
  let ?iss = "[IsInput (Some (ExecutedProgram 1 \<lparr>hash = Hash [], event_hash = Hash []\<rparr>)), IsCancelled]"
    and ?prs = "[((False, False), Cancelled)]" and ?im = "(InstructionMemory_new 2, open_sink)"
  let ?mem = "Inl \<lparr>un_encoding = parity_wrapper, un_local_id = 1\<rparr>"
    and ?prc = "(\<lparr>memory_access = dm_bus (sorted_env Default_Array), module_state = Some Ready_State\<rparr>, example_bus, open_sink)"
  have ends: "Task_Done = consensus_end list_graph_library 1 ?css ?csc"
    "Task_Done = data_memory_end (sorted_env Default_Array) 0 ?dms ?mem"
    "Task_Done = instruction_memory_end sorted_list_of_fset 2 ?iss ?im"
    "Task_Done = processor_end parity_library sorted_orders 0 ?prs ?prc"
    by (simp_all add: consensus_end_def instruction_memory_end_def processor_end_def memory_step_def sink_simps
        notify_executed_def InstructionMemory_new_def)
  from quitting_ends_node [OF strict.argument_checks_axioms _ _ _ _ _ run node _ _ ends(1) _ ends(2) _ ends(3) _ ends(4) refl,
      of quiet_env example_main counting_swarm]
  show ?thesis using node by (auto simp del: main_step.simps)
qed

text \<open>A task that meets a full channel never sees the token: nobody takes from the channel any more. Then
  \<open>main\<close> waits for its handle forever, with a terminal and without.\<close>

lemma full_channel_blocks:
  assumes "closes_after c = None"
  shows "instruction_memory_end ord 0 (IsInput (Some (FinalizedProgram p)) # rest) (im, c) = Task_Blocked"
  using assms by (simp add: instruction_memory_end_def sink_simps)

lemma blocked_node_never_exits:
  assumes "im = Task_Blocked" and "cs = Task_Done" and "dm = Task_Done"
  shows "main_finish node (cs, dm, im, pr) s = None"
  using assms by (simp add: main_finish_def join_handles_def)

end
