(* ===== verification/Swarm_Service.thy ===== *)
theory Swarm_Service
  imports Swarm_Traffic
begin

text \<open>
  The stations of a request for a shard in the behaviours of the two nodes, and what a poll does for
  it: it never loses the request, and a poll that comes to its end brings it to the next station.
\<close>

subsection \<open>The holder of the shard\<close>

definition unless_stopped :: "('ev Behaviour \<Rightarrow> bool) \<Rightarrow> 'ev bh_result \<Rightarrow> 'ev Behaviour \<Rightarrow> bool" where
  "unless_stopped I r b \<longleftrightarrow> r = PollPanic \<or> (\<exists>e. r = GenerateError e) \<or> I b"

text \<open>The request has arrived; it is noted as waiting; the data memory has been asked; it has answered; the
  response is on its way out. All answers of the data memory for this shard are \<open>good\<close>.\<close>

definition arrived :: "FullShardId \<Rightarrow> RequestId \<Rightarrow> ResponseChannel \<Rightarrow> 'ev Behaviour \<Rightarrow> bool" where
  "arrived fid i ch b \<longleftrightarrow> IncomingRequest i (GetShard fid) ch \<in> set (queue (rr_output b))"

definition waits :: "FullShardId \<Rightarrow> RequestId \<Rightarrow> ResponseChannel \<Rightarrow> 'ev Behaviour \<Rightarrow> bool" where
  "waits fid i ch b \<longleftrightarrow> (i, ch) \<in> set (waiting (GetShard fid) b)"

definition asked :: "FullShardId \<Rightarrow> 'ev Behaviour \<Rightarrow> bool" where
  "asked fid b \<longleftrightarrow> InAssignedRequest fid \<in> set (queue (data_input b))"

definition answered :: "FullShardId \<Rightarrow> 'ev Behaviour \<Rightarrow> bool" where
  "answered fid b \<longleftrightarrow> (\<exists>x. OutAssignedResponse fid x \<in> set (queue (data_output b)))"

definition responded :: "(Shard option \<Rightarrow> bool) \<Rightarrow> RequestId \<Rightarrow> ResponseChannel \<Rightarrow> 'ev Behaviour \<Rightarrow> bool" where
  "responded good i ch b \<longleftrightarrow> (\<exists>x. good x \<and> Respond i ch (GetShardResponse x) \<in> set (queue (rr_input b)))"

definition good_answers :: "(Shard option \<Rightarrow> bool) \<Rightarrow> FullShardId \<Rightarrow> 'ev Behaviour \<Rightarrow> bool" where
  "good_answers good fid b \<longleftrightarrow> (\<forall>x. OutAssignedResponse fid x \<in> set (queue (data_output b)) \<longrightarrow> good x)"

text \<open>The request is at one of the last stations: with level 3 at any of them, with level 0 at the last, and
  with level 4 anywhere.\<close>

definition in_service ::
  "(Shard option \<Rightarrow> bool) \<Rightarrow> nat \<Rightarrow> FullShardId \<Rightarrow> RequestId \<Rightarrow> ResponseChannel \<Rightarrow> 'ev Behaviour \<Rightarrow> bool" where
  "in_service good lvl fid i ch b \<longleftrightarrow> good_answers good fid b
     \<and> (4 \<le> lvl \<or> 3 \<le> lvl \<and> arrived fid i ch b \<or> 2 \<le> lvl \<and> waits fid i ch b \<and> asked fid b
        \<or> 1 \<le> lvl \<and> waits fid i ch b \<and> answered fid b \<or> responded good i ch b)"

lemmas station_defs = arrived_def waits_def asked_def answered_def responded_def good_answers_def waiting_def

interpretation service_steps: poll_steps "in_service good lvl fid i ch" "unless_stopped (in_service good lvl fid i ch)"
    "\<lambda>_. True" "\<lambda>_. True" "\<lambda>_. True" "\<lambda>_. True" "\<lambda>_. True" "\<lambda>_. True" for good lvl fid i ch
  by unfold_locales (auto simp: in_service_def station_defs unless_stopped_def)

lemma respond_all_stops: "respond_all y ws b = (Some r, b') \<Longrightarrow> \<exists>e. r = GenerateError e"
proof (induction ws arbitrary: b)
  case (Cons w ws)
  then show ?case
    by (cases w) (auto simp: and_then_def must_send_def split: prod.splits option.splits Poll.splits bool.splits)
qed simp

lemma answer_request_effect:
  fixes b :: "'ev Behaviour"
  assumes "answer_request request response b = (None, b')"
  shows "queue (rr_input b') = queue (rr_input b) @ map (\<lambda>(i, c). Respond i c response) (waiting request b)"
    and "rr_output b' = rr_output b" "data_input b' = data_input b" "data_output b' = data_output b"
    and "pending_response b' = pending_response b" "processed_requests b' = fmdrop request (processed_requests b)"
proof -
  let ?b = "b\<lparr>processed_requests := fmdrop request (processed_requests b)\<rparr>"
  have r: "respond_all response (waiting request b) ?b = (None, b')"
    using assms by (simp add: answer_request_def waiting_def)
  show "queue (rr_input b') = queue (rr_input b) @ map (\<lambda>(i, c). Respond i c response) (waiting request b)"
    using respond_all_gains r by (fastforce simp: gains_def)
  show "rr_output b' = rr_output b" "data_input b' = data_input b" "data_output b' = data_output b"
    "pending_response b' = pending_response b" "processed_requests b' = fmdrop request (processed_requests b)"
    using respond_all_keeps [of "\<lambda>b :: 'ev Behaviour. (rr_output b, data_input b, data_output b, pending_response b,
      processed_requests b)" response "waiting request b"] r
    by (auto simp: keeps_def)
qed

text \<open>The answer of the data memory goes to everyone that waits for this shard, and nobody else is affected.\<close>

lemma service_answer:
  assumes "good x"
  shows "triple (\<lambda>b. good_answers good fid b \<and> waits fid i ch b \<or> in_service good lvl fid i ch b)
     (answer_request (GetShard fid) (GetShardResponse x))
     (in_service good lvl fid i ch) (unless_stopped (in_service good lvl fid i ch))"
proof (rule tripleI)
  fix b b' :: "'a Behaviour"
  assume b: "good_answers good fid b \<and> waits fid i ch b \<or> in_service good lvl fid i ch b"
    "answer_request (GetShard fid) (GetShardResponse x) b = (None, b')"
  note effect = answer_request_effect [OF b(2)]
  have "responded good i ch b'" if "waits fid i ch b" using that effect(1) assms by (force simp: waits_def responded_def)
  moreover have "responded good i ch b'" if "responded good i ch b" using that effect(1) by (auto simp: responded_def)
  moreover have "arrived fid i ch b'" if "arrived fid i ch b" using that effect(2) by (simp add: arrived_def)
  moreover have "good_answers good fid b' = good_answers good fid b" using effect(4) by (simp add: good_answers_def)
  ultimately show "in_service good lvl fid i ch b'" using b(1) by (auto simp: in_service_def)
qed (auto simp: answer_request_def Let_def unless_stopped_def dest: respond_all_stops)

lemma service_other_answer:
  assumes "request \<noteq> GetShard fid"
  shows "triple (in_service good lvl fid i ch) (answer_request request response)
    (in_service good lvl fid i ch) (unless_stopped (in_service good lvl fid i ch))"
proof (rule tripleI)
  fix b b' :: "'a Behaviour"
  assume b: "in_service good lvl fid i ch b" "answer_request request response b = (None, b')"
  note effect = answer_request_effect [OF b(2)]
  with b(1) assms show "in_service good lvl fid i ch b'" by (auto simp: in_service_def station_defs)
qed (auto simp: answer_request_def Let_def unless_stopped_def dest: respond_all_stops)

lemma service_data_memory:
  "triple (taken data_output data_output_update (in_service good lvl fid i ch) d) (on_data_memory_event env d)
     (in_service good lvl fid i ch) (unless_stopped (in_service good lvl fid i ch))"
proof (cases "\<exists>x. d = OutAssignedResponse fid x")
  case True
  then obtain x where d: "d = OutAssignedResponse fid x" by blast
  show ?thesis
  proof (cases "good x")
    case True
    show ?thesis unfolding d on_data_memory_event_eq
      by (rule triple_weaken, rule service_answer, rule True) (auto simp: taken_def in_service_def station_defs)
  next
    case False
    then have "\<not> taken data_output data_output_update (in_service good lvl fid i ch) d b" for b :: "'a Behaviour"
      by (auto simp: d taken_def in_service_def good_answers_def)
    then show ?thesis by (simp add: triple_def)
  qed
next
  case False
  have "triple (in_service good lvl fid i ch) (on_data_memory_event env d) (in_service good lvl fid i ch) (unless_stopped (in_service good lvl fid i ch))"
    by (rule service_steps.data_memory_event) (use False in \<open>auto simp: list_all_iff intro!: service_other_answer elim!: dm_to_answer.elims\<close>)
  then show ?thesis
    by (rule triple_weaken) (use False in \<open>auto simp: taken_def in_service_def station_defs\<close>)
qed

lemma service_network:
  "triple (taken rr_output rr_output_update (in_service good lvl fid i ch) e) (on_rr_event e)
     (in_service good lvl fid i ch) (unless_stopped (in_service good lvl fid i ch))"
proof (cases e)
  case (IncomingRequest j request c)
  then show ?thesis
    by (cases request) (auto simp: triple_def taken_def and_then_def must_send_def poll_send_def in_service_def station_defs
        unless_stopped_def split: prod.splits option.splits if_splits)
next
  case (AssignedRequestId j request)
  then show ?thesis by (auto simp: triple_def taken_def in_service_def station_defs)
next
  case (RrResponse j response)
  then show ?thesis
    by (auto simp: triple_def taken_def must_send_def poll_send_def in_service_def station_defs
        unless_stopped_def split: option.splits Request.splits ProtoResponse.splits if_splits)
qed

interpretation service: open_invariant "in_service good lvl fid i ch" "unless_stopped (in_service good lvl fid i ch)" for good lvl fid i ch
proof
  show "unless_stopped (in_service good lvl fid i ch) (Dial p) (b\<lparr>discovered_peers := ps\<rparr>)"
    if "in_service good lvl fid i ch b" for p ps and b :: "'a Behaviour"
    using that by (simp add: unless_stopped_def in_service_def station_defs)
qed (auto simp: in_service_def station_defs unless_stopped_def intro: service_data_memory service_network)

text \<open>A poll that does not stop the node keeps the request in service.\<close>

lemma service_poll:
  assumes "in_service good lvl fid i ch b" and "bh_poll env b = (r, b')" and "r \<noteq> PollPanic" and "\<And>e. r \<noteq> GenerateError e"
  shows "in_service good lvl fid i ch b'"
  using service.polls.poll [OF assms(1,2)] assms(3,4) by (auto simp: unless_stopped_def)

text \<open>A poll that comes to its end has read everything from the network.\<close>

lemma full_poll_reads_network:
  assumes "bh_poll env b = (PollPending, b')"
  shows "queue (rr_output b') = []"
proof -
  obtain b1 where "rr_section b1 = (None, b')"
    using poll_pending_sections [OF assms] by (auto simp: poll_sections_def and_then_None)
  then show ?thesis by (auto simp: rr_section_def intro: rr_waiting.uses_up)
qed

text \<open>Reading the answers of the data memory brings a request from level 1 to level 0.\<close>

lemma triple_then:
  assumes "triple P f R Q" and "\<And>b b'. P b \<Longrightarrow> f b = (None, b') \<Longrightarrow> R b' \<Longrightarrow> R' b'"
  shows "triple P f R' (\<lambda>_ _. True)"
  using assms by (auto simp: triple_def split: prod.splits option.splits)

lemma data_memory_section_serves:
  "triple (in_service good 1 fid i ch) (data_memory_section env) (in_service good 0 fid i ch) (\<lambda>_ _. True)"
proof (rule triple_then [OF service.polls.sections(3)])
  fix b b' :: "'a Behaviour"
  assume "data_memory_section env b = (None, b')" "in_service good 1 fid i ch b'"
  then show "in_service good 0 fid i ch b'"
    using dm_loop.uses_up [of env b b'] by (auto simp: data_memory_section_def in_service_def answered_def)
qed

lemma full_poll_answers:
  "triple (in_service good 1 fid i ch) (poll_sections env) (in_service good 0 fid i ch) (\<lambda>_ _. True)"
proof -
  have keep: "triple (in_service good lvl fid i ch) f (in_service good lvl fid i ch) (\<lambda>_ _. True)"
    if "triple (in_service good lvl fid i ch) f (in_service good lvl fid i ch) (unless_stopped (in_service good lvl fid i ch))"
    for lvl and f :: "'a bh_step" using that by (rule triple_then)
  show ?thesis unfolding poll_sections_def
    by (rule triple_and_then, rule keep, rule service.polls.sections(1), rule triple_and_then, rule keep,
        rule service.polls.sections(2), rule triple_and_then, rule keep, rule service.polls.oneshot_section,
        rule triple_and_then, rule data_memory_section_serves,
        intro triple_and_then [of "in_service good 0 fid i ch" _ "in_service good 0 fid i ch"] keep service.polls.sections
          service.polls.instruction_section service.polls.gossip)
qed

lemma full_poll_serves:
  assumes "bh_poll env b = (PollPending, b')"
  shows "in_service good 3 fid i ch b \<Longrightarrow> in_service good 2 fid i ch b'" and "in_service good 1 fid i ch b \<Longrightarrow> in_service good 0 fid i ch b'"
proof -
  show "in_service good 2 fid i ch b'" if "in_service good 3 fid i ch b"
    using service_poll [OF that assms] full_poll_reads_network [OF assms] by (auto simp: in_service_def arrived_def)
  show "in_service good 1 fid i ch b \<Longrightarrow> in_service good 0 fid i ch b'"
    using triple_goes_on [OF full_poll_answers] poll_pending_sections [OF assms] by blast
qed

subsection \<open>The node that asks\<close>

text \<open>What the behaviour will have noted for a request number when it has read the events in the channel, and
  whether it will meet the response while it remembers the request.\<close>

fun note_number :: "RequestId \<Rightarrow> RrOutEvent \<Rightarrow> Request option \<Rightarrow> Request option" where
  "note_number i (AssignedRequestId j request) noted = (if j = i then Some request else noted)"
| "note_number i _ noted = noted"

fun comes_back :: "FullShardId \<Rightarrow> RequestId \<Rightarrow> Shard option \<Rightarrow> RrOutEvent list \<Rightarrow> Request option \<Rightarrow> bool" where
  "comes_back fid i x [] noted \<longleftrightarrow> False"
| "comes_back fid i x (e # es) noted \<longleftrightarrow> e = RrResponse i (GetShardResponse x) \<and> noted = Some (GetShard fid)
     \<or> comes_back fid i x es (note_number i e noted)"

definition knows :: "FullShardId \<Rightarrow> RequestId \<Rightarrow> 'ev Behaviour \<Rightarrow> bool" where
  "knows fid i b \<longleftrightarrow> fold (note_number i) (queue (rr_output b)) (fmlookup (pending_response b) i) = Some (GetShard fid)"

definition given :: "FullShardId \<Rightarrow> Shard option \<Rightarrow> 'ev Behaviour \<Rightarrow> bool" where
  "given fid x b \<longleftrightarrow> InAssignedResponse fid x \<in> set (queue (data_input b))"

text \<open>Before the response is there and after.\<close>

definition in_return :: "bool \<Rightarrow> FullShardId \<Rightarrow> RequestId \<Rightarrow> Shard option \<Rightarrow> 'ev Behaviour \<Rightarrow> bool" where
  "in_return home fid i x b \<longleftrightarrow>
     (if home then comes_back fid i x (queue (rr_output b)) (fmlookup (pending_response b) i) \<or> given fid x b
      else knows fid i b)"

lemma comes_back_append:
  "comes_back fid i x (es @ es') noted \<longleftrightarrow> comes_back fid i x es noted \<or> comes_back fid i x es' (fold (note_number i) es noted)"
  by (induction es arbitrary: noted) auto

lemmas return_defs = in_return_def knows_def given_def

interpretation return_steps: poll_steps "in_return home fid i x" "unless_stopped (in_return home fid i x)"
    "\<lambda>_. True" "\<lambda>_. True" "\<lambda>_. True" "\<lambda>_. True" "\<lambda>_. True" "\<lambda>_. True" for home fid i x
  by unfold_locales (auto simp: return_defs unless_stopped_def)

lemma return_answer: "triple (in_return home fid i x) (answer_request request response)
    (in_return home fid i x) (unless_stopped (in_return home fid i x))"
proof (rule tripleI)
  fix b b' :: "'a Behaviour"
  assume "in_return home fid i x b" "answer_request request response b = (None, b')"
  then show "in_return home fid i x b'"
    using answer_request_effect [of request response b b'] by (auto simp: return_defs split: if_splits)
qed (auto simp: answer_request_def Let_def unless_stopped_def dest: respond_all_stops)

lemma return_data_memory:
  "triple (taken data_output data_output_update (in_return home fid i x) d) (on_data_memory_event env d)
     (in_return home fid i x) (unless_stopped (in_return home fid i x))"
  by (rule triple_weaken, rule return_steps.data_memory_event)
    (auto simp: list_all_iff return_answer taken_def return_defs)

lemma on_rr_event_effect:
  assumes "on_rr_event e b = (None, b')"
  shows "rr_output b' = rr_output b"
    and "fmlookup (pending_response b') i = note_number i e (fmlookup (pending_response b) i)"
    and "given fid x b \<Longrightarrow> given fid x b'"
    and "e = RrResponse i (GetShardResponse x) \<Longrightarrow> fmlookup (pending_response b) i = Some (GetShard fid) \<Longrightarrow> given fid x b'"
  using assms
  by (cases e; auto simp: given_def must_send_None and_then_None split: option.splits Request.splits ProtoResponse.splits)+

lemma on_rr_event_stops: "on_rr_event e b = (Some r, b') \<Longrightarrow> \<exists>err. r = GenerateError err"
  by (cases e) (auto simp: must_send_def and_then_def
      split: prod.splits option.splits Poll.splits bool.splits Request.splits ProtoResponse.splits)

lemma return_network:
  "triple (taken rr_output rr_output_update (in_return home fid i x) e) (on_rr_event e)
     (in_return home fid i x) (unless_stopped (in_return home fid i x))"
proof (rule tripleI)
  fix b b' :: "'a Behaviour"
  assume b: "taken rr_output rr_output_update (in_return home fid i x) e b" "on_rr_event e b = (None, b')"
  obtain b0 es where "in_return home fid i x b0" "queue (rr_output b0) = e # es"
    "b = rr_output_update (\<lambda>ch. ch\<lparr>queue := es\<rparr>) b0" using b(1) by (auto simp: taken_def)
  then show "in_return home fid i x b'"
    using on_rr_event_effect(1) [OF b(2)] on_rr_event_effect(2) [OF b(2), of i] on_rr_event_effect(3) [OF b(2), of fid x]
      on_rr_event_effect(4) [OF b(2), of i x fid] by (auto simp: in_return_def knows_def given_def split: if_splits)
qed (auto simp: unless_stopped_def dest: on_rr_event_stops)

interpretation return: open_invariant "in_return home fid i x" "unless_stopped (in_return home fid i x)" for home fid i x
proof
  show "unless_stopped (in_return home fid i x) (Dial p) (b\<lparr>discovered_peers := ps\<rparr>)"
    if "in_return home fid i x b" for p ps and b :: "'a Behaviour"
    using that by (auto simp: unless_stopped_def return_defs split: if_splits)
qed (auto simp: return_defs unless_stopped_def intro: return_data_memory return_network)

lemma return_poll:
  assumes "in_return home fid i x b" and "bh_poll env b = (r, b')" and "r \<noteq> PollPanic" and "\<And>e. r \<noteq> GenerateError e"
  shows "in_return home fid i x b'"
  using return.polls.poll [OF assms(1,2)] assms(3,4) by (auto simp: unless_stopped_def)

lemma full_poll_gives:
  assumes "bh_poll env b = (PollPending, b')" and "in_return True fid i x b"
  shows "given fid x b'"
  using return_poll [OF assms(2,1)] full_poll_reads_network [OF assms(1)] by (auto simp: in_return_def)

subsection \<open>What only grows\<close>

text \<open>A poll takes nothing from the channels to the data memory and to the network.\<close>

definition grown :: "DmInEvent list \<Rightarrow> RrInEvent list \<Rightarrow> 'ev Behaviour \<Rightarrow> bool" where
  "grown ds ns b \<longleftrightarrow> (\<exists>ds'. queue (data_input b) = ds @ ds') \<and> (\<exists>ns'. queue (rr_input b) = ns @ ns')"

interpretation grown_steps: poll_steps "grown ds ns" "\<lambda>_. grown ds ns"
    "\<lambda>_. True" "\<lambda>_. True" "\<lambda>_. True" "\<lambda>_. True" "\<lambda>_. True" "\<lambda>_. True" for ds ns
  by unfold_locales (auto simp: grown_def)

lemma grown_answer: "triple (grown ds ns) (answer_request request response) (grown ds ns) (\<lambda>_. grown ds ns)"
  unfolding answer_request_def [abs_def] Let_def
  by (rule triple_shift [OF grown_steps.respond_all]) (simp_all add: grown_def list_all_iff)

lemma grown_data_memory: "triple (taken data_output data_output_update (grown ds ns) d) (on_data_memory_event env d)
     (grown ds ns) (\<lambda>_. grown ds ns)"
  by (rule triple_weaken, rule grown_steps.data_memory_event) (auto simp: list_all_iff grown_answer taken_def grown_def)

lemma grown_network: "triple (taken rr_output rr_output_update (grown ds ns) e) (on_rr_event e) (grown ds ns) (\<lambda>_. grown ds ns)"
  by (cases e) (auto simp: triple_def must_send_def poll_send_def and_then_def grown_def taken_def
      split: prod.splits Poll.splits bool.splits option.splits Request.splits ProtoResponse.splits)

interpretation grown: open_invariant "grown ds ns" "\<lambda>_. grown ds ns" for ds ns
proof
  show "grown ds ns (b\<lparr>discovered_peers := ps\<rparr>)" if "grown ds ns b" for ps and b :: "'a Behaviour"
    using that by (simp add: grown_def)
qed (auto simp: grown_def intro: grown_data_memory grown_network)

lemma poll_grows:
  assumes "bh_poll env b = (r, b')"
  obtains ds ns where "queue (data_input b') = queue (data_input b) @ ds" "queue (rr_input b') = queue (rr_input b) @ ns"
proof -
  have "grown (queue (data_input b)) (queue (rr_input b)) b" by (simp add: grown_def)
  from grown.polls.poll [OF this assms] that show thesis by (auto simp: grown_def)
qed

end
