(* ===== verification/Swarm_Answers.thy ===== *)
theory Swarm_Answers
  imports Swarm_Cluster Swarm_Service Swarm_Temporal Swarm_Memory_Bus
begin

text \<open>
  Liveness of the requests for shards: the request of one node is answered by the other, through both event
  loops, both behaviours, the network and the data memory, unless one of them stops.
\<close>

subsection \<open>Runs of the cluster\<close>

primrec cluster_trace :: "(nat \<Rightarrow> 'ev action) \<Rightarrow> 'ev cluster \<Rightarrow> nat \<Rightarrow> 'ev cluster" where
  "cluster_trace acts cl 0 = cl"
| "cluster_trace acts cl (Suc k) = cluster_step (acts k) (cluster_trace acts cl k)"

text \<open>What a request depends on at a node.\<close>

definition same_way :: "'ev node \<Rightarrow> 'ev node \<Rightarrow> bool" where
  "same_way n n' \<longleftrightarrow> main_up n' = main_up n \<and> mem_up n' = mem_up n \<and> mem n' = mem n
     \<and> rr_input (bh n') = rr_input (bh n) \<and> rr_output (bh n') = rr_output (bh n)
     \<and> data_input (bh n') = data_input (bh n) \<and> data_output (bh n') = data_output (bh n)
     \<and> processed_requests (bh n') = processed_requests (bh n) \<and> pending_response (bh n') = pending_response (bh n)"

definition heard :: "RrOutEvent list \<Rightarrow> 'ev node \<Rightarrow> 'ev node" where
  "heard es n = n\<lparr>bh := rr_output_update (\<lambda>ch. ch\<lparr>queue := queue ch @ es\<rparr>) (bh n)\<rparr>"

definition spoken :: "RrInEvent list \<Rightarrow> 'ev node \<Rightarrow> 'ev node" where
  "spoken as n = n\<lparr>bh := rr_input_update (\<lambda>ch. ch\<lparr>queue := as\<rparr>) (bh n)\<rparr>"

text \<open>The steps of the event loop at a node that is up.\<close>

lemma action_takes_request:
  assumes "main_up n" and "queue (rr_input (bh n)) = MakeRequest request to # as"
  shows "action_takes p (n, nw) = (heard [AssignedRequestId (length (requests nw)) request] (spoken as n),
    nw\<lparr>requests := requests nw @ [(p, to, request)]\<rparr>)"
  using assms by (simp add: action_takes_def main_takes_def cluster_swarm_def sink_simps Let_def heard_def spoken_def)

lemma action_takes_respond:
  assumes "main_up n" and "queue (rr_input (bh n)) = Respond i ch response # as"
  shows "action_takes p (n, nw) = (spoken as n, nw\<lparr>responses := responses nw @ [(ch, response)]\<rparr>)"
  using assms by (simp add: action_takes_def main_takes_def cluster_swarm_def sink_simps Let_def spoken_def)

lemma main_takes_event:
  assumes "main_up n"
  shows "main_takes p (BehaviourEvent (RequestResponseEvent (RrMessageEvent peer (MessageRequest i request ch)))) (n, nw)
      = (heard [IncomingRequest i request ch] n, nw)"
    and "main_takes p (BehaviourEvent (RequestResponseEvent (RrMessageEvent peer (MessageResponse i response)))) (n, nw)
      = (heard [RrResponse i response] n, nw)"
  using assms by (simp_all add: main_takes_def sink_simps Let_def heard_def)

lemma down_takes_nothing:
  assumes "\<not> main_up n"
  shows "action_takes p (n, nw) = (n, nw)" and "main_takes p x (n, nw) = (n, nw)"
  using assms by (auto simp: action_takes_def main_takes_def split: list.splits)

text \<open>What can happen at a node.\<close>

lemma cluster_step_node:
  obtains (same) "same_way (nodes cl p) (nodes (cluster_step a cl) p)"
      "a \<noteq> MainTakes p" "\<And>env. a \<noteq> MemTakes p env" "\<And>env. a \<noteq> BhPoll p env"
  | (poll) env where "a = BhPoll p env" "nodes (cluster_step a cl) p = bh_takes env (nodes cl p)"
  | (memory) env where "a = MemTakes p env" "nodes (cluster_step a cl) p = mem_takes env (nodes cl p)"
  | (action) "a = MainTakes p" "nodes (cluster_step a cl) p = fst (action_takes p (nodes cl p, net cl))"
  | (event) e where "main_up (nodes cl p)" "nodes (cluster_step a cl) p = heard [e] (nodes cl p)"
      "a \<noteq> MainTakes p" "\<And>env. a \<noteq> MemTakes p env" "\<And>env. a \<noteq> BhPoll p env" "\<And>i r. e \<noteq> AssignedRequestId i r"
proof (cases a)
  case (BhPoll q env)
  then show thesis by (cases "q = p") (auto simp: at_node_def same_way_def intro: that)
next
  case (MemTakes q env)
  then show thesis by (cases "q = p") (auto simp: at_node_def same_way_def intro: that)
next
  case (MainTakes q)
  then show thesis by (cases "q = p") (auto simp: with_net_def same_way_def split: prod.splits intro: that(1) that(4))
next
  case (DeliverRequest k)
  show thesis
  proof (cases "\<exists>q r. k < length (requests (net cl)) \<and> requests (net cl) ! k = (q, p, r) \<and> main_up (nodes cl p)")
    case True
    then obtain q r where "k < length (requests (net cl))" "requests (net cl) ! k = (q, p, r)" "main_up (nodes cl p)" by blast
    with DeliverRequest show thesis by (intro that(5) [of "IncomingRequest k r k"]) (auto simp: with_net_def main_takes_event)
  next
    case False
    with DeliverRequest show thesis
      by (intro that(1)) (auto simp: same_way_def with_net_def down_takes_nothing split: prod.splits)
  qed
next
  case (DeliverResponse j)
  show thesis
  proof (cases "\<exists>k x q r. j < length (responses (net cl)) \<and> responses (net cl) ! j = (k, x)
      \<and> k < length (requests (net cl)) \<and> requests (net cl) ! k = (p, q, r) \<and> main_up (nodes cl p)")
    case True
    then obtain k x q r where "j < length (responses (net cl))" "responses (net cl) ! j = (k, x)"
      "k < length (requests (net cl))" "requests (net cl) ! k = (p, q, r)" "main_up (nodes cl p)" by blast
    with DeliverResponse show thesis by (intro that(5) [of "RrResponse k x"]) (auto simp: with_net_def main_takes_event)
  next
    case False
    with DeliverResponse show thesis
      by (intro that(1)) (auto simp: same_way_def with_net_def down_takes_nothing split: prod.splits)
  qed
next
  case (SwarmSays q e)
  then show thesis by (intro that(1), cases e) (auto simp: at_behaviour_def at_node_def same_way_def)
next
  case (GossipComes q peer m)
  then show thesis by (intro that(1), cases m) (auto simp: at_behaviour_def at_node_def same_way_def)
qed (auto simp: at_behaviour_def at_node_def same_way_def intro!: that(1))

subsection \<open>Waiting in a channel\<close>

definition place :: "'a \<Rightarrow> 'a list \<Rightarrow> nat" where
  "place x xs = length (takeWhile (\<lambda>y. y \<noteq> x) xs)"

lemma place_append: "x \<in> set xs \<Longrightarrow> place x (xs @ ys) = place x xs"
  by (simp add: place_def takeWhile_append1)

lemma place_Cons: "y \<noteq> x \<Longrightarrow> place x (y # xs) = Suc (place x xs)"
  by (simp add: place_def)

text \<open>The polls of a node that goes on.\<close>

lemma bh_takes_up:
  assumes "main_up (bh_takes env n)"
  obtains r b where "main_up n" "bh_poll env (bh n) = (r, b)" "r \<noteq> PollPanic" "\<And>e. r \<noteq> GenerateError e"
    "bh_takes env n = n\<lparr>bh := b\<rparr>"
  using assms by (cases "bh_poll env (bh n)") (auto simp: bh_takes_def Let_def split: bh_result.splits if_splits)

lemma mem_takes_same:
  "main_up (mem_takes env n) = main_up n" "rr_input (bh (mem_takes env n)) = rr_input (bh n)"
  "rr_output (bh (mem_takes env n)) = rr_output (bh n)" "pending_response (bh (mem_takes env n)) = pending_response (bh n)"
  "processed_requests (bh (mem_takes env n)) = processed_requests (bh n)"
  by (auto simp: mem_takes_def push_data_output_def mem_gone_def Let_def
      split: list.split sum.split un_result.split dm_ctl.split prod.split)

lemma action_takes_up: "main_up (fst (action_takes p (n, nw))) = main_up n"
proof (cases "main_up n \<and> queue (rr_input (bh n)) \<noteq> []")
  case True
  then obtain a as where "queue (rr_input (bh n)) = a # as" by (auto simp: neq_Nil_conv)
  with True show ?thesis
    by (cases a) (simp_all add: action_takes_request action_takes_respond heard_def spoken_def)
qed (auto simp: action_takes_def split: list.split)

text \<open>An event for the event loop comes one place forward with every turn, until it is taken.\<close>

lemma action_waits:
  fixes cl :: "'ev cluster" and p :: PeerId and a :: "'ev action"
  defines "n \<equiv> nodes cl p" and "n' \<equiv> nodes (cluster_step a cl) p"
  assumes ev: "ev \<in> set (queue (rr_input (bh n)))" and up: "main_up n'"
  shows "a = MainTakes p \<and> main_up n \<and> (\<exists>as. queue (rr_input (bh n)) = ev # as)
    \<or> ev \<in> set (queue (rr_input (bh n')))
      \<and> (place ev (queue (rr_input (bh n'))) < place ev (queue (rr_input (bh n)))
        \<or> place ev (queue (rr_input (bh n'))) = place ev (queue (rr_input (bh n))) \<and> a \<noteq> MainTakes p)"
proof (cases rule: cluster_step_node [of cl p a])
  case same
  with ev show ?thesis by (simp add: n_def n'_def same_way_def)
next
  case (poll env)
  obtain r b where b: "bh_poll env (bh n) = (r, b)" "n' = n\<lparr>bh := b\<rparr>"
    using up poll(2) bh_takes_up [of env n] unfolding n_def n'_def by metis
  obtain ns where "queue (rr_input b) = queue (rr_input (bh n)) @ ns" by (rule poll_grows [OF b(1)])
  with ev b(2) poll(1) show ?thesis by (simp add: place_append)
next
  case (memory env)
  with ev show ?thesis by (simp add: n_def n'_def mem_takes_same)
next
  case (event e)
  with ev show ?thesis by (simp add: n_def n'_def heard_def)
next
  case action
  then have "main_up n" using up action_takes_up [of p n "net cl"] by (simp add: n_def n'_def)
  obtain x as where q: "queue (rr_input (bh n)) = x # as" using ev by (cases "queue (rr_input (bh n))") auto
  have "queue (rr_input (bh n')) = as"
    using action(2) q \<open>main_up n\<close> unfolding n_def n'_def
    by (cases x) (simp_all add: action_takes_request action_takes_respond heard_def spoken_def)
  with ev q \<open>main_up n\<close> action(1) show ?thesis by (cases "x = ev") (auto simp: place_Cons)
qed

lemma action_taken:
  fixes acts :: "nat \<Rightarrow> 'ev action" and cl :: "'ev cluster"
  defines "tr \<equiv> cluster_trace acts cl"
  assumes "ev \<in> set (queue (rr_input (bh (nodes (tr i) p))))" and turns: "often (\<lambda>j. acts j = MainTakes p)"
  shows "\<exists>j\<ge>i. \<not> main_up (nodes (tr (Suc j)) p)
    \<or> acts j = MainTakes p \<and> main_up (nodes (tr j) p) \<and> (\<exists>as. queue (rr_input (bh (nodes (tr j) p))) = ev # as)"
proof (rule measured_progress [OF _ turns])
  show "ev \<in> set (queue (rr_input (bh (nodes (tr i) p))))" by (rule assms(2))
  fix j assume "ev \<in> set (queue (rr_input (bh (nodes (tr j) p))))"
  then show "(\<not> main_up (nodes (tr (Suc j)) p)
      \<or> acts j = MainTakes p \<and> main_up (nodes (tr j) p) \<and> (\<exists>as. queue (rr_input (bh (nodes (tr j) p))) = ev # as))
    \<or> ev \<in> set (queue (rr_input (bh (nodes (tr (Suc j)) p))))
      \<and> (place ev (queue (rr_input (bh (nodes (tr (Suc j)) p)))) < place ev (queue (rr_input (bh (nodes (tr j) p))))
        \<or> place ev (queue (rr_input (bh (nodes (tr (Suc j)) p)))) = place ev (queue (rr_input (bh (nodes (tr j) p))))
          \<and> acts j \<noteq> MainTakes p)"
    using action_waits [of ev "tr j" p "acts j"] by (auto simp: tr_def)
qed

subsection \<open>At the holder\<close>

lemma mem_takes_up:
  assumes "mem_up (mem_takes env n)" and "mem n = Inr dm" and "queue (data_input (bh n)) = e # es"
  obtains dm' c where "mem_takes env n = n\<lparr>bh := push_data_output (sent c) ((bh n)\<lparr>data_input := (data_input (bh n))\<lparr>queue := es\<rparr>\<rparr>),
      mem := Inr dm'\<rparr>" "dm_event env e (dm, open_sink) = (Dm_Continue, dm', c)"
proof -
  obtain ctl dm' c where ev: "dm_event env e (dm, open_sink) = (ctl, dm', c)" by (metis prod_cases3)
  have "mem_up n" using assms by (auto simp: mem_takes_def split: if_splits)
  with assms ev have ctl: "ctl = Dm_Continue" by (cases ctl) (simp_all add: mem_takes_def)
  with assms ev \<open>mem_up n\<close> show thesis by (intro that [of dm' c]) (simp_all add: mem_takes_def)
qed

text \<open>The data memory answers with what it holds, it sends such answers only when it is asked, and it keeps what it
  holds.\<close>

lemma sink_send_adds: "sink_send e c = (ok, c') \<Longrightarrow> set (sent c') \<subseteq> insert e (set (sent c))"
  by (auto dest!: sink_send_sent split: if_splits)

lemma handle_assigned_response_sent:
  "handle_assigned_response env fid x (dm, c) = (h, dm', c') \<Longrightarrow> OutAssignedResponse g y \<in> set (sent c') \<Longrightarrow> OutAssignedResponse g y \<in> set (sent c)"
  by (cases x; cases fid)
    (auto simp: Let_def dest: sink_send_adds split: prod.splits option.splits outcome.splits if_splits)

lemma request_shards_sent:
  "request_shards env v xs (dm, c) = (ctl, dm', c') \<Longrightarrow> OutAssignedResponse g y \<in> set (sent c') \<Longrightarrow> OutAssignedResponse g y \<in> set (sent c)"
proof (induction xs arbitrary: dm c)
  case (Cons x xs)
  obtain i owner where x: "x = (i, owner)" by force
  obtain ctl1 dm1 c1 where s1: "(if owner = local_id dm
            then handled (handle_assigned_response env (v, i) (get_shard (v, i) dm) (dm, c))
            else send_or_return (OutAssignedRequest (v, i) owner) (dm, c)) = (ctl1, dm1, c1)"
    by (metis prod_cases3)
  then have "OutAssignedResponse g y \<in> set (sent c1) \<Longrightarrow> OutAssignedResponse g y \<in> set (sent c)"
    by (auto simp: handled_eq split: if_splits prod.splits dest: handle_assigned_response_sent sink_send_adds)
  with Cons s1 show ?case by (auto simp: x split: dm_ctl.splits)
qed simp

lemma serve_response_sent:
  "handle_serve_shard_response fid x (dm, c) = (h, dm', c') \<Longrightarrow> OutAssignedResponse g y \<in> set (sent c') \<Longrightarrow> OutAssignedResponse g y \<in> set (sent c)"
  by (cases x) (auto dest: sink_send_adds split: prod.splits)

lemma dm_event_answers:
  assumes "dm_event env e (dm, open_sink) = (ctl, dm', c)" and "OutAssignedResponse fid x \<in> set (sent c)"
  shows "e = InAssignedRequest fid \<and> x = get_shard fid dm"
proof (cases e)
  case (RecollectRequest v)
  with assms show ?thesis
    by (auto simp: sink_simps Let_def split: option.splits if_splits dest: request_shards_sent)
next
  case (InAssignedResponse g y)
  with assms show ?thesis by (auto simp: handled_eq dest: handle_assigned_response_sent)
next
  case (InServeShardResponse g y)
  with assms show ?thesis by (auto simp: handled_eq dest: serve_response_sent)
qed (use assms in \<open>auto simp: handled_eq sink_simps Let_def split: option.splits outcome.splits prod.splits if_splits
      dest: serve_response_sent\<close>)

lemma dm_event_asked:
  assumes "dm_event env (InAssignedRequest fid) (dm, open_sink) = (ctl, dm', c)"
  shows "sent c = [OutAssignedResponse fid (get_shard fid dm)]"
  using assms by (auto simp: sink_simps Let_def)

lemma store_shard_holds:
  "get_shard fid dm \<noteq> None \<Longrightarrow> get_shard fid (snd (store_shard g s dm)) \<noteq> None"
  by (simp add: get_shard_def store_shard_def hm_get2_insert2)

lemma serve_response_holds:
  "handle_serve_shard_response g x (dm, c) = (h, dm', c') \<Longrightarrow> get_shard fid dm \<noteq> None \<Longrightarrow> get_shard fid dm' \<noteq> None"
  using store_shard_holds [of fid dm g "the x"] by (cases x) (auto simp: Let_def split: prod.splits)

lemma dm_event_holds:
  assumes "dm_event env e (dm, c) = (ctl, dm', c')" and "get_shard fid dm \<noteq> None"
  shows "get_shard fid dm' \<noteq> None"
proof (cases "(\<exists>g s. e = InServeShardResponse g (Some s)) \<or> (\<exists>v. e = StorageRequestTx v (local_id dm))")
  case True
  then obtain g x h where "dm' = dm \<or> handle_serve_shard_response g x (dm, c) = (h, dm', c')"
    using assms(1) by (fastforce simp: handled_eq simp del: handle_serve_shard_response.simps split: option.splits)
  with assms(2) show ?thesis using serve_response_holds by blast
next
  case False
  then have "local_storage dm' = local_storage dm" by (intro dm_event_storage [OF assms(1)]) auto
  with assms(2) show ?thesis by (simp add: get_shard_def)
qed

lemma mem_takes_idle: "queue (data_input (bh n)) = [] \<Longrightarrow> mem_takes env n = n"
  by (simp add: mem_takes_def)

text \<open>From here on the answers in question are those with a shard.\<close>

abbreviation served :: "nat \<Rightarrow> FullShardId \<Rightarrow> RequestId \<Rightarrow> ResponseChannel \<Rightarrow> 'ev Behaviour \<Rightarrow> bool" where
  "served \<equiv> in_service (\<lambda>x. x \<noteq> None)"

lemma service_memory:
  assumes srv: "served lvl fid i ch (bh n)" and up: "mem_up (mem_takes env n)"
    and dm: "mem n = Inr dm" "get_shard fid dm \<noteq> None"
  shows "served lvl fid i ch (bh (mem_takes env n))"
proof (cases "queue (data_input (bh n))")
  case Nil
  then show ?thesis using srv mem_takes_idle [of n env] by simp
next
  case (Cons e es)
  let ?n = "mem_takes env n"
  obtain dm' c where m: "?n = n\<lparr>bh := push_data_output (sent c) ((bh n)\<lparr>data_input := (data_input (bh n))\<lparr>queue := es\<rparr>\<rparr>), mem := Inr dm'\<rparr>"
    "dm_event env e (dm, open_sink) = (Dm_Continue, dm', c)"
    using mem_takes_up [OF up dm(1) Cons] by metis
  have "answered fid (bh ?n)" if "e = InAssignedRequest fid"
    using dm_event_asked m(2) that by (auto simp: m(1) answered_def push_data_output_def)
  moreover have "asked fid (bh ?n)" if "asked fid (bh n)" "e \<noteq> InAssignedRequest fid"
    using that Cons by (simp add: m(1) asked_def push_data_output_def)
  moreover have "good_answers (\<lambda>x. x \<noteq> None) fid (bh ?n)" if "good_answers (\<lambda>x. x \<noteq> None) fid (bh n)"
    using that dm_event_answers [OF m(2), of fid] dm(2) by (auto simp: m(1) good_answers_def push_data_output_def)
  moreover have "arrived fid i ch (bh ?n) = arrived fid i ch (bh n)" "waits fid i ch (bh ?n) = waits fid i ch (bh n)"
    "responded (\<lambda>x. x \<noteq> None) i ch (bh ?n) = responded (\<lambda>x. x \<noteq> None) i ch (bh n)" "answered fid (bh n) \<Longrightarrow> answered fid (bh ?n)"
    by (auto simp: m(1) station_defs push_data_output_def)
  ultimately show ?thesis using srv unfolding in_service_def by fastforce
qed

lemma service_step:
  fixes cl :: "'ev cluster" and p :: PeerId and a :: "'ev action"
  defines "n \<equiv> nodes cl p" and "n' \<equiv> nodes (cluster_step a cl) p"
  assumes srv: "served lvl fid i ch (bh n)" and up: "main_up n'" "mem_up n'" and dm: "mem n = Inr dm" "get_shard fid dm \<noteq> None"
  shows "served lvl fid i ch (bh n')
    \<or> lvl < 4 \<and> a = MainTakes p \<and> main_up n \<and> (\<exists>s as. queue (rr_input (bh n)) = Respond i ch (GetShardResponse (Some s)) # as)"
proof (cases rule: cluster_step_node [of cl p a])
  case same
  with srv show ?thesis by (simp add: n_def n'_def same_way_def in_service_def station_defs)
next
  case (poll env)
  obtain r b where b: "bh_poll env (bh n) = (r, b)" "r \<noteq> PollPanic" "\<And>e. r \<noteq> GenerateError e" "n' = n\<lparr>bh := b\<rparr>"
    using up poll(2) bh_takes_up [of env n] unfolding n_def n'_def by metis
  with service_poll [OF srv b(1-3)] show ?thesis by simp
next
  case (memory env)
  with service_memory [OF srv _ dm, of env] up show ?thesis by (simp add: n_def n'_def)
next
  case (event e)
  with srv show ?thesis by (auto simp: n_def n'_def heard_def in_service_def station_defs)
next
  case action
  show ?thesis
  proof (cases "queue (rr_input (bh n))")
    case Nil
    then show ?thesis using action(2) srv by (simp add: n_def n'_def action_takes_def)
  next
    case (Cons x as)
    then have "main_up n" using up action(2) action_takes_up [of p n "net cl"] by (simp add: n_def n'_def)
    then show ?thesis using action srv Cons unfolding n_def n'_def
      by (cases x) (auto simp: action_takes_request action_takes_respond heard_def spoken_def in_service_def station_defs)
  qed
qed

lemma memory_stays:
  assumes "mem (nodes cl p) = Inr dm" and "get_shard fid dm \<noteq> None"
  shows "\<exists>dm'. mem (nodes (cluster_step a cl) p) = Inr dm' \<and> get_shard fid dm' \<noteq> None"
proof (cases rule: cluster_step_node [of cl p a])
  case (poll env)
  then show ?thesis using assms by (auto simp: bh_takes_def Let_def split: bh_result.split prod.split)
next
  case (memory env)
  then show ?thesis using assms
    by (auto simp: mem_takes_def Let_def split: list.split dm_ctl.split prod.split dest: dm_event_holds)
next
  case action
  then show ?thesis using assms
    by (auto simp: action_takes_def main_takes_def Let_def split: list.split prod.split)
qed (use assms in \<open>auto simp: same_way_def heard_def\<close>)

subsection \<open>Fair runs\<close>

text \<open>A poll that comes to its end; \<open>Swarm_Poll\<close> shows that the swarm repeats polls until one does.\<close>

definition full_poll :: "(nat \<Rightarrow> 'ev action) \<Rightarrow> 'ev cluster \<Rightarrow> PeerId \<Rightarrow> nat \<Rightarrow> bool" where
  "full_poll acts cl p j \<longleftrightarrow> (\<exists>env. acts j = BhPoll p env
     \<and> (main_up (nodes (cluster_trace acts cl j) p)
        \<longrightarrow> fst (bh_poll env (bh (nodes (cluster_trace acts cl j) p))) = PollPending))"

definition fair_node :: "(nat \<Rightarrow> 'ev action) \<Rightarrow> 'ev cluster \<Rightarrow> PeerId \<Rightarrow> bool" where
  "fair_node acts cl p \<longleftrightarrow> often (full_poll acts cl p) \<and> often (\<lambda>j. acts j = MainTakes p)
     \<and> often (\<lambda>j. \<exists>env. acts j = MemTakes p env)"

text \<open>The network delivers every message at least once after it was sent.\<close>

definition delivering :: "(nat \<Rightarrow> 'ev action) \<Rightarrow> 'ev cluster \<Rightarrow> bool" where
  "delivering acts cl \<longleftrightarrow>
     (\<forall>j k. length (requests (net (cluster_trace acts cl j))) = k \<and> k < length (requests (net (cluster_trace acts cl (Suc j))))
        \<longrightarrow> (\<exists>j'>j. acts j' = DeliverRequest k))
     \<and> (\<forall>j k. length (responses (net (cluster_trace acts cl j))) = k \<and> k < length (responses (net (cluster_trace acts cl (Suc j))))
        \<longrightarrow> (\<exists>j'>j. acts j' = DeliverResponse k))"

definition node_up :: "PeerId \<Rightarrow> 'ev cluster \<Rightarrow> bool" where
  "node_up p cl \<longleftrightarrow> main_up (nodes cl p) \<and> mem_up (nodes cl p)"

text \<open>The event loop takes the response from the behaviour.\<close>

definition response_taken :: "(nat \<Rightarrow> 'ev action) \<Rightarrow> 'ev cluster \<Rightarrow> PeerId \<Rightarrow> RequestId \<Rightarrow> ResponseChannel \<Rightarrow> nat \<Rightarrow> bool" where
  "response_taken acts cl p i ch j \<longleftrightarrow> acts j = MainTakes p \<and> main_up (nodes (cluster_trace acts cl j) p)
     \<and> (\<exists>s as. queue (rr_input (bh (nodes (cluster_trace acts cl j) p))) = Respond i ch (GetShardResponse (Some s)) # as)"

definition holds_shard :: "FullShardId \<Rightarrow> 'ev node \<Rightarrow> bool" where
  "holds_shard fid n \<longleftrightarrow> (\<exists>dm. mem n = Inr dm \<and> get_shard fid dm \<noteq> None)"

definition serving :: "nat \<Rightarrow> FullShardId \<Rightarrow> RequestId \<Rightarrow> ResponseChannel \<Rightarrow> PeerId \<Rightarrow> 'ev cluster \<Rightarrow> bool" where
  "serving lvl fid i ch p cl \<longleftrightarrow> served lvl fid i ch (bh (nodes cl p)) \<and> holds_shard fid (nodes cl p)"

lemma serving_step:
  assumes "serving lvl fid i ch p (cluster_trace acts cl j)"
  shows "\<not> node_up p (cluster_trace acts cl (Suc j)) \<or> lvl < 4 \<and> response_taken acts cl p i ch j
    \<or> serving lvl fid i ch p (cluster_trace acts cl (Suc j))"
proof (cases "node_up p (cluster_trace acts cl (Suc j))")
  case True
  obtain dm where dm: "mem (nodes (cluster_trace acts cl j) p) = Inr dm" "get_shard fid dm \<noteq> None"
    and srv: "served lvl fid i ch (bh (nodes (cluster_trace acts cl j) p))"
    using assms by (auto simp: serving_def holds_shard_def)
  with True service_step [OF srv _ _ dm, of "acts j"] memory_stays [OF dm, of "acts j"]
  show ?thesis by (auto simp: serving_def holds_shard_def response_taken_def node_up_def)
qed simp

text \<open>A full poll brings the request to the next station.\<close>

lemma full_poll_stage:
  fixes cl :: "'ev cluster"
  assumes start: "serving lvl fid i ch p (cluster_trace acts cl k)" and fair: "fair_node acts cl p"
    and serves: "\<And>env (b :: 'ev Behaviour) b'. bh_poll env b = (PollPending, b') \<Longrightarrow> served lvl fid i ch b \<Longrightarrow> served lvl' fid i ch b'"
  shows "\<exists>j\<ge>k. \<not> node_up p (cluster_trace acts cl (Suc j)) \<or> response_taken acts cl p i ch j
    \<or> serving lvl' fid i ch p (cluster_trace acts cl (Suc j))"
proof (rule measured_progress [of k "\<lambda>j. serving lvl fid i ch p (cluster_trace acts cl j)" _ "\<lambda>_. 0" "full_poll acts cl p"])
  fix j assume j: "serving lvl fid i ch p (cluster_trace acts cl j)"
  let ?n = "nodes (cluster_trace acts cl j) p"
  have "serving lvl' fid i ch p (cluster_trace acts cl (Suc j))"
    if poll: "full_poll acts cl p j" and up: "node_up p (cluster_trace acts cl (Suc j))"
  proof -
    obtain env where env: "acts j = BhPoll p env" "main_up ?n \<Longrightarrow> fst (bh_poll env (bh ?n)) = PollPending"
      using poll by (auto simp: full_poll_def)
    then have n': "nodes (cluster_trace acts cl (Suc j)) p = bh_takes env ?n" by (simp add: at_node_def)
    with up obtain r b where "main_up ?n" "bh_poll env (bh ?n) = (r, b)" "bh_takes env ?n = ?n\<lparr>bh := b\<rparr>"
      using bh_takes_up [of env ?n] by (metis node_up_def)
    with env(2) serves [of env "bh ?n" b] j n' show ?thesis by (auto simp: serving_def holds_shard_def)
  qed
  with serving_step [OF j]
  show "(\<not> node_up p (cluster_trace acts cl (Suc j)) \<or> response_taken acts cl p i ch j
      \<or> serving lvl' fid i ch p (cluster_trace acts cl (Suc j)))
    \<or> serving lvl fid i ch p (cluster_trace acts cl (Suc j)) \<and> ((0::nat) < 0 \<or> (0::nat) = 0 \<and> \<not> full_poll acts cl p j)" by blast
qed (use start fair in \<open>simp_all add: fair_node_def\<close>)

text \<open>The turns of the data memory bring the question to its front, and then the answer.\<close>

lemma memory_stage_step:
  fixes cl :: "'ev cluster" and p :: PeerId and a :: "'ev action"
  defines "n \<equiv> nodes cl p" and "n' \<equiv> nodes (cluster_step a cl) p"
  assumes asked: "asked fid (bh n)" and up: "main_up n'" "mem_up n'" and dm: "mem n = Inr dm"
  shows "answered fid (bh n') \<or> asked fid (bh n')
      \<and> (place (InAssignedRequest fid) (queue (data_input (bh n'))) < place (InAssignedRequest fid) (queue (data_input (bh n)))
        \<or> place (InAssignedRequest fid) (queue (data_input (bh n'))) = place (InAssignedRequest fid) (queue (data_input (bh n)))
          \<and> \<not> (\<exists>env. a = MemTakes p env))"
proof (cases rule: cluster_step_node [of cl p a])
  case same
  with asked show ?thesis by (auto simp: n_def n'_def same_way_def asked_def)
next
  case (poll env)
  obtain r b where b: "bh_poll env (bh n) = (r, b)" "n' = n\<lparr>bh := b\<rparr>"
    using up poll(2) bh_takes_up [of env n] unfolding n_def n'_def by metis
  obtain ds where "queue (data_input b) = queue (data_input (bh n)) @ ds" by (rule poll_grows [OF b(1)])
  with asked b(2) poll(1) show ?thesis by (simp add: place_append asked_def)
next
  case (memory env)
  obtain e es where q: "queue (data_input (bh n)) = e # es"
    using asked by (cases "queue (data_input (bh n))") (auto simp: asked_def)
  obtain dm' c where m: "n' = n\<lparr>bh := push_data_output (sent c) ((bh n)\<lparr>data_input := (data_input (bh n))\<lparr>queue := es\<rparr>\<rparr>), mem := Inr dm'\<rparr>"
    "dm_event env e (dm, open_sink) = (Dm_Continue, dm', c)"
    using mem_takes_up [OF _ dm q, of env] up(2) memory(2) unfolding n_def n'_def by metis
  show ?thesis
  proof (cases "e = InAssignedRequest fid")
    case True
    then show ?thesis using dm_event_asked m(2) by (auto simp: m(1) answered_def push_data_output_def)
  next
    case False
    then show ?thesis using asked q by (simp add: m(1) asked_def push_data_output_def place_Cons)
  qed
next
  case (event e)
  with asked show ?thesis by (auto simp: n_def n'_def heard_def asked_def)
next
  case action
  have "data_input (bh (fst (action_takes p (n, net cl)))) = data_input (bh n)"
  proof (cases "queue (rr_input (bh n)) = [] \<or> \<not> main_up n")
    case False
    then obtain x as where "queue (rr_input (bh n)) = x # as" "main_up n" by (auto simp: neq_Nil_conv)
    then show ?thesis by (cases x) (simp_all add: action_takes_request action_takes_respond heard_def spoken_def)
  qed (auto simp: action_takes_def split: list.split)
  with asked action show ?thesis by (simp add: n_def n'_def asked_def)
qed

lemma memory_stage:
  assumes start: "serving 2 fid i ch p (cluster_trace acts cl k)" and fair: "fair_node acts cl p"
  shows "\<exists>j\<ge>k. \<not> node_up p (cluster_trace acts cl (Suc j)) \<or> response_taken acts cl p i ch j
    \<or> serving 1 fid i ch p (cluster_trace acts cl j)"
proof -
  let ?tr = "cluster_trace acts cl"
  let ?place = "\<lambda>j. place (InAssignedRequest fid) (queue (data_input (bh (nodes (?tr j) p))))"
  have step: "serving 1 fid i ch p (?tr (Suc j))
      \<or> ?place (Suc j) < ?place j \<or> ?place (Suc j) = ?place j \<and> \<not> (\<exists>env. acts j = MemTakes p env)"
    if j: "serving 2 fid i ch p (?tr j)" "\<not> serving 1 fid i ch p (?tr j)" "node_up p (?tr (Suc j))"
      "serving 2 fid i ch p (?tr (Suc j))" for j
  proof -
    obtain dm where "asked fid (bh (nodes (?tr j) p))" "mem (nodes (?tr j) p) = Inr dm"
      using j(1,2) by (auto simp: serving_def in_service_def holds_shard_def)
    from memory_stage_step [OF this(1) _ _ this(2), of "acts j"] j(3,4) show ?thesis
      by (auto simp: node_up_def serving_def in_service_def)
  qed
  have "\<exists>j\<ge>k. (\<not> node_up p (?tr (Suc j)) \<or> response_taken acts cl p i ch j)
      \<or> serving 1 fid i ch p (?tr j) \<or> serving 1 fid i ch p (?tr (Suc j))"
    by (rule measured_progress [of k "\<lambda>j. serving 2 fid i ch p (?tr j)" _ ?place "\<lambda>j. \<exists>env. acts j = MemTakes p env"])
      (use step serving_step [of 2 fid i ch p acts cl] start fair in \<open>auto simp: fair_node_def\<close>)
  then show ?thesis by (meson le_SucI)
qed

text \<open>A request that has arrived at a node with an initialized memory is answered, unless the node stops.\<close>

lemma holder_answers:
  assumes start: "serving 3 fid i ch p (cluster_trace acts cl k)" and fair: "fair_node acts cl p"
  shows "\<exists>j\<ge>k. \<not> node_up p (cluster_trace acts cl (Suc j)) \<or> response_taken acts cl p i ch j"
proof -
  let ?tr = "cluster_trace acts cl"
  let ?done = "\<lambda>j. \<not> node_up p (?tr (Suc j)) \<or> response_taken acts cl p i ch j"
  have arrived: "\<exists>j\<ge>k. ?done j \<or> serving 2 fid i ch p (?tr (Suc j))"
    using full_poll_stage [OF start fair, of 2] full_poll_serves(1) by blast
  have asked: "\<exists>j\<ge>k. ?done j \<or> serving 1 fid i ch p (?tr j)" if "serving 2 fid i ch p (?tr k)" for k
    using memory_stage [OF that fair] by blast
  have answered: "\<exists>j\<ge>k. ?done j \<or> serving 0 fid i ch p (?tr (Suc j))" if "serving 1 fid i ch p (?tr k)" for k
    using full_poll_stage [OF that fair, of 0] full_poll_serves(2) by blast
  have responded: "\<exists>j\<ge>k. ?done j" if last: "serving 0 fid i ch p (?tr k)" for k
  proof -
    obtain s where "Respond i ch (GetShardResponse (Some s)) \<in> set (queue (rr_input (bh (nodes (?tr k) p))))"
      using last by (auto simp: serving_def in_service_def responded_def)
    then obtain j where "k \<le> j" "\<not> main_up (nodes (?tr (Suc j)) p) \<or> response_taken acts cl p i ch j"
      using action_taken [of _ acts cl k p] fair by (fastforce simp: fair_node_def response_taken_def)
    then show ?thesis by (intro exI [of _ j]) (auto simp: node_up_def)
  qed
  have "\<exists>j\<ge>k. ?done j" if "serving 1 fid i ch p (?tr k)" for k
    using answered [OF that] responded by (meson Suc_leD le_trans)
  then have "\<exists>j\<ge>k. ?done j" if "serving 2 fid i ch p (?tr k)" for k
    using asked [OF that] by (meson le_trans)
  then show ?thesis using arrived by (meson Suc_leD le_trans)
qed

subsection \<open>At the node that asks\<close>

lemma return_step:
  fixes cl :: "'ev cluster" and p :: PeerId and a :: "'ev action"
  defines "n \<equiv> nodes cl p" and "n' \<equiv> nodes (cluster_step a cl) p"
  assumes ret: "in_return home fid k x (bh n)" and up: "main_up n'" and k: "k < length (requests (net cl))"
    and new: "home \<Longrightarrow> \<not> given fid x (bh n)"
  shows "in_return home fid k x (bh n')"
proof (cases rule: cluster_step_node [of cl p a])
  case same
  with ret new show ?thesis by (auto simp: n_def n'_def same_way_def return_defs split: if_splits)
next
  case (poll env)
  obtain r b where b: "bh_poll env (bh n) = (r, b)" "r \<noteq> PollPanic" "\<And>e. r \<noteq> GenerateError e" "n' = n\<lparr>bh := b\<rparr>"
    using up poll(2) bh_takes_up [of env n] unfolding n_def n'_def by metis
  with return_poll [OF ret b(1-3)] show ?thesis by simp
next
  case (memory env)
  with ret new show ?thesis by (auto simp: n_def n'_def mem_takes_same return_defs split: if_splits)
next
  case (event e)
  then have "note_number k e noted = noted" for noted by (cases e) auto
  with event ret new show ?thesis by (auto simp: n_def n'_def heard_def return_defs comes_back_append split: if_splits)
next
  case action
  show ?thesis
  proof (cases "queue (rr_input (bh n))")
    case Nil
    then show ?thesis using action(2) ret by (simp add: n_def n'_def action_takes_def)
  next
    case (Cons y as)
    then have "main_up n" using up action(2) action_takes_up [of p n "net cl"] by (simp add: n_def n'_def)
    then show ?thesis using action ret new Cons k unfolding n_def n'_def
      by (cases y) (auto simp: action_takes_request action_takes_respond heard_def spoken_def return_defs
          comes_back_append split: if_splits)
  qed
qed

text \<open>The network forgets nothing.\<close>

lemma action_takes_net:
  "\<exists>rs xs. requests (snd (action_takes p (n, nw))) = requests nw @ rs \<and> responses (snd (action_takes p (n, nw))) = responses nw @ xs"
proof (cases "main_up n \<and> queue (rr_input (bh n)) \<noteq> []")
  case True
  then obtain a as where "queue (rr_input (bh n)) = a # as" by (auto simp: neq_Nil_conv)
  with True show ?thesis by (cases a) (simp_all add: action_takes_request action_takes_respond)
qed (auto simp: action_takes_def split: list.split)

lemma main_takes_message_net: "snd (main_takes p (BehaviourEvent (RequestResponseEvent (RrMessageEvent peer m))) (n, nw)) = nw"
  by (cases "main_up n"; cases m) (simp_all add: main_takes_event down_takes_nothing)

lemma cluster_step_net:
  "\<exists>rs xs. requests (net (cluster_step a cl)) = requests (net cl) @ rs \<and> responses (net (cluster_step a cl)) = responses (net cl) @ xs"
proof (cases a)
  case (MainTakes p)
  then show ?thesis using action_takes_net [of p "nodes cl p" "net cl"] by (auto simp: with_net_def split: prod.splits)
qed (auto simp: at_node_def at_behaviour_def with_net_def split: prod.splits
    dest!: arg_cong [of _ _ snd] simp: main_takes_message_net)

lemma cluster_trace_net:
  assumes "j \<le> j'"
  shows "\<exists>rs xs. requests (net (cluster_trace acts cl j')) = requests (net (cluster_trace acts cl j)) @ rs
    \<and> responses (net (cluster_trace acts cl j')) = responses (net (cluster_trace acts cl j)) @ xs"
  using assms
proof (induction j' rule: dec_induct)
  case (step j')
  then show ?case using cluster_step_net [of "acts j'" "cluster_trace acts cl j'"] by auto
qed simp

lemma requests_stay:
  assumes "j \<le> j'" and "k < length (requests (net (cluster_trace acts cl j)))"
  shows "k < length (requests (net (cluster_trace acts cl j')))
    \<and> requests (net (cluster_trace acts cl j')) ! k = requests (net (cluster_trace acts cl j)) ! k"
  using cluster_trace_net [OF assms(1), of acts cl] assms(2) by (auto simp: nth_append)

lemma responses_stay:
  assumes "j \<le> j'" and "k < length (responses (net (cluster_trace acts cl j)))"
  shows "k < length (responses (net (cluster_trace acts cl j')))
    \<and> responses (net (cluster_trace acts cl j')) ! k = responses (net (cluster_trace acts cl j)) ! k"
  using cluster_trace_net [OF assms(1), of acts cl] assms(2) by (auto simp: nth_append)

lemma knows_stays:
  assumes "knows fid k (bh (nodes (cluster_trace acts cl j) p))" and "k < length (requests (net (cluster_trace acts cl j)))"
    and "\<And>j. main_up (nodes (cluster_trace acts cl j) p)" and "j \<le> j'"
  shows "knows fid k (bh (nodes (cluster_trace acts cl j') p))"
  using assms(4)
proof (induction j' rule: dec_induct)
  case (step j')
  have "k < length (requests (net (cluster_trace acts cl j')))" using requests_stay [OF step.hyps(1) assms(2)] by blast
  moreover have "in_return False fid k None (bh (nodes (cluster_trace acts cl j') p))" using step.IH by (simp add: in_return_def)
  ultimately show ?case
    using return_step [of False fid k None "cluster_trace acts cl j'" p "acts j'"] assms(3) [of "Suc j'"] by (simp add: in_return_def)
qed (rule assms(1))

text \<open>A full poll reads the response.\<close>

lemma response_read:
  fixes cl :: "'ev cluster"
  assumes start: "in_return True fid k x (bh (nodes (cluster_trace acts cl i) p))" and k: "k < length (requests (net (cluster_trace acts cl i)))"
    and up: "\<And>j. main_up (nodes (cluster_trace acts cl j) p)" and polls: "often (full_poll acts cl p)"
  shows "\<exists>j\<ge>i. given fid x (bh (nodes (cluster_trace acts cl j) p))"
proof -
  let ?n = "\<lambda>j. nodes (cluster_trace acts cl j) p"
  have "\<exists>j\<ge>i. given fid x (bh (?n j)) \<or> given fid x (bh (?n (Suc j)))"
  proof (rule measured_progress [of i "\<lambda>j. in_return True fid k x (bh (?n j))" _ "\<lambda>_. 0" "full_poll acts cl p"])
    fix j assume j: "i \<le> j" "in_return True fid k x (bh (?n j))"
    have "k < length (requests (net (cluster_trace acts cl j)))" using requests_stay [OF j(1) k] by blast
    then have "in_return True fid k x (bh (?n (Suc j)))" if "\<not> given fid x (bh (?n j))"
      using return_step [of True fid k x "cluster_trace acts cl j" p "acts j"] j(2) up [of "Suc j"] that by simp
    moreover have "given fid x (bh (?n (Suc j)))" if poll: "full_poll acts cl p j"
    proof -
      obtain env b where env: "acts j = BhPoll p env" "bh_poll env (bh (?n j)) = (PollPending, b)"
        using poll up [of j] by (auto simp: full_poll_def fst_eq_Domain prod_eq_iff intro: that)
      then have "?n (Suc j) = (?n j)\<lparr>bh := b\<rparr>" using up [of j] by (simp add: at_node_def bh_takes_def)
      with full_poll_gives [OF env(2) j(2)] show ?thesis by simp
    qed
    ultimately show "(given fid x (bh (?n j)) \<or> given fid x (bh (?n (Suc j)))) \<or> in_return True fid k x (bh (?n (Suc j)))
      \<and> ((0::nat) < 0 \<or> (0::nat) = 0 \<and> \<not> full_poll acts cl p j)" by blast
  qed (use start polls in simp_all)
  then show ?thesis by (meson le_SucI)
qed

end
