(* ===== verification/Swarm_Delivery.thy ===== *)
theory Swarm_Delivery
  imports Swarm_Answers
begin

text \<open>
  The whole way of a request for a shard: from the behaviour of the node that asks to the holder of the shard, and back
  to the data memory of the node that asks.
\<close>

subsection \<open>On the network\<close>

lemma request_sent:
  assumes "main_up (nodes cl p)" and "queue (rr_input (bh (nodes cl p))) = MakeRequest (GetShard fid) q # as"
  shows "requests (net (cluster_step (MainTakes p) cl)) = requests (net cl) @ [(p, q, GetShard fid)]"
    and "knows fid (length (requests (net cl))) (bh (nodes (cluster_step (MainTakes p) cl) p))"
  using assms by (simp_all add: with_net_def action_takes_request heard_def spoken_def knows_def)

lemma message_delivered:
  assumes "delivering acts cl"
  shows "length (requests (net (cluster_trace acts cl j))) < length (requests (net (cluster_trace acts cl (Suc j))))
      \<Longrightarrow> \<exists>j'>j. acts j' = DeliverRequest (length (requests (net (cluster_trace acts cl j))))"
    and "length (responses (net (cluster_trace acts cl j))) < length (responses (net (cluster_trace acts cl (Suc j))))
      \<Longrightarrow> \<exists>j'>j. acts j' = DeliverResponse (length (responses (net (cluster_trace acts cl j))))"
  using assms unfolding delivering_def by blast+

lemma request_arrives:
  assumes "k < length (requests (net cl))" and "requests (net cl) ! k = (p, q, GetShard fid)" and "main_up (nodes cl q)"
  shows "arrived fid k k (bh (nodes (cluster_step (DeliverRequest k) cl) q))"
  using assms by (simp add: with_net_def main_takes_event heard_def arrived_def)

lemma response_sent:
  assumes "main_up (nodes cl q)" and "queue (rr_input (bh (nodes cl q))) = Respond i ch response # as"
  shows "responses (net (cluster_step (MainTakes q) cl)) = responses (net cl) @ [(ch, response)]"
  using assms by (simp add: with_net_def action_takes_respond)

lemma response_arrives:
  assumes "j < length (responses (net cl))" and "responses (net cl) ! j = (k, GetShardResponse x)"
    and "k < length (requests (net cl))" and "requests (net cl) ! k = (p, q, r)" and "main_up (nodes cl p)"
    and "knows fid k (bh (nodes cl p))"
  shows "in_return True fid k x (bh (nodes (cluster_step (DeliverResponse j) cl) p))"
  using assms by (simp add: with_net_def main_takes_event heard_def in_return_def comes_back_append knows_def)

text \<open>The holder keeps the shard until the request comes.\<close>

lemma holder_ready:
  assumes "serving 4 fid i ch q (cluster_trace acts cl j)" and "\<And>j. node_up q (cluster_trace acts cl j)" and "j \<le> j'"
  shows "serving 4 fid i ch q (cluster_trace acts cl j')"
  using assms(3)
proof (induction j' rule: dec_induct)
  case (step j')
  then show ?case using serving_step [OF step.IH] assms(2) by blast
qed (rule assms(1))

lemma serving_arrived: "serving 4 fid i ch q cl \<Longrightarrow> arrived fid i ch (bh (nodes cl q)) \<Longrightarrow> serving 3 fid i ch q cl"
  by (simp add: serving_def in_service_def)

text \<open>A request that the event loop of \<open>p\<close> has made comes back with a shard.\<close>

lemma request_comes_back:
  fixes cl :: "'ev cluster" and acts :: "nat \<Rightarrow> 'ev action"
  defines "tr \<equiv> cluster_trace acts cl"
  assumes request: "k < length (requests (net (tr i)))" "requests (net (tr i)) ! k = (p, q, GetShard fid)"
    and arrives: "acts i = DeliverRequest k" and knows: "knows fid k (bh (nodes (tr i) p))"
    and holder: "serving 4 fid k k q (tr i)"
    and up: "\<And>j. main_up (nodes (tr j) p)" "\<And>j. node_up q (tr j)"
    and fair: "fair_node acts cl q" "delivering acts cl"
  shows "\<exists>j>i. \<exists>s. in_return True fid k (Some s) (bh (nodes (tr j) p))"
proof -
  have "serving 4 fid k k q (tr (Suc i))"
    using holder_ready [of fid k k q acts cl i "Suc i"] holder up(2) by (simp add: tr_def)
  moreover have "arrived fid k k (bh (nodes (tr (Suc i)) q))"
    using request_arrives [OF request] up(2) [of i] arrives by (simp add: tr_def node_up_def)
  ultimately have "serving 3 fid k k q (tr (Suc i))" by (rule serving_arrived)
  then obtain j where j: "Suc i \<le> j" "response_taken acts cl q k k j"
    using holder_answers [of fid k k q acts cl "Suc i"] fair(1) up(2) by (auto simp: tr_def simp del: cluster_trace.simps)
  then obtain s as where turn: "acts j = MainTakes q" "main_up (nodes (tr j) q)"
    "queue (rr_input (bh (nodes (tr j) q))) = Respond k k (GetShardResponse (Some s)) # as"
    by (auto simp: response_taken_def tr_def)
  let ?r = "length (responses (net (tr j)))"
  have sent: "responses (net (tr (Suc j))) = responses (net (tr j)) @ [(k, GetShardResponse (Some s))]"
    using response_sent [OF turn(2,3)] turn(1) by (simp add: tr_def)
  then obtain j' where j': "j < j'" "acts j' = DeliverResponse ?r"
    using message_delivered(2) [OF fair(2), of j] by (auto simp: tr_def simp del: cluster_trace.simps)
  have "?r < length (responses (net (tr j'))) \<and> responses (net (tr j')) ! ?r = (k, GetShardResponse (Some s))"
    using responses_stay [of "Suc j" j' ?r acts cl] j'(1) sent by (simp add: tr_def)
  moreover have "k < length (requests (net (tr j'))) \<and> requests (net (tr j')) ! k = (p, q, GetShard fid)"
    using requests_stay [of i j' k acts cl] request j(1) j'(1) by (simp add: tr_def)
  moreover have "knows fid k (bh (nodes (tr j') p))"
    using knows_stays [of fid k acts cl i p j'] knows request(1) up(1) j(1) j'(1) by (simp add: tr_def)
  ultimately have "in_return True fid k (Some s) (bh (nodes (tr (Suc j')) p))"
    using response_arrives [of ?r "tr j'" k "Some s" p q "GetShard fid" fid] up(1) [of j'] j'(2) by (simp add: tr_def)
  then show ?thesis using j(1) j'(1) by (intro exI [of _ "Suc j'"]) auto
qed

lemma request_given:
  fixes cl :: "'ev cluster" and acts :: "nat \<Rightarrow> 'ev action"
  defines "tr \<equiv> cluster_trace acts cl"
  assumes asks: "MakeRequest (GetShard fid) q \<in> set (queue (rr_input (bh (nodes (tr i0) p))))"
    and holder: "holds_shard fid (nodes cl q)" "OutAssignedResponse fid None \<notin> set (queue (data_output (bh (nodes cl q))))"
    and up: "\<And>j. main_up (nodes (tr j) p)" "\<And>j. node_up q (tr j)"
    and fair: "fair_node acts cl p" "fair_node acts cl q" "delivering acts cl"
  shows "\<exists>j\<ge>i0. \<exists>s. given fid (Some s) (bh (nodes (tr j) p))"
proof -
  obtain i as where i: "i0 \<le> i" "acts i = MainTakes p" "queue (rr_input (bh (nodes (tr i) p))) = MakeRequest (GetShard fid) q # as"
    using action_taken [of "MakeRequest (GetShard fid) q" acts cl i0 p] asks fair(1) up(1)
    by (auto simp: tr_def fair_node_def simp del: cluster_trace.simps(2))
  let ?k = "length (requests (net (tr i)))"
  note sent = request_sent [OF up(1) i(3), folded i(2)]
  have net: "requests (net (tr (Suc i))) = requests (net (tr i)) @ [(p, q, GetShard fid)]" using sent(1) by (simp add: tr_def)
  then obtain j where j: "i < j" "acts j = DeliverRequest ?k"
    using message_delivered(1) [OF fair(3), of i] by (auto simp: tr_def simp del: cluster_trace.simps)
  have request: "?k < length (requests (net (tr j))) \<and> requests (net (tr j)) ! ?k = (p, q, GetShard fid)"
    using requests_stay [of "Suc i" j ?k acts cl] net j(1) by (simp add: tr_def)
  have "knows fid ?k (bh (nodes (tr j) p))"
    using knows_stays [of fid ?k acts cl "Suc i" p j] sent(2) net j(1) up(1) by (simp add: tr_def)
  moreover have "\<exists>y. x = Some y" if "OutAssignedResponse fid x \<in> set (queue (data_output (bh (nodes cl q))))" for x
    using holder(2) that by (cases x) auto
  then have "serving 4 fid ?k ?k q (tr j)"
    using holder_ready [of fid ?k ?k q acts cl 0 j] holder(1) up(2) by (auto simp: tr_def serving_def in_service_def good_answers_def)
  ultimately obtain j' s where j': "j < j'" "in_return True fid ?k (Some s) (bh (nodes (tr j') p))"
    using request_comes_back [of ?k acts cl j p q fid] request j(2) up fair(2,3) by (auto simp: tr_def)
  then obtain j2 where "j' \<le> j2" "given fid (Some s) (bh (nodes (tr j2) p))"
    using response_read [of fid ?k "Some s" acts cl j' p] requests_stay [of j j' ?k acts cl] request up(1) fair(1)
    by (auto simp: tr_def fair_node_def)
  with i(1) j(1) j'(1) show ?thesis by (intro exI [of _ j2]) auto
qed

lemma cluster_trace_reachable:
  assumes "cluster_reachable ft w content cl" and "\<And>j. allowed ft w content (acts j)"
  shows "cluster_reachable ft w content (cluster_trace acts cl j)"
  by (induction j) (auto intro: assms cluster_reachable.step)

lemma given_faithful:
  assumes "\<And>v d. content v = Some d \<Longrightarrow> wf_data ft d" and "cluster_reachable ft w content cl" and "given fid (Some s) (bh (nodes cl p))"
  shows "faithful_shard ft w content fid s"
proof -
  have "node_ok ft w content (request_of (net cl)) (nodes cl p)"
    using cluster_reachable_ok [OF assms(2,1)] by (simp add: cluster_ok_def)
  then show ?thesis using assms(3) by (auto simp: node_ok_def traffic_ok_def list_all_iff given_def)
qed

subsection \<open>An example run\<close>

text \<open>What is seen along a finite run, computed in one pass.\<close>

fun observed :: "('ev cluster \<Rightarrow> 'a) \<Rightarrow> 'ev action list \<Rightarrow> 'ev cluster \<Rightarrow> 'a list" where
  "observed f [] cl = [f cl]"
| "observed f (a # as) cl = f cl # observed f as (cluster_step a cl)"

lemma observed_nth: "j \<le> length as \<Longrightarrow> observed f as cl ! j = f (cluster_run (take j as) cl)"
  by (induction as arbitrary: j cl) (auto simp: cluster_run_def nth_Cons split: nat.splits)

lemma trace_prefix:
  assumes "\<And>i. i < length as \<Longrightarrow> acts i = as ! i" and "j \<le> length as"
  shows "cluster_trace acts cl j = cluster_run (take j as) cl"
  using assms(2) by (induction j) (simp_all add: cluster_run_def take_Suc_conv_app_nth assms(1))

text \<open>Node 1 is about to ask node 2 for its shard of the data unit. On the way there and back every station is passed; from
  then on the tasks of both nodes take turns.\<close>

definition asking :: "unit cluster" where
  "asking = cluster_run (take 50 example_actions) (cluster_start parity_wrapper)"

definition both_turns :: "unit action list" where
  "both_turns = concat (map (\<lambda>p. [MainTakes p, MemTakes p memory_env, BhPoll p quiet_env]) [1, 2])"

definition on_way :: "unit action list" where
  "on_way = [MainTakes 1, DeliverRequest 1, BhPoll 2 quiet_env, MemTakes 2 memory_env, BhPoll 2 quiet_env,
     MainTakes 2, DeliverResponse 1, BhPoll 1 quiet_env] @ both_turns"

definition schedule :: "nat \<Rightarrow> unit action" where
  "schedule j = (if j < 14 then on_way ! j else both_turns ! (j mod 6))"

definition idle :: "'ev node \<Rightarrow> bool" where
  "idle n \<longleftrightarrow> main_up n \<and> queue (rr_input (bh n)) = [] \<and> queue (data_input (bh n)) = []
     \<and> bh_poll quiet_env (bh n) = (PollPending, bh n)"

definition sightings :: "unit cluster \<Rightarrow> nat \<times> nat \<times> bool" where
  "sightings cl = (length (requests (net cl)), length (responses (net cl)),
     main_up (nodes cl 1) \<and> main_up (nodes cl 2) \<and> mem_up (nodes cl 2))"

lemma way_seen: "observed sightings on_way asking = (1, 1, True) # replicate 5 (2, 1, True) @ replicate 9 (2, 2, True)"
  by code_simp

lemma node_1_idle: "idle (nodes (cluster_run on_way asking) 1)"
  by code_simp

lemma node_2_idle: "idle (nodes (cluster_run on_way asking) 2)"
  by code_simp

lemma asking_request: "MakeRequest (GetShard (Vid 7, Sid 1)) 2 \<in> set (queue (rr_input (bh (nodes asking 1))))"
  by code_simp

lemma asking_holder: "(case mem (nodes asking 2) of Inl _ \<Rightarrow> False | Inr dm \<Rightarrow> get_shard (Vid 7, Sid 1) dm \<noteq> None)
    \<and> queue (data_output (bh (nodes asking 2))) = []"
  by code_simp

lemma idle_turn:
  assumes "idle (nodes cl p)"
  shows "cluster_step (MainTakes p) cl = cl" and "cluster_step (MemTakes p env) cl = cl" and "cluster_step (BhPoll p quiet_env) cl = cl"
  using assms by (simp_all add: idle_def with_net_def at_node_def action_takes_def mem_takes_def bh_takes_def)

lemma schedule_lengths: "length both_turns = 6" "length on_way = 14"
  by (simp_all add: both_turns_def on_way_def)

lemma schedule_turn: "14 \<le> j \<Longrightarrow> schedule j \<in> set both_turns"
  using nth_mem [of "j mod 6" both_turns] by (simp add: schedule_def schedule_lengths)

lemma schedule_on_way: "schedule j \<in> set on_way"
proof (cases "j < 14")
  case True
  then show ?thesis using nth_mem [of j on_way] by (simp add: schedule_def schedule_lengths)
next
  case False
  then show ?thesis using schedule_turn [of j] by (simp add: on_way_def)
qed

lemma schedule_often: "r < 6 \<Longrightarrow> often (\<lambda>j. 14 \<le> j \<and> schedule j = both_turns ! r)"
proof (unfold often_def, rule allI)
  fix i :: nat
  assume "r < 6"
  then have "schedule (r + 6 * (i + 3)) = both_turns ! r"
    unfolding schedule_def mod_mult_self2 by simp
  then show "\<exists>j\<ge>i. 14 \<le> j \<and> schedule j = both_turns ! r" by (intro exI [of _ "r + 6 * (i + 3)"]) simp
qed

lemma schedule_prefix: "j \<le> 14 \<Longrightarrow> cluster_trace schedule asking j = cluster_run (take j on_way) asking"
  by (rule trace_prefix) (simp_all add: schedule_def on_way_def both_turns_def)

lemma schedule_rests: "14 \<le> j \<Longrightarrow> cluster_trace schedule asking j = cluster_run on_way asking"
proof (induction j rule: dec_induct)
  case base
  then show ?case using schedule_prefix [of 14] by (simp add: on_way_def both_turns_def)
next
  case (step j)
  have "schedule j \<in> set both_turns" by (rule schedule_turn [OF step.hyps(1)])
  then have "cluster_step (schedule j) (cluster_run on_way asking) = cluster_run on_way asking"
    using idle_turn [OF node_1_idle] idle_turn [OF node_2_idle] by (auto simp: both_turns_def)
  with step show ?case by simp
qed

lemma schedule_seen: "sightings (cluster_trace schedule asking j) = (if j = 0 then 1 else 2, if j \<le> 5 then 1 else 2, True)"
proof (cases "j \<le> 14")
  case True
  have "sightings (cluster_trace schedule asking j) = observed sightings on_way asking ! j"
    using observed_nth [of j on_way sightings asking] schedule_prefix [OF True] True by (simp add: schedule_lengths)
  with True show ?thesis unfolding way_seen by (auto simp: nth_Cons nth_append split: nat.splits)
next
  case False
  have "sightings (cluster_run on_way asking) = observed sightings on_way asking ! 14"
    using observed_nth [of 14 on_way sightings asking] by (simp add: on_way_def both_turns_def)
  with False show ?thesis using schedule_rests [of j] unfolding way_seen by (simp add: nth_append)
qed

lemma schedule_fair: "fair_node schedule asking 1" "fair_node schedule asking 2"
proof -
  have "full_poll schedule asking p j" if "14 \<le> j" "schedule j = BhPoll p quiet_env" "idle (nodes (cluster_run on_way asking) p)" for p j
    using that schedule_rests by (simp add: full_poll_def idle_def)
  then show "fair_node schedule asking 1" "fair_node schedule asking 2"
    using schedule_often [of 0] schedule_often [of 1] schedule_often [of 2] schedule_often [of 3] schedule_often [of 4]
      schedule_often [of 5] node_1_idle node_2_idle
    unfolding fair_node_def often_def both_turns_def by (simp_all, meson+)
qed

lemma schedule_delivers: "delivering schedule asking"
proof -
  have net: "length (requests (net (cluster_trace schedule asking j))) = (if j = 0 then 1 else 2)"
    "length (responses (net (cluster_trace schedule asking j))) = (if j \<le> 5 then 1 else 2)" for j
    using schedule_seen [of j] by (simp_all add: sightings_def)
  have "schedule 1 = DeliverRequest 1" "schedule 6 = DeliverResponse 1" by (simp_all add: schedule_def on_way_def)
  then show ?thesis
    unfolding delivering_def net by (auto split: if_splits intro: exI [of _ 1] exI [of _ 6])
qed

subsection \<open>Properties\<close>

text \<open>C6: a shard that a node asks another one for arrives. From any state that the nodes can reach where the behaviour of
  one node has a request for a shard for another node that stores that shard, when both nodes get their turns again
  and again, with polls that come to their end, and the network delivers what is sent at least once, after any time: the event loop of
  the first or a task of the other node stops, or the data memory of the first is given the shard, and it is the
  right one. \<open>OutAssignedResponse fid None\<close>: an earlier answer of the holder, from before it stored the
  shard, would go to this request as well.\<close>

theorem shard_request_answered:
  assumes "\<And>v d. content v = Some d \<Longrightarrow> wf_data ft d" and "cluster_reachable ft w content cl"
    and "\<And>j. allowed ft w content (acts j)"
    and "MakeRequest (GetShard fid) q \<in> set (queue (rr_input (bh (nodes cl p))))"
    and "holds_shard fid (nodes cl q)" and "OutAssignedResponse fid None \<notin> set (queue (data_output (bh (nodes cl q))))"
    and "fair_node acts cl p" and "fair_node acts cl q" and "delivering acts cl"
  shows "\<exists>j. \<not> main_up (nodes (cluster_trace acts cl j) p) \<or> \<not> node_up q (cluster_trace acts cl j)
    \<or> (\<exists>s. given fid (Some s) (bh (nodes (cluster_trace acts cl j) p)) \<and> faithful_shard ft w content fid s)"
proof (rule ccontr)
  assume never: "\<not> ?thesis"
  then obtain j s where "given fid (Some s) (bh (nodes (cluster_trace acts cl j) p))"
    using request_given [of fid q acts cl 0 p] assms(4-9) by auto
  moreover have "cluster_reachable ft w content (cluster_trace acts cl j)"
    by (rule cluster_trace_reachable) (fact assms)+
  ultimately show False using given_faithful [of content ft w] assms(1) never by blast
qed

theorem shard_request_answered_witness:
  "\<exists>j s. given (Vid 7, Sid 1) (Some s) (bh (nodes (cluster_trace schedule asking j) 1))
     \<and> shard_of Default_Array parity_wrapper (Sid 1) example_data = Some s"
proof -
  have "list_all (allowed Default_Array parity_wrapper example_content) (example_actions @ on_way)"
    using parity_crate quiet_env_ok by (simp add: memory_env_def on_way_def both_turns_def)
  then have ok: "list_all (allowed Default_Array parity_wrapper example_content) (take 50 example_actions)"
    "list_all (allowed Default_Array parity_wrapper example_content) on_way"
    by (auto simp: list_all_iff dest: in_set_takeD simp del: upt.simps)
  have "cluster_reachable Default_Array parity_wrapper example_content asking"
    unfolding asking_def by (rule cluster_run_reachable [OF cluster_reachable.start ok(1)])
  moreover have "allowed Default_Array parity_wrapper example_content (schedule j)" for j
    using ok(2) schedule_on_way [of j] by (simp add: list_all_iff)
  moreover have "holds_shard (Vid 7, Sid 1) (nodes asking 2)"
    "OutAssignedResponse (Vid 7, Sid 1) None \<notin> set (queue (data_output (bh (nodes asking 2))))"
    using asking_holder by (auto simp: holds_shard_def split: sum.splits)
  moreover have "wf_data Default_Array d" if "example_content v = Some d" for v d
    using that by (auto simp: wf_data_def data_len_eq split: if_splits)
  ultimately have "\<exists>j. \<not> main_up (nodes (cluster_trace schedule asking j) 1) \<or> \<not> node_up 2 (cluster_trace schedule asking j)
      \<or> (\<exists>s. given (Vid 7, Sid 1) (Some s) (bh (nodes (cluster_trace schedule asking j) 1))
          \<and> faithful_shard Default_Array parity_wrapper example_content (Vid 7, Sid 1) s)"
    using asking_request schedule_fair schedule_delivers by (intro shard_request_answered) simp_all
  moreover have "main_up (nodes (cluster_trace schedule asking j) 1) \<and> node_up 2 (cluster_trace schedule asking j)" for j
    using schedule_seen [of j] by (simp add: sightings_def node_up_def)
  ultimately show ?thesis by (auto simp: faithful_shard_def)
qed

end
