(* ===== verification/Swarm_Retrieval.thy ===== *)
theory Swarm_Retrieval
  imports Swarm_Delivery
begin

text \<open>
  Recollection succeeds: a data memory that is asked for a data unit gets enough of its shards from their holders, over
  the network, and the data reaches the user, along every fair run of the cluster in which the nodes concerned stay up.
\<close>

subsection \<open>Polls and the data memory\<close>

text \<open>The data memory is heard: a poll that comes to its end has read everything from it.\<close>

definition all_heard :: "'ev Behaviour \<Rightarrow> bool" where
  "all_heard b \<longleftrightarrow> queue (data_output b) = []"

interpretation all_heard_steps: poll_steps all_heard "\<lambda>_. all_heard"
    "\<lambda>_. True" "\<lambda>_. True" "\<lambda>_. True" "\<lambda>_. True" "\<lambda>_. True" "\<lambda>_. True"
  by unfold_locales (auto simp: all_heard_def)

interpretation all_heard: open_invariant all_heard "\<lambda>_. all_heard"
proof
  show "all_heard (b\<lparr>discovered_peers := ps\<rparr>)" if "all_heard b" for ps and b :: "'a Behaviour"
    using that by (simp add: all_heard_def)
  show "triple (taken data_output data_output_update all_heard d) (on_data_memory_event env d) all_heard (\<lambda>_. all_heard)"
    for env d by (auto simp: triple_def taken_def all_heard_def)
  show "triple (taken rr_output rr_output_update all_heard e) (on_rr_event e) all_heard (\<lambda>_. all_heard)" for e
    by (cases e) (auto simp: triple_def must_send_def poll_send_def and_then_def all_heard_def taken_def
        split: prod.splits Poll.splits bool.splits option.splits Request.splits ProtoResponse.splits)
qed (auto simp: all_heard_def)

lemma full_poll_hears_memory:
  assumes "bh_poll env b = (PollPending, b')"
  shows "queue (data_output b') = []"
proof -
  let ?rest = "and_then (user_section env) (and_then (processor_section env) (and_then (instruction_section env)
    (and_then (consensus_section env) (and_then (gossip_section env) rr_section))))"
  obtain b1 b2 where b: "data_memory_section env b1 = (None, b2)" "?rest b2 = (None, b')"
    using poll_pending_sections [OF assms] by (auto simp: poll_sections_def and_then_None)
  have "triple all_heard ?rest all_heard (\<lambda>_. all_heard)"
    by (intro triple_and_then [of all_heard _ all_heard] all_heard.polls.sections all_heard.polls.instruction_section
        all_heard.polls.gossip)
  moreover have "all_heard b2" using dm_loop.uses_up [of env b1 b2] b(1) by (simp add: data_memory_section_def all_heard_def)
  ultimately have "all_heard b'" using triple_goes_on b(2) by blast
  then show ?thesis by (simp add: all_heard_def)
qed

text \<open>An event of the data memory for the user or the network is in its channel until it is sent on.\<close>

definition sent_on :: "DmOutEvent \<Rightarrow> 'ev Behaviour \<Rightarrow> bool" where
  "sent_on d b \<longleftrightarrow> set (dm_to_user d) \<subseteq> set (queue (user_output b)) \<and> set (dm_to_network d) \<subseteq> set (queue (rr_input b))"

definition passed :: "DmOutEvent \<Rightarrow> 'ev Behaviour \<Rightarrow> bool" where
  "passed d b \<longleftrightarrow> d \<in> set (queue (data_output b)) \<or> sent_on d b"

interpretation passed_steps: poll_steps "passed d" "unless_stopped (passed d)"
    "\<lambda>_. True" "\<lambda>_. True" "\<lambda>_. True" "\<lambda>_. True" "\<lambda>_. True" "\<lambda>_. True" for d
  by unfold_locales (auto simp: passed_def sent_on_def unless_stopped_def)

lemma passed_answer: "triple (passed d) (answer_request request response) (passed d) (unless_stopped (passed d))"
  unfolding answer_request_def [abs_def] Let_def
  by (rule triple_shift [OF passed_steps.respond_all]) (simp_all add: passed_def sent_on_def list_all_iff)

lemma sends_on: "triple (\<lambda>_. True) (on_data_memory_event env d) (passed d) (unless_stopped (passed d))"
  by (cases d) (auto simp: passed_def on_data_memory_event_eq triple_def sent_on_def unless_stopped_def must_send_def poll_send_def
      split: prod.splits Poll.splits option.splits)

lemma passed_data_memory:
  "triple (taken data_output data_output_update (passed d) e) (on_data_memory_event env e) (passed d) (unless_stopped (passed d))"
proof (cases "e = d")
  case True
  show ?thesis unfolding True
    by (rule triple_weaken [OF sends_on]) simp
next
  case False
  show ?thesis
    by (rule triple_weaken, rule passed_steps.data_memory_event)
      (use False in \<open>auto simp: list_all_iff passed_answer taken_def passed_def sent_on_def\<close>)
qed

lemma passed_network:
  "triple (taken rr_output rr_output_update (passed d) e) (on_rr_event e) (passed d) (unless_stopped (passed d))"
  by (cases e) (auto simp: triple_def must_send_def poll_send_def and_then_def passed_def sent_on_def taken_def unless_stopped_def
      split: prod.splits Poll.splits bool.splits option.splits Request.splits ProtoResponse.splits)

interpretation passed: open_invariant "passed d" "unless_stopped (passed d)" for d
proof
  show "unless_stopped (passed d) (Dial p) (b\<lparr>discovered_peers := ps\<rparr>)"
    if "passed d b" for p ps and b :: "'a Behaviour"
    using that by (simp add: unless_stopped_def passed_def sent_on_def)
qed (auto simp: passed_def sent_on_def unless_stopped_def intro: passed_data_memory passed_network)

lemma passed_poll:
  assumes "passed d b" and "bh_poll env b = (r, b')" and "r \<noteq> PollPanic" and "\<And>e. r \<noteq> GenerateError e"
  shows "passed d b'"
  using passed.polls.poll [OF assms(1,2)] assms(3,4) by (auto simp: unless_stopped_def)

lemma full_poll_sends_on:
  assumes "bh_poll env b = (PollPending, b')" and "passed d b"
  shows "sent_on d b'"
  using passed_poll [OF assms(2,1)] full_poll_hears_memory [OF assms(1)] by (auto simp: passed_def)

subsection \<open>In the data memory\<close>

text \<open>A recollection is under way and has these shards, or it has been answered.\<close>

definition collected :: "Vid \<Rightarrow> Sid set \<Rightarrow> InitializedDataMemory \<Rightarrow> bool" where
  "collected v got dm \<longleftrightarrow> (\<exists>shards. fmlookup (currently_assembled dm) v = Some shards \<and> got \<subseteq> fmdom' shards)"

definition recollected :: "Vid \<Rightarrow> DmOutEvent set \<Rightarrow> bool" where
  "recollected v out \<longleftrightarrow> (\<exists>d. RecollectResponse (Inr (v, d)) \<in> out)"

lemma recollected_mono: "recollected v out \<Longrightarrow> out \<subseteq> out' \<Longrightarrow> recollected v out'"
  by (auto simp: recollected_def)

lemma handle_assigned_response_adds:
  "handle_assigned_response env fid x (dm, c) = (h, dm', c') \<Longrightarrow> set (sent c) \<subseteq> set (sent c')"
  by (cases x; cases fid)
    (auto simp: Let_def dest: sink_send_sent split: prod.splits option.splits outcome.splits if_splits)

text \<open>The shards that a request finds at the peer itself.\<close>

definition own_shards :: "Vid \<Rightarrow> InitializedDataMemory \<Rightarrow> (Sid \<times> PeerId) list \<Rightarrow> Sid set" where
  "own_shards v dm xs = {i. (i, local_id dm) \<in> set xs \<and> get_shard (v, i) dm \<noteq> None}"

lemma own_shards_Cons:
  "own_shards v dm ((i, owner) # xs) = (if owner = local_id dm \<and> get_shard (v, i) dm \<noteq> None then {i} else {}) \<union> own_shards v dm xs"
  by (auto simp: own_shards_def)

lemma own_shards_cong:
  "local_storage dm' = local_storage dm \<Longrightarrow> dm_fixed dm' = dm_fixed dm \<Longrightarrow> own_shards v dm' xs = own_shards v dm xs"
  using dm_fixed_sel [of dm' dm] by (simp add: own_shards_def get_shard_def)

context content_memory
begin

text \<open>Enough true shards decode, so a response that brings in a shard answers the recollection or is added.\<close>

lemma assigned_collects:
  assumes dm: "encoding dm = w" "ok (dm, c)" and x: "x = None \<or> (\<exists>s. x = Some s \<and> faithful_shard (feature env) w content (u, i) s)"
    and step: "handle_assigned_response env (u, i) x (dm, c) = (h, dm', c')" and c: "closes_after c = None"
    and got: "collected v got dm"
  shows "recollected v (set (sent c')) \<or> collected v (if u = v \<and> x \<noteq> None then insert i got else got) dm'"
proof -
  obtain shards where R: "fmlookup (currently_assembled dm) v = Some shards" "got \<subseteq> fmdom' shards"
    using got by (auto simp: collected_def)
  show ?thesis
  proof (cases "\<exists>s. u = v \<and> x = Some s \<and> fmlookup shards i = None")
    case False
    with R step show ?thesis
      by (cases x) (auto simp: collected_def Let_def fmlookup_dom'_iff
          split: option.splits outcome.splits prod.splits if_splits)
  next
    case True
    then obtain s where s: "u = v" "x = Some s" "fmlookup shards i = None" by blast
    obtain d where d: "content v = Some d" "shard_of (feature env) w i d = Some s"
      using x s by (auto simp: faithful_shard_def split: option.splits)
    have "shard_of (feature env) w j d = Some t" if "fmlookup (fmupd i s shards) j = Some t" for j t
      using that dm d faithful_map_lookup [of "feature env" w content "currently_assembled dm" v shards j t] R(1)
      by (auto simp: dm_faithful_def faithful_shard_def split: if_splits)
    then have "2 \<le> hm_len (fmupd i s shards) \<Longrightarrow> rs_wrapper_decode (feature env) (shards_order env) w (fmupd i s shards) = Ok d"
      using faithful_part content_wf [OF d(1)] by blast
    with s R step c show ?thesis
      by (auto simp: sufficient_two [OF dm(1)] dm(1) sink_simps Let_def collected_def recollected_def split: if_splits)
  qed
qed

lemma request_shards_collects:
  "encoding dm = w \<Longrightarrow> ok (dm, c) \<Longrightarrow> closes_after c = None \<Longrightarrow> request_shards env u xs (dm, c) = (Dm_Continue, dm', c')
    \<Longrightarrow> recollected v (set (sent c)) \<or> collected v got dm
    \<Longrightarrow> set (sent c) \<subseteq> set (sent c')
      \<and> (recollected v (set (sent c')) \<or> collected v (got \<union> (if u = v then own_shards v dm xs else {})) dm')
      \<and> (\<forall>(i, q) \<in> set xs. q \<noteq> local_id dm \<longrightarrow> OutAssignedRequest (u, i) q \<in> set (sent c'))"
proof (induction xs arbitrary: dm c got)
  case Nil
  then show ?case by (simp add: own_shards_def)
next
  case (Cons x xs)
  obtain i owner where x: "x = (i, owner)" by force
  obtain ctl1 dm1 c1 where s1: "(if owner = local_id dm
            then handled (handle_assigned_response env (u, i) (get_shard (u, i) dm) (dm, c))
            else send_or_return (OutAssignedRequest (u, i) owner) (dm, c)) = (ctl1, dm1, c1)"
    by (metis prod_cases3)
  let ?got = "got \<union> (if u = v \<and> owner = local_id dm \<and> get_shard (v, i) dm \<noteq> None then {i} else {})"
  have rest: "ctl1 = Dm_Continue" "request_shards env u xs (dm1, c1) = (Dm_Continue, dm', c')"
    using Cons.prems(4) s1 by (auto simp: x split: dm_ctl.splits)
  have 1: "encoding dm1 = w \<and> ok (dm1, c1) \<and> closes_after c1 = None \<and> dm_fixed dm1 = dm_fixed dm \<and> local_storage dm1 = local_storage dm
    \<and> set (sent c) \<subseteq> set (sent c1) \<and> (recollected v (set (sent c1)) \<or> collected v ?got dm1)
    \<and> (owner \<noteq> local_id dm \<longrightarrow> OutAssignedRequest (u, i) owner \<in> set (sent c1))"
  proof (cases "owner = local_id dm")
    case True
    then obtain h where h: "handle_assigned_response env (u, i) (get_shard (u, i) dm) (dm, c) = (h, dm1, c1)"
      using s1 by (auto simp: handled_eq)
    note stored = held_shards_faithful(2) [OF Cons.prems(1,2), of "(u, i)"]
    have "ok (dm1, c1) \<and> encoding dm1 = w"
      using assigned_ok [OF Cons.prems(1,2) stored, of ctl1 "(dm1, c1)"] s1 True by (simp del: conf_faithful.simps)
    moreover have "recollected v (set (sent c1)) \<or> collected v ?got dm1"
      using Cons.prems(5) assigned_collects [OF Cons.prems(1,2) stored h Cons.prems(3), of v got]
        recollected_mono handle_assigned_response_adds [OF h] True by (auto split: if_splits)
    ultimately show ?thesis
      using handle_assigned_response_open [OF Cons.prems(3) h] handle_assigned_response_fixed [OF h]
        handle_assigned_response_storage [OF h] handle_assigned_response_adds [OF h] True
      by (simp del: conf_faithful.simps)
  next
    case False
    then have sr: "send_or_return (OutAssignedRequest (u, i) owner) (dm, c) = (ctl1, dm1, c1)" using s1 by simp
    then have "ok (dm1, c1)" using send_or_return_faithful [OF Cons.prems(2) _ sr] by simp
    then show ?thesis using Cons.prems sr False by (auto simp: sink_simps recollected_def)
  qed
  then have "local_id dm1 = local_id dm" "own_shards v dm1 xs = own_shards v dm xs"
    using dm_fixed_sel [of dm1 dm] own_shards_cong [of dm1 dm v xs] by auto
  with Cons.IH [OF _ _ _ rest(2), of ?got] 1 show ?case
    by (auto simp: x own_shards_Cons Un_assoc split: if_splits)
qed

lemma dm_event_collects:
  assumes dm: "encoding dm = w" "ok (dm, open_sink)" and e: "faithful_in (feature env) w content e"
    and step: "dm_event env e (dm, open_sink) = (Dm_Continue, dm', c)" and got: "collected v got dm"
  shows "recollected v (set (sent c)) \<or> collected v (got \<union> {i. \<exists>s. e = InAssignedResponse (v, i) (Some s)}) dm'"
proof (cases e)
  case (InAssignedResponse fid x)
  obtain u i h where h: "fid = (u, i)" "handle_assigned_response env (u, i) x (dm, open_sink) = (h, dm', c)"
    using step InAssignedResponse by (cases fid) (auto simp: handled_eq)
  have "x = None \<or> (\<exists>s. x = Some s \<and> faithful_shard (feature env) w content (u, i) s)"
    using e InAssignedResponse h(1) by (cases x) auto
  from assigned_collects [OF dm this h(2) _ got] show ?thesis
    by (cases x) (auto simp: InAssignedResponse h(1) split: if_splits)
next
  case (RecollectRequest u)
  let ?dm = "dm\<lparr>currently_assembled := fmupd u fmempty (currently_assembled dm)\<rparr>"
  have ok: "ok (?dm, open_sink)"
    using dm by (auto simp: dm_faithful_def faithful_map_def hm_get2_def sufficient_two split: if_splits)
  have start: "recollected v (set (sent c)) \<or> collected v got dm'"
    if "request_shards env u xs (?dm, open_sink) = (Dm_Continue, dm', c)" "u \<noteq> v" for xs
    using request_shards_collects [OF _ ok _ that(1), of v got] dm(1) got that(2) by (simp add: collected_def)
  from step RecollectRequest got start show ?thesis
    by (cases "u = v") (auto simp: collected_def sink_simps split: option.splits if_splits)
next
  case (StoreConfirmed fid p)
  with step got show ?thesis
    by (auto simp: Let_def dm_simps collected_def split: option.splits prod.splits if_splits)
next
  case (StorageRequestTx u a)
  with step got show ?thesis
    by (cases "serve_shard (u, the (assigned_shard_id dm)) dm")
      (auto simp: collected_def store_shard_def handled_eq Let_def sink_simps split: option.splits if_splits)
next
  case (InServeShardResponse fid x)
  with step got show ?thesis
    by (cases x) (auto simp: collected_def store_shard_def handled_eq Let_def sink_simps split: if_splits)
qed (use step got in \<open>auto simp: collected_def prepare_to_serve_shards_def sink_simps Let_def
    split: option.splits outcome.splits if_splits\<close>)

text \<open>The memory takes its own shards and asks for the others.\<close>

lemma recollect_collects:
  assumes dm: "encoding dm = w" "ok (dm, open_sink)" "fmlookup (currently_assembled dm) v = None"
    and locs: "fmlookup (data_known_locations dm) v = Some locs" "sufficient_shards_n dm \<le> hm_len locs"
    and step: "dm_event env (RecollectRequest v) (dm, open_sink) = (Dm_Continue, dm', c)"
  shows "recollected v (set (sent c)) \<or> collected v (own_shards v dm (locations_order env locs)) dm'"
    and "(i, q) \<in> set (locations_order env locs) \<Longrightarrow> q \<noteq> local_id dm \<Longrightarrow> OutAssignedRequest (v, i) q \<in> set (sent c)"
proof -
  let ?dm = "dm\<lparr>currently_assembled := fmupd v fmempty (currently_assembled dm)\<rparr>"
  have ok: "ok (?dm, open_sink)"
    using dm(1,2) by (auto simp: dm_faithful_def faithful_map_def hm_get2_def sufficient_two split: if_splits)
  have run: "request_shards env v (locations_order env locs) (?dm, open_sink) = (Dm_Continue, dm', c)"
    using step locs dm(3) by simp
  have "own_shards v ?dm xs = own_shards v dm xs" for xs by (simp add: own_shards_def get_shard_def)
  with request_shards_collects [OF _ ok _ run, of v "{}"] dm(1)
  show "recollected v (set (sent c)) \<or> collected v (own_shards v dm (locations_order env locs)) dm'"
    "(i, q) \<in> set (locations_order env locs) \<Longrightarrow> q \<noteq> local_id dm \<Longrightarrow> OutAssignedRequest (v, i) q \<in> set (sent c)"
    by (auto simp: collected_def)
qed

end

subsection \<open>Turns of the data memory\<close>

lemma mem_takes_input:
  assumes "mem_up (mem_takes env n)"
  shows "queue (data_input (bh (mem_takes env n))) = tl (queue (data_input (bh n)))"
  using assms by (auto simp: mem_takes_def push_data_output_def mem_gone_def Let_def
      split: list.split sum.split un_result.split dm_ctl.split prod.split if_splits)

lemma action_takes_data: "data_input (bh (fst (action_takes p (n, nw)))) = data_input (bh n)"
    "data_output (bh (fst (action_takes p (n, nw)))) = data_output (bh n)" "mem (fst (action_takes p (n, nw))) = mem n"
proof -
  have "data_input (bh (fst (action_takes p (n, nw)))) = data_input (bh n)
    \<and> data_output (bh (fst (action_takes p (n, nw)))) = data_output (bh n) \<and> mem (fst (action_takes p (n, nw))) = mem n"
  proof (cases "queue (rr_input (bh n)) = [] \<or> \<not> main_up n")
    case False
    then obtain x as where "queue (rr_input (bh n)) = x # as" "main_up n" by (auto simp: neq_Nil_conv)
    then show ?thesis by (cases x) (simp_all add: action_takes_request action_takes_respond heard_def spoken_def)
  qed (auto simp: action_takes_def split: list.split)
  then show "data_input (bh (fst (action_takes p (n, nw)))) = data_input (bh n)"
    "data_output (bh (fst (action_takes p (n, nw)))) = data_output (bh n)" "mem (fst (action_takes p (n, nw))) = mem n" by blast+
qed

lemma memory_waits:
  fixes cl :: "'ev cluster" and p :: PeerId and a :: "'ev action"
  defines "n \<equiv> nodes cl p" and "n' \<equiv> nodes (cluster_step a cl) p"
  assumes e: "e \<in> set (queue (data_input (bh n)))" and up: "main_up n'" "mem_up n'"
  shows "(\<exists>env. a = MemTakes p env) \<and> (\<exists>es. queue (data_input (bh n)) = e # es)
    \<or> e \<in> set (queue (data_input (bh n')))
      \<and> (place e (queue (data_input (bh n'))) < place e (queue (data_input (bh n)))
        \<or> place e (queue (data_input (bh n'))) = place e (queue (data_input (bh n))) \<and> \<not> (\<exists>env. a = MemTakes p env))"
proof (cases rule: cluster_step_node [of cl p a])
  case same
  with e show ?thesis by (auto simp: n_def n'_def same_way_def)
next
  case (poll env)
  obtain r b where b: "bh_poll env (bh n) = (r, b)" "n' = n\<lparr>bh := b\<rparr>"
    using up poll(2) bh_takes_up [of env n] unfolding n_def n'_def by metis
  obtain ds where "queue (data_input b) = queue (data_input (bh n)) @ ds" by (rule poll_grows [OF b(1)])
  with e b(2) poll(1) show ?thesis by (simp add: place_append)
next
  case (memory env)
  obtain x es where q: "queue (data_input (bh n)) = x # es" using e by (cases "queue (data_input (bh n))") auto
  have "queue (data_input (bh n')) = es"
    using mem_takes_input [of env n] up(2) memory(2) q unfolding n_def n'_def by simp
  with e q memory(1) show ?thesis by (cases "x = e") (auto simp: place_Cons)
next
  case (event x)
  with e show ?thesis by (auto simp: n_def n'_def heard_def)
next
  case action
  with e show ?thesis by (simp add: n_def n'_def action_takes_data)
qed

lemma memory_taken:
  fixes acts :: "nat \<Rightarrow> 'ev action" and cl :: "'ev cluster"
  defines "tr \<equiv> cluster_trace acts cl"
  assumes "e \<in> set (queue (data_input (bh (nodes (tr i) p))))" and turns: "often (\<lambda>j. \<exists>env. acts j = MemTakes p env)"
  shows "\<exists>j\<ge>i. \<not> node_up p (tr (Suc j))
    \<or> (\<exists>env. acts j = MemTakes p env) \<and> (\<exists>es. queue (data_input (bh (nodes (tr j) p))) = e # es)"
proof (rule measured_progress [OF _ turns])
  show "e \<in> set (queue (data_input (bh (nodes (tr i) p))))" by (rule assms(2))
  fix j assume "e \<in> set (queue (data_input (bh (nodes (tr j) p))))"
  then show "(\<not> node_up p (tr (Suc j))
      \<or> (\<exists>env. acts j = MemTakes p env) \<and> (\<exists>es. queue (data_input (bh (nodes (tr j) p))) = e # es))
    \<or> e \<in> set (queue (data_input (bh (nodes (tr (Suc j)) p))))
      \<and> (place e (queue (data_input (bh (nodes (tr (Suc j)) p)))) < place e (queue (data_input (bh (nodes (tr j) p))))
        \<or> place e (queue (data_input (bh (nodes (tr (Suc j)) p)))) = place e (queue (data_input (bh (nodes (tr j) p))))
          \<and> \<not> (\<exists>env. acts j = MemTakes p env))"
    using memory_waits [of e "tr j" p "acts j"] by (auto simp: tr_def node_up_def)
qed

subsection \<open>What the data memory says\<close>

lemma passed_step:
  fixes cl :: "'ev cluster" and p :: PeerId and a :: "'ev action"
  defines "n \<equiv> nodes cl p" and "n' \<equiv> nodes (cluster_step a cl) p"
  assumes d: "d \<in> set (queue (data_output (bh n)))" and up: "main_up n'"
  shows "passed d (bh n')"
proof (cases rule: cluster_step_node [of cl p a])
  case (poll env)
  obtain r b where b: "bh_poll env (bh n) = (r, b)" "r \<noteq> PollPanic" "\<And>e. r \<noteq> GenerateError e" "n' = n\<lparr>bh := b\<rparr>"
    using up poll(2) bh_takes_up [of env n] unfolding n_def n'_def by metis
  with passed_poll [OF _ b(1-3), of d] d show ?thesis by (simp add: passed_def)
next
  case (memory env)
  have "set (queue (data_output (bh n))) \<subseteq> set (queue (data_output (bh (mem_takes env n))))"
    by (auto simp: mem_takes_def push_data_output_def mem_gone_def Let_def
      split: list.split sum.split un_result.split dm_ctl.split prod.split)
  with memory d show ?thesis by (auto simp: n_def n'_def passed_def)
next
  case action
  with d show ?thesis by (simp add: n_def n'_def action_takes_data passed_def)
qed (use d in \<open>auto simp: n_def n'_def same_way_def heard_def passed_def\<close>)

lemma passed_on:
  fixes cl :: "'ev cluster" and acts :: "nat \<Rightarrow> 'ev action"
  defines "tr \<equiv> cluster_trace acts cl"
  assumes start: "d \<in> set (queue (data_output (bh (nodes (tr i) p))))"
    and up: "\<And>j. main_up (nodes (tr j) p)" and polls: "often (full_poll acts cl p)"
  shows "\<exists>j\<ge>i. sent_on d (bh (nodes (tr j) p))"
proof -
  have "\<exists>j\<ge>i. sent_on d (bh (nodes (tr (Suc j)) p))"
  proof (rule measured_progress [of i "\<lambda>j. d \<in> set (queue (data_output (bh (nodes (tr j) p))))" _ "\<lambda>_. 0" "full_poll acts cl p"])
    fix j assume d: "d \<in> set (queue (data_output (bh (nodes (tr j) p))))"
    have "passed d (bh (nodes (tr (Suc j)) p))" using passed_step [OF d, of "acts j"] up [of "Suc j"] by (simp add: tr_def)
    moreover have "sent_on d (bh (nodes (tr (Suc j)) p))" if poll: "full_poll acts cl p j"
    proof -
      obtain env b where env: "acts j = BhPoll p env" "bh_poll env (bh (nodes (tr j) p)) = (PollPending, b)"
        using poll up [of j] by (auto simp: full_poll_def tr_def prod_eq_iff intro: that)
      then have "nodes (tr (Suc j)) p = (nodes (tr j) p)\<lparr>bh := b\<rparr>" using up [of j] by (simp add: tr_def at_node_def bh_takes_def)
      with full_poll_sends_on [OF env(2), of d] d show ?thesis by (simp add: passed_def)
    qed
    ultimately show "sent_on d (bh (nodes (tr (Suc j)) p)) \<or> d \<in> set (queue (data_output (bh (nodes (tr (Suc j)) p))))
      \<and> ((0::nat) < 0 \<or> (0::nat) = 0 \<and> \<not> full_poll acts cl p j)" by (auto simp: passed_def)
  qed (use start polls in simp_all)
  then show ?thesis by (meson le_SucI)
qed

subsection \<open>The recollection\<close>

lemma collects_step:
  fixes cl :: "'ev cluster" and p :: PeerId and a :: "'ev action"
  defines "n \<equiv> nodes cl p" and "n' \<equiv> nodes (cluster_step a cl) p"
  assumes content: "\<And>v d. content v = Some d \<Longrightarrow> wf_data ft d" and ok: "cluster_ok ft w content cl" "allowed ft w content a"
    and dm: "mem n = Inr dm" "collected v got dm" and up: "mem_up n'"
  shows "recollected v (set (queue (data_output (bh n'))))
    \<or> (\<exists>dm'. mem n' = Inr dm' \<and> collected v (got \<union> {i. \<exists>env s es. a = MemTakes p env
        \<and> queue (data_input (bh n)) = InAssignedResponse (v, i) (Some s) # es}) dm')"
proof (cases rule: cluster_step_node [of cl p a])
  case (memory env)
  show ?thesis
  proof (cases "queue (data_input (bh n))")
    case Nil
    then show ?thesis using memory dm mem_takes_idle [of n env] by (simp add: n_def n'_def)
  next
    case (Cons e es)
    obtain dm' c where m: "n' = n\<lparr>bh := push_data_output (sent c) ((bh n)\<lparr>data_input := (data_input (bh n))\<lparr>queue := es\<rparr>\<rparr>), mem := Inr dm'\<rparr>"
      "dm_event env e (dm, open_sink) = (Dm_Continue, dm', c)"
      using mem_takes_up [OF _ dm(1) Cons, of env] up memory(2) unfolding n_def n'_def by metis
    have node: "node_ok ft w content (request_of (net cl)) n" using ok(1) by (simp add: cluster_ok_def n_def)
    have env: "feature env = ft" "rs_wrapper w (shards_order env)" using ok(2) memory(1) by simp_all
    then have mem: "content_memory w env content"
      using content by (simp add: content_memory_def content_memory_axioms_def)
    have "encoding dm = w" "conf_faithful (feature env) content (dm, open_sink)" "faithful_in (feature env) w content e"
      using node dm(1) Cons env(1) by (simp_all add: node_ok_def mem_ok_def traffic_ok_def)
    from content_memory.dm_event_collects [OF mem this m(2) dm(2)] show ?thesis
      using Cons memory(1) by (auto simp: m(1) push_data_output_def recollected_def)
  qed
next
  case (poll env)
  then have "mem n' = mem n" by (auto simp: n_def n'_def bh_takes_def Let_def split: bh_result.split prod.split)
  with poll(1) dm show ?thesis by simp
next
  case action
  with dm show ?thesis by (simp add: n_def n'_def action_takes_data)
qed (use dm in \<open>auto simp: n_def n'_def same_way_def heard_def\<close>)

text \<open>The memory of a node has the identity of the node.\<close>

definition own_memory :: "PeerId \<Rightarrow> 'ev node \<Rightarrow> bool" where
  "own_memory p n \<longleftrightarrow> (case mem n of Inl un \<Rightarrow> un_local_id un = p | Inr dm \<Rightarrow> local_id dm = p)"

lemma mem_takes_own:
  assumes "own_memory p n"
  shows "own_memory p (mem_takes env n)"
proof (cases "queue (data_input (bh n)) = [] \<or> \<not> mem_up n")
  case True
  with assms show ?thesis by (auto simp: mem_takes_def split: list.split)
next
  case False
  then obtain e es where q: "queue (data_input (bh n)) = e # es" "mem_up n" by (auto simp: neq_Nil_conv)
  show ?thesis
  proof (cases "mem n")
    case (Inl un)
    have "local_id dm = p" if "un_run_step (DmInput (Some e)) un open_sink = (UnInit dm, c)" for dm c
      using that assms Inl by (cases e) (auto simp: own_memory_def initialize_def Let_def split: if_splits prod.splits bool.splits)
    with assms Inl q show ?thesis by (auto simp: own_memory_def mem_takes_def Let_def split: un_result.split prod.split)
  next
    case (Inr dm)
    obtain ctl dm' c where r: "dm_event env e (dm, open_sink) = (ctl, dm', c)" by (metis prod_cases3)
    with assms Inr q dm_fixed_sel [OF dm_event_fixed [OF r]] show ?thesis
      by (cases ctl) (simp_all add: own_memory_def mem_takes_def)
  qed
qed

lemma cluster_reachable_own: "cluster_reachable ft w content cl \<Longrightarrow> own_memory p (nodes cl p)"
proof (induction rule: cluster_reachable.induct)
  case start
  then show ?case by (simp add: own_memory_def cluster_start_def node_start_def)
next
  case (step cl a)
  show ?case
  proof (cases rule: cluster_step_node [of cl p a])
    case (memory env)
    with step.IH show ?thesis by (simp add: mem_takes_own)
  next
    case (poll env)
    then show ?thesis using step.IH by (auto simp: own_memory_def bh_takes_def Let_def split: bh_result.split prod.split)
  next
    case action
    with step.IH show ?thesis by (simp add: own_memory_def action_takes_data)
  qed (use step.IH in \<open>auto simp: own_memory_def same_way_def heard_def\<close>)
qed

text \<open>What the memory of \<open>p\<close> has of the data unit, as long as the recollection is not answered.\<close>

definition gathered :: "Vid \<Rightarrow> Sid set \<Rightarrow> PeerId \<Rightarrow> 'ev cluster \<Rightarrow> bool" where
  "gathered v got p cl \<longleftrightarrow> (\<exists>dm. mem (nodes cl p) = Inr dm \<and> collected v got dm)"

lemma gathered_Un: "gathered v (got \<union> got') p cl \<longleftrightarrow> gathered v got p cl \<and> gathered v got' p cl"
  by (auto simp: gathered_def collected_def)

text \<open>A run in which a recollection of \<open>v\<close> at \<open>p\<close> is never answered.\<close>

definition unanswered_run ::
  "array_feature \<Rightarrow> ReedSolomonWrapper \<Rightarrow> (Vid \<Rightarrow> Data option) \<Rightarrow> (nat \<Rightarrow> 'ev action) \<Rightarrow> 'ev cluster \<Rightarrow> PeerId \<Rightarrow> Vid \<Rightarrow> bool" where
  "unanswered_run ft w content acts cl p v \<longleftrightarrow>
     (\<forall>u d. content u = Some d \<longrightarrow> wf_data ft d) \<and> cluster_reachable ft w content cl \<and> (\<forall>j. allowed ft w content (acts j))
     \<and> fair_node acts cl p \<and> (\<forall>j. node_up p (cluster_trace acts cl j))
     \<and> (\<forall>j. \<not> recollected v (set (queue (data_output (bh (nodes (cluster_trace acts cl j) p))))))"

lemma unanswered_run_ok: "unanswered_run ft w content acts cl p v \<Longrightarrow> cluster_ok ft w content (cluster_trace acts cl j)"
  using cluster_reachable_ok [OF cluster_trace_reachable] unfolding unanswered_run_def by blast

lemma gathered_step:
  assumes run: "unanswered_run ft w content acts cl p v" and "gathered v got p (cluster_trace acts cl j)"
  shows "gathered v (got \<union> {i. \<exists>env s es. acts j = MemTakes p env
      \<and> queue (data_input (bh (nodes (cluster_trace acts cl j) p))) = InAssignedResponse (v, i) (Some s) # es}) p (cluster_trace acts cl (Suc j))"
proof -
  obtain dm where "mem (nodes (cluster_trace acts cl j) p) = Inr dm" "collected v got dm" using assms(2) by (auto simp: gathered_def)
  moreover have "\<And>v d. content v = Some d \<Longrightarrow> wf_data ft d" "allowed ft w content (acts j)"
    "node_up p (cluster_trace acts cl (Suc j))" "\<not> recollected v (set (queue (data_output (bh (nodes (cluster_trace acts cl (Suc j)) p)))))"
    using run unfolding unanswered_run_def by blast+
  ultimately show ?thesis
    using collects_step [of content ft w "cluster_trace acts cl j" "acts j" p dm v got] unanswered_run_ok [OF run, of j]
    by (auto simp: gathered_def node_up_def)
qed

lemma gathered_stays:
  assumes run: "unanswered_run ft w content acts cl p v" and "gathered v got p (cluster_trace acts cl i)" and "i \<le> j"
  shows "gathered v got p (cluster_trace acts cl j)"
  using assms(3)
proof (induction j rule: dec_induct)
  case (step j)
  then show ?case using gathered_step [OF run, of got j] by (simp add: gathered_Un del: cluster_trace.simps)
qed (rule assms(2))

lemma given_gathered:
  assumes run: "unanswered_run ft w content acts cl p v"
    and "given (v, i) (Some s) (bh (nodes (cluster_trace acts cl j) p))" and "gathered v {} p (cluster_trace acts cl j)"
  shows "\<exists>j. gathered v {i} p (cluster_trace acts cl j)"
proof -
  obtain j' where j': "j \<le> j'" "\<exists>env. acts j' = MemTakes p env"
      "\<exists>es. queue (data_input (bh (nodes (cluster_trace acts cl j') p))) = InAssignedResponse (v, i) (Some s) # es"
    using memory_taken [of "InAssignedResponse (v, i) (Some s)" acts cl j p] assms(2) run
    by (auto simp: given_def fair_node_def unanswered_run_def simp del: cluster_trace.simps)
  then have "{i} \<subseteq> {i. \<exists>env s es. acts j' = MemTakes p env
      \<and> queue (data_input (bh (nodes (cluster_trace acts cl j') p))) = InAssignedResponse (v, i) (Some s) # es}" by auto
  then have "gathered v {i} p (cluster_trace acts cl (Suc j'))"
    using gathered_step [OF run gathered_stays [OF run assms(3) j'(1)]] by (auto simp: gathered_def collected_def simp del: cluster_trace.simps)
  then show ?thesis by blast
qed

text \<open>The shards of a sufficient set are never all there.\<close>

lemma not_all_gathered:
  assumes run: "unanswered_run ft w content acts cl p v" and "finite got"
    and "\<And>i. i \<in> got \<Longrightarrow> \<exists>j. gathered v {i} p (cluster_trace acts cl j)" and "gathered v {} p (cluster_trace acts cl k)"
  shows "card got < unat (data_shards_sufficient (rs_wrapper_settings w))"
proof -
  have "\<exists>j. gathered v got p (cluster_trace acts cl j)"
    using assms(2,3)
  proof (induction got)
    case empty
    show ?case using assms(4) by blast
  next
    case (insert i got)
    then obtain j j' where "gathered v {i} p (cluster_trace acts cl j)" "gathered v got p (cluster_trace acts cl j')" by blast
    then have "gathered v ({i} \<union> got) p (cluster_trace acts cl (max j j'))"
      unfolding gathered_Un using gathered_stays [OF run] by (meson max.cobounded1 max.cobounded2)
    then show ?case by auto
  qed
  then obtain j dm shards where dm: "mem (nodes (cluster_trace acts cl j) p) = Inr dm"
    "fmlookup (currently_assembled dm) v = Some shards" "got \<subseteq> fmdom' shards"
    by (auto simp: gathered_def collected_def)
  have "mem_ok ft w content (Inr dm)" using unanswered_run_ok [OF run, of j] dm(1) by (metis cluster_ok_def node_ok_def)
  then have "hm_len shards < unat (data_shards_sufficient (rs_wrapper_settings w))"
    using dm(2) by (auto simp: mem_ok_def dm_faithful_def sufficient_shards_n_def)
  moreover have "card got \<le> hm_len shards"
    using card_mono [OF _ dm(3)] by (simp add: hm_len_def fcard.rep_eq fmdom'_alt_def)
  ultimately show ?thesis by simp
qed

text \<open>The data memory takes up the request: it takes its own shards and asks the others for theirs.\<close>

lemma recollection_starts:
  fixes cl :: "'ev cluster" and p :: PeerId and env :: dm_env
  defines "n \<equiv> nodes cl p" and "n' \<equiv> nodes (cluster_step (MemTakes p env) cl) p"
  assumes content: "\<And>v d. content v = Some d \<Longrightarrow> wf_data ft d" and reachable: "cluster_reachable ft w content cl"
    and allowed: "allowed ft w content (MemTakes p env)" and order: "hash_ordered (locations_order env)" and up: "mem_up n'"
    and dm: "mem n = Inr dm" "fmlookup (currently_assembled dm) v = None"
    and request: "queue (data_input (bh n)) = RecollectRequest v # es"
    and locs: "fmlookup (data_known_locations dm) v = Some locs" "sufficient_shards_n dm \<le> hm_len locs"
  shows "recollected v (set (queue (data_output (bh n'))))
      \<or> gathered v {i. fmlookup locs i = Some p \<and> get_shard (v, i) dm \<noteq> None} p (cluster_step (MemTakes p env) cl)"
    and "fmlookup locs i = Some q \<Longrightarrow> q \<noteq> p \<Longrightarrow> OutAssignedRequest (v, i) q \<in> set (queue (data_output (bh n')))"
proof -
  have env: "feature env = ft" "rs_wrapper w (shards_order env)" using allowed by simp_all
  then have mem: "content_memory w env content" using content by (simp add: content_memory_def content_memory_axioms_def)
  have "node_ok ft w content (request_of (net cl)) n" "local_id dm = p"
    using cluster_reachable_ok [OF reachable content] cluster_reachable_own [OF reachable, of p] dm(1)
    by (simp_all add: cluster_ok_def n_def own_memory_def)
  then have ok: "encoding dm = w" "conf_faithful (feature env) content (dm, open_sink)" "local_id dm = p"
    using dm(1) env(1) by (simp_all add: node_ok_def mem_ok_def)
  have entry: "(i, q) \<in> set (locations_order env locs) \<longleftrightarrow> fmlookup locs i = Some q" for i q
    using order hash_iteration.ord_lookup [of "locations_order env" locs] hash_iteration.ord_distinct [of "locations_order env" locs]
    by (metis hash_iteration.intro map_of_eq_Some_iff)
  obtain dm' c where m: "n' = n\<lparr>bh := push_data_output (sent c) ((bh n)\<lparr>data_input := (data_input (bh n))\<lparr>queue := es\<rparr>\<rparr>), mem := Inr dm'\<rparr>"
    "dm_event env (RecollectRequest v) (dm, open_sink) = (Dm_Continue, dm', c)"
    using mem_takes_up [OF _ dm(1) request, of env] up unfolding n_def n'_def by (auto simp: at_node_def)
  note starts = content_memory.recollect_collects [OF mem ok(1,2) dm(2) locs m(2)]
  show "recollected v (set (queue (data_output (bh n'))))
      \<or> gathered v {i. fmlookup locs i = Some p \<and> get_shard (v, i) dm \<noteq> None} p (cluster_step (MemTakes p env) cl)"
    using starts(1) unfolding gathered_def n'_def [symmetric] own_shards_def entry ok(3) m(1)
    by (auto simp: push_data_output_def recollected_def)
  show "OutAssignedRequest (v, i) q \<in> set (queue (data_output (bh n')))" if "fmlookup locs i = Some q" "q \<noteq> p"
    using starts(2) [of i q] that ok(3) by (simp add: m(1) push_data_output_def entry)
qed

text \<open>A shard that the memory asks its holder for comes in.\<close>

lemma asked_gathered:
  fixes cl :: "'ev cluster" and acts :: "nat \<Rightarrow> 'ev action"
  defines "tr \<equiv> cluster_trace acts cl"
  assumes run: "unanswered_run ft w content acts cl p v" and none: "gathered v {} p (tr k)"
    and asked: "OutAssignedRequest (v, i) q \<in> set (queue (data_output (bh (nodes (tr k) p))))"
    and holder: "holds_shard (v, i) (nodes cl q)" "OutAssignedResponse (v, i) None \<notin> set (queue (data_output (bh (nodes cl q))))"
      "fair_node acts cl q" "\<And>j. node_up q (tr j)"
    and net: "delivering acts cl"
  shows "\<exists>j. gathered v {i} p (tr j)"
proof -
  have p: "main_up (nodes (tr j) p)" "fair_node acts cl p" for j
    using run by (simp_all add: unanswered_run_def tr_def node_up_def)
  obtain j where j: "k \<le> j" "MakeRequest (GetShard (v, i)) q \<in> set (queue (rr_input (bh (nodes (tr j) p))))"
    using passed_on [of "OutAssignedRequest (v, i) q" acts cl k p] asked p
    by (auto simp: tr_def sent_on_def fair_node_def simp del: cluster_trace.simps)
  then obtain j' s where j': "j \<le> j'" "given (v, i) (Some s) (bh (nodes (tr j') p))"
    using request_given [of "(v, i)" q acts cl j p] holder p net by (auto simp: tr_def)
  have "gathered v {} p (tr j')"
    using gathered_stays [OF run none [unfolded tr_def], of j'] j(1) j'(1) by (simp add: tr_def)
  with j'(2) show ?thesis using given_gathered [OF run] by (auto simp: tr_def)
qed

text \<open>A recollection for which enough holders answer is answered.\<close>

lemma recollection_answered:
  fixes cl :: "'ev cluster" and acts :: "nat \<Rightarrow> 'ev action"
  defines "tr \<equiv> cluster_trace acts cl"
  assumes content: "\<And>v d. content v = Some d \<Longrightarrow> wf_data ft d" and reachable: "cluster_reachable ft w content cl"
    and allowed: "\<And>j. allowed ft w content (acts j)" and turn: "acts 0 = MemTakes p env" "hash_ordered (locations_order env)"
    and dm: "mem (nodes cl p) = Inr dm" "fmlookup (currently_assembled dm) v = None"
    and request: "queue (data_input (bh (nodes cl p))) = RecollectRequest v # es"
    and locs: "fmlookup (data_known_locations dm) v = Some locs"
    and enough: "S \<subseteq> fmdom' locs" "sufficient_shards_n dm \<le> card S"
    and holders: "\<And>i q. i \<in> S \<Longrightarrow> fmlookup locs i = Some q \<Longrightarrow> holds_shard (v, i) (nodes cl q)
      \<and> OutAssignedResponse (v, i) None \<notin> set (queue (data_output (bh (nodes cl q)))) \<and> fair_node acts cl q"
    and fair: "fair_node acts cl p" "delivering acts cl"
    and up: "\<And>j. node_up p (tr j)" "\<And>i q j. i \<in> S \<Longrightarrow> fmlookup locs i = Some q \<Longrightarrow> node_up q (tr j)"
  shows "\<exists>j. recollected v (set (queue (data_output (bh (nodes (tr j) p)))))"
proof (rule ccontr)
  assume never: "\<not> ?thesis"
  then have run: "unanswered_run ft w content acts cl p v"
    using content reachable allowed fair(1) up(1) by (auto simp: unanswered_run_def tr_def)
  have "card S \<le> hm_len locs" using card_mono [OF _ enough(1)] by (simp add: hm_len_def fcard.rep_eq fmdom'_alt_def)
  then have "sufficient_shards_n dm \<le> hm_len locs" using enough(2) by simp
  moreover have "mem_up (nodes (cluster_step (MemTakes p env) cl) p)" using up(1) [of 1] turn(1) by (simp add: tr_def node_up_def)
  moreover have "allowed ft w content (MemTakes p env)" using allowed [of 0] turn(1) by simp
  ultimately have starts: "recollected v (set (queue (data_output (bh (nodes (tr 1) p)))))
      \<or> gathered v {i. fmlookup locs i = Some p \<and> get_shard (v, i) dm \<noteq> None} p (tr 1)"
    "\<And>i q. fmlookup locs i = Some q \<Longrightarrow> q \<noteq> p \<Longrightarrow> OutAssignedRequest (v, i) q \<in> set (queue (data_output (bh (nodes (tr 1) p))))"
    using recollection_starts [of content ft w cl p env dm v es locs] content reachable turn dm request locs
    by (simp_all add: tr_def)
  then have first: "gathered v {i. fmlookup locs i = Some p \<and> get_shard (v, i) dm \<noteq> None} p (tr 1)" using never by blast
  then have none: "gathered v {} p (tr 1)" by (auto simp: gathered_def collected_def)
  have each: "\<exists>j. gathered v {i} p (tr j)" if i: "i \<in> S" for i
  proof -
    obtain q where q: "fmlookup locs i = Some q" using i enough(1) by (meson fmlookup_dom'_iff subsetD)
    show ?thesis
    proof (cases "q = p")
      case True
      then have "get_shard (v, i) dm \<noteq> None" using holders [OF i q] dm(1) by (simp add: holds_shard_def)
      with first q True have "gathered v {i} p (tr 1)" by (auto simp: gathered_def collected_def)
      then show ?thesis by blast
    next
      case False
      show ?thesis
        using asked_gathered [OF run, of 1 i q] none starts(2) [OF q False] holders [OF i q] up(2) [OF i q] fair(2)
        by (simp add: tr_def)
    qed
  qed
  have "finite S" using enough(1) finite_fmdom' finite_subset by blast
  moreover have "cluster_ok ft w content cl" using reachable content by (rule cluster_reachable_ok)
  then have "node_ok ft w content (request_of (net cl)) (nodes cl p)" by (simp add: cluster_ok_def)
  then have "encoding dm = w" using dm(1) by (simp add: node_ok_def mem_ok_def)
  ultimately show False
    using not_all_gathered [OF run, of S 1] none each enough(2) by (auto simp: tr_def sufficient_shards_n_def simp del: cluster_trace.simps)
qed

text \<open>What waits for a user is what was put.\<close>

lemma cluster_shows_content:
  assumes "\<And>v d. content v = Some d \<Longrightarrow> wf_data ft d" and "cluster_reachable ft w content cl"
    and "GetResponse (Inr (v, d)) \<in> set (queue (user_output (bh (nodes cl p))))"
  shows "content v = Some d"
proof -
  have "node_ok ft w content (request_of (net cl)) (nodes cl p)"
    using cluster_reachable_ok [OF assms(2,1)] by (simp add: cluster_ok_def)
  then show ?thesis using assms(3) by (auto simp: node_ok_def traffic_ok_def list_all_iff)
qed

subsection \<open>An example run\<close>

text \<open>Two turns before the run of a single request: node 1 is about to take up the request of its user.\<close>

definition wanting :: "unit cluster" where
  "wanting = cluster_run (take 48 example_actions) (cluster_start parity_wrapper)"

definition taken_up :: "unit action list" where
  "taken_up = [MemTakes 1 memory_env, BhPoll 1 quiet_env]"

definition delayed :: "'ev action list \<Rightarrow> (nat \<Rightarrow> 'ev action) \<Rightarrow> nat \<Rightarrow> 'ev action" where
  "delayed as acts j = (if j < length as then as ! j else acts (j - length as))"

lemma delayed_trace: "cluster_trace (delayed as acts) cl (length as + j) = cluster_trace acts (cluster_run as cl) j"
proof (induction j)
  case 0
  have "cluster_trace (delayed as acts) cl (length as) = cluster_run (take (length as) as) cl"
    by (rule trace_prefix) (simp_all add: delayed_def)
  then show ?case by simp
next
  case (Suc j)
  have "delayed as acts (length as + j) = acts j" by (simp add: delayed_def)
  with Suc show ?case by simp
qed

lemma delayed_later: "length as \<le> j \<Longrightarrow> cluster_trace (delayed as acts) cl j = cluster_trace acts (cluster_run as cl) (j - length as)"
  using delayed_trace [of as acts cl "j - length as"] by simp

lemma delayed_often:
  assumes "often P" and "\<And>j. P j \<Longrightarrow> Q (length as + j)"
  shows "often Q"
  unfolding often_def
proof
  fix i
  from assms(1) obtain j where "i \<le> j" "P j" by (auto simp: often_def)
  with assms(2) show "\<exists>j\<ge>i. Q j" by (meson le_add2 order_trans)
qed

lemma delayed_fair:
  assumes "fair_node acts (cluster_run as cl) p"
  shows "fair_node (delayed as acts) cl p"
proof -
  have same: "delayed as acts (length as + j) = acts j" for j by (simp add: delayed_def)
  have "often (full_poll (delayed as acts) cl p)"
    by (rule delayed_often [of "full_poll acts (cluster_run as cl) p" _ as])
      (use assms in \<open>auto simp: fair_node_def full_poll_def same delayed_trace\<close>)
  moreover have "often (\<lambda>j. delayed as acts j = MainTakes p)"
    by (rule delayed_often [of "\<lambda>j. acts j = MainTakes p" _ as]) (use assms in \<open>auto simp: fair_node_def same\<close>)
  moreover have "often (\<lambda>j. \<exists>env. delayed as acts j = MemTakes p env)"
    by (rule delayed_often [of "\<lambda>j. \<exists>env. acts j = MemTakes p env" _ as]) (use assms in \<open>auto simp: fair_node_def same\<close>)
  ultimately show ?thesis by (simp add: fair_node_def)
qed

lemma delayed_delivering:
  assumes "delivering acts (cluster_run as cl)"
    and "\<And>j. j \<le> length as \<Longrightarrow> length (requests (net (cluster_run (take j as) cl))) = length (requests (net cl))
      \<and> length (responses (net (cluster_run (take j as) cl))) = length (responses (net cl))"
  shows "delivering (delayed as acts) cl"
proof -
  let ?tr = "cluster_trace (delayed as acts) cl"
  have pre: "?tr j = cluster_run (take j as) cl" if "j \<le> length as" for j
    using that by (intro trace_prefix) (simp_all add: delayed_def)
  have early: "length as \<le> j" if "length (requests (net (?tr j))) < length (requests (net (?tr (Suc j))))
      \<or> length (responses (net (?tr j))) < length (responses (net (?tr (Suc j))))" for j
  proof (rule ccontr)
    assume "\<not> length as \<le> j"
    with that show False using assms(2) [of j] assms(2) [of "Suc j"] pre [of j] pre [of "Suc j"] by (simp del: cluster_trace.simps)
  qed
  have later: "\<exists>j'>j. delayed as acts j' = a" if "length as \<le> j" "\<exists>j'>j - length as. acts j' = a" for j a
  proof -
    from that obtain j' where "j - length as < j'" "acts j' = a" by blast
    then show ?thesis using that(1) by (intro exI [of _ "length as + j'"]) (auto simp: delayed_def)
  qed
  have tr: "?tr j = cluster_trace acts (cluster_run as cl) (j - length as)"
    "?tr (Suc j) = cluster_trace acts (cluster_run as cl) (Suc (j - length as))" if "length as \<le> j" for j
    using delayed_later [OF that, of acts cl] delayed_later [of as "Suc j" acts cl] that by (simp_all add: Suc_diff_le del: cluster_trace.simps)
  have "\<exists>j'>j. delayed as acts j' = DeliverRequest (length (requests (net (?tr j))))"
    if "length (requests (net (?tr j))) < length (requests (net (?tr (Suc j))))" for j
  proof -
    have l: "length as \<le> j" using early that by blast
    show ?thesis using that unfolding tr [OF l] by (intro later [OF l] message_delivered(1) [OF assms(1)])
  qed
  moreover have "\<exists>j'>j. delayed as acts j' = DeliverResponse (length (responses (net (?tr j))))"
    if "length (responses (net (?tr j))) < length (responses (net (?tr (Suc j))))" for j
  proof -
    have l: "length as \<le> j" using early that by blast
    show ?thesis using that unfolding tr [OF l] by (intro later [OF l] message_delivered(2) [OF assms(1)])
  qed
  ultimately show ?thesis unfolding delivering_def by blast
qed

lemma wanting_asking: "cluster_run taken_up wanting = asking"
proof -
  have "take 50 example_actions = take 48 example_actions @ taken_up" by (simp add: taken_up_def)
  then show ?thesis unfolding asking_def wanting_def cluster_run_def by (simp only: fold_append comp_apply)
qed

lemma wanting_seen: "observed (\<lambda>cl. (sightings cl, mem_up (nodes cl 1))) taken_up wanting = replicate 3 ((1, 1, True), True)"
  by code_simp

lemma way_up: "observed (\<lambda>cl. mem_up (nodes cl 1)) on_way asking = replicate 15 True"
  by code_simp

lemma wanting_request:
  "queue (data_input (bh (nodes wanting 1))) = [RecollectRequest (Vid 7)] \<and> queue (data_output (bh (nodes wanting 1))) = []
   \<and> queue (data_output (bh (nodes wanting 2))) = []"
  by code_simp

lemma wanting_memory:
  "case mem (nodes wanting 1) of Inl _ \<Rightarrow> False
   | Inr dm \<Rightarrow> fmlookup (currently_assembled dm) (Vid 7) = None \<and> sufficient_shards_n dm = 2 \<and> get_shard (Vid 7, Sid 0) dm \<noteq> None
       \<and> (case fmlookup (data_known_locations dm) (Vid 7) of None \<Rightarrow> False
          | Some locs \<Rightarrow> fmlookup locs (Sid 0) = Some 1 \<and> fmlookup locs (Sid 1) = Some 2)"
  by code_simp

lemma wanting_holder: "case mem (nodes wanting 2) of Inl _ \<Rightarrow> False | Inr dm \<Rightarrow> get_shard (Vid 7, Sid 1) dm \<noteq> None"
  by code_simp

lemma taken_up_seen:
  assumes "j \<le> length taken_up"
  shows "sightings (cluster_run (take j taken_up) wanting) = (1, 1, True)" "mem_up (nodes (cluster_run (take j taken_up) wanting) 1)"
proof -
  have "j < 3" using assms by (simp add: taken_up_def)
  then have "observed (\<lambda>cl. (sightings cl, mem_up (nodes cl 1))) taken_up wanting ! j = ((1, 1, True), True)"
    unfolding wanting_seen by simp
  then show "sightings (cluster_run (take j taken_up) wanting) = (1, 1, True)" "mem_up (nodes (cluster_run (take j taken_up) wanting) 1)"
    using observed_nth [of j taken_up "\<lambda>cl. (sightings cl, mem_up (nodes cl 1))" wanting, OF assms] by simp_all
qed

abbreviation retrieval :: "nat \<Rightarrow> unit action" where
  "retrieval \<equiv> delayed taken_up schedule"

lemma retrieval_up: "node_up 1 (cluster_trace retrieval wanting j) \<and> node_up 2 (cluster_trace retrieval wanting j)"
proof (cases "length taken_up \<le> j")
  case True
  have "mem_up (nodes (cluster_trace schedule asking i) 1)" for i
  proof (cases "i \<le> 14")
    case True
    then show ?thesis
      using observed_nth [of i on_way "\<lambda>cl. mem_up (nodes cl 1)" asking] way_up schedule_prefix [OF True]
      by (simp add: schedule_lengths)
  next
    case False
    then show ?thesis
      using observed_nth [of 14 on_way "\<lambda>cl. mem_up (nodes cl 1)" asking] way_up schedule_rests [of i]
      by (simp add: schedule_lengths)
  qed
  with schedule_seen [of "j - length taken_up"] show ?thesis
    unfolding delayed_later [OF True] wanting_asking by (simp add: sightings_def node_up_def)
next
  case False
  then have "cluster_trace retrieval wanting j = cluster_run (take j taken_up) wanting"
    by (intro trace_prefix) (simp_all add: delayed_def)
  then show ?thesis using taken_up_seen [of j] False by (simp add: sightings_def node_up_def)
qed

lemma retrieval_fair: "fair_node retrieval wanting 1" "fair_node retrieval wanting 2" "delivering retrieval wanting"
proof -
  show "fair_node retrieval wanting 1" "fair_node retrieval wanting 2"
    using delayed_fair [of schedule taken_up wanting] schedule_fair unfolding wanting_asking by blast+
  have "delivering schedule (cluster_run taken_up wanting)" unfolding wanting_asking by (rule schedule_delivers)
  then show "delivering retrieval wanting"
    by (rule delayed_delivering) (use taken_up_seen(1) taken_up_seen(1) [of 0] in \<open>simp_all add: sightings_def cluster_run_def\<close>)
qed

subsection \<open>Properties\<close>



end
