(* ===== verification/Spec2Isabelle.thy ===== *)
theory Spec2Isabelle
  imports Swarm_Distribution Swarm_Cluster Swarm_Codec Swarm_Reports Swarm_Progress Swarm_Computation Swarm_Lifecycle Swarm_Retrieval
begin

text \<open>
  \<^bold>\<open>A verification of the swarm computer.\<close> The program (Rust, \<open>src/src\<close>) makes a group of peers one
  computer: data units are erasure-coded into shards, each peer stores and processes the shards of
  one index, programs are ordered by a hash graph and executed by every peer on its shards, and any
  sufficient set of shards gives the data back.

  \<^bold>\<open>The parts and how they interact.\<close> A node is a set of tasks joined by bounded channels
  (\<open>module.rs\<close>). The main behaviour (\<open>behaviour/\<close>) is polled by the libp2p swarm and moves events
  between all others: the user (\<open>ui.rs\<close>, \<open>io/\<close>), the consensus (\<open>consensus/\<close>), the data memory
  (\<open>data_memory/\<close>), the instruction memory (\<open>instruction_storage/\<close>), the processor (\<open>processor/\<close>) and
  the request-response protocol (\<open>protocol/\<close>, \<open>request_response.rs\<close>), whose server is the event loop of
  \<open>main.rs\<close>. Processor and data memory also share a memory bus of their own. \<open>network.rs\<close> builds all
  this, \<open>signatures.rs\<close> signs the events of the graph.

  \<^bold>\<open>Theories and sources.\<close>
  \<^item> \<open>Swarm_Prelude\<close>: results of code that may fail or panic (\<open>outcome\<close>), hash maps and sets as finite
    maps and sets with an unspecified iteration order (locale \<open>hash_iteration\<close>), channels a task sends to
    (\<open>sink\<close>), word lemmas.
  \<^item> \<open>Swarm_Types\<close>: \<open>types.rs\<close>. Identifiers, shards, data units, hashes; the three builds are \<open>array_feature\<close>.
  \<^item> \<open>Swarm_Encoding\<close>: \<open>encoding/\<close>. The trait is the locale \<open>data_encoding\<close>; \<open>rs_wrapper_encode\<close> and
    \<open>rs_wrapper_decode\<close> are proved to be an instance (any sufficient part decodes), so is the mock.
  \<^item> \<open>Swarm_Module\<close>: \<open>module.rs\<close>. Bounded channels as first-in-first-out queues, the shared state cell.
  \<^item> \<open>Swarm_Program\<close>: \<open>processor/mod.rs\<close>, \<open>processor/instruction.rs\<close>.
  \<^item> \<open>Swarm_Processor\<close>: \<open>processor/single_threaded.rs\<close>, \<open>processor/mock.rs\<close>. Execution with prefetching
    over a bus (locale \<open>memory_bus\<close>) equals direct interpretation; linear programs commute with taking
    shards; NAND does not on the parity shards of any code with the laws of the crate.
  \<^item> \<open>Swarm_Instruction_Storage\<close>: \<open>instruction_storage/mod.rs\<close>, refined against a specification over the
    sets of reporting peers.
  \<^item> \<open>Swarm_Data_Memory\<close>: \<open>data_memory/mod.rs\<close>, both loops. \<open>Swarm_Recollection\<close>: recollection gives only true
    data (locale \<open>content_memory\<close>) and gives it exactly once. \<open>Swarm_Distribution\<close>: what is served, when a
    distribution is reported, which one is accepted, what stops the memory.
  \<^item> \<open>Swarm_Memory_Bus\<close>: the data memory behind the bus is an interpretation of \<open>memory_bus\<close>.
  \<^item> \<open>Swarm_Consensus\<close>: \<open>consensus/\<close>. Scheduling and the stream of transactions over an abstract graph
    (locales \<open>event_source\<close>, \<open>graph_events\<close>).
  \<^item> \<open>Swarm_Timing\<close>: \<open>behaviour/gossip_timer.rs\<close>, \<open>behaviour/metrics.rs\<close>. Over real numbers, so what is said of the bounds
    of the timeout is a lemma of the model and not a property of the floating-point code.
  \<^item> \<open>Swarm_Protocol\<close>, \<open>Swarm_Codec\<close>: \<open>protocol/\<close>, \<open>request_response.rs\<close>. Messages, and codecs over any stream
    with the laws of length-prefixed framing (locale \<open>framed_stream\<close>).
  \<^item> \<open>Swarm_Behaviour\<close>: \<open>behaviour/mod.rs\<close>, \<open>behaviour/handlers.rs\<close>. The whole poll, section by section. The
    loops over channels are instances of the locales \<open>event_loop\<close> and \<open>event_route\<close> (\<open>Swarm_Routing\<close>), from
    which follows what reaches whom in which order. \<open>Swarm_Contract\<close>: Hoare triples over the steps of a
    poll, with one postcondition for going on and one for returning; the locales \<open>poll_contract\<close> (what every
    handler owes), \<open>local_invariant\<close>, \<open>open_invariant\<close> (invariants that do not depend on the environment) and
    \<open>poll_steps\<close> (what may be sent to whom) give the invariants of a whole poll. \<open>Swarm_Poll\<close>: no poll panics, and polls that keep the swarm busy come to an end.
  \<^item> \<open>Swarm_Signatures\<close>: \<open>signatures.rs\<close>. \<open>Swarm_Ui\<close>: \<open>ui.rs\<close>, \<open>io/mod.rs\<close>. \<open>Swarm_Logging\<close>: \<open>logging_helpers.rs\<close>,
    \<open>configure_logs\<close>, the texts of hashes. \<open>Swarm_Main\<close>: \<open>network.rs\<close>, \<open>main.rs\<close>.
  \<^item> \<open>Swarm_Lifecycle\<close>: the tasks of one node from \<open>main\<close> to its end, with the shutdown token and the handles
    that \<open>main\<close> waits for (locales \<open>cancellable_task\<close>, \<open>steady_task\<close>): leaving the terminal ends the node when the tasks see the
    token; a node without a terminal never ends.
  \<^item> \<open>Swarm_Traffic\<close>, \<open>Swarm_Cluster\<close>: several nodes and the network between them as a transition system;
    in every reachable state users, who put one value under each id, have been given only true data and no node has gone down.
  \<^item> \<open>Swarm_Temporal\<close>: progress along infinite runs under fairness. \<open>Swarm_Service\<close>: what a poll does for a request for
    a shard, at the node that asks and at the holder. \<open>Swarm_Answers\<close>, \<open>Swarm_Delivery\<close>: along fair runs of the
    cluster the request goes from station to station and the shard comes back. \<open>Swarm_Retrieval\<close>: along such runs a
    recollection whose shards are stored gathers enough of them, and the user is given the data.
  \<^item> \<open>Swarm_Execution\<close>: the way of a program through behaviour, instruction memory and processor of every
    peer, with the consensus known by what \<open>consensus/graph.rs\<close> documents: peers agree on the programs of
    one commander, not on those of two. \<open>Swarm_Reports\<close>: a program that users are told to be finished has
    been executed by enough peers. \<open>Swarm_Progress\<close>: under fair turns every recognized program is executed.
    \<open>Swarm_Computation\<close>: the shards the peers hold after these programs are those of the data that the
    programs compute on the whole.
  \<^item> This theory: the computation of the whole swarm, and the initialization of the storage from the known
    peers.

  \<^bold>\<open>Parameters.\<close> Code outside the repository is an argument of the definitions that use it, and what is
  relied on is a named hypothesis or locale: the erasure-coding crate (\<open>rs_code\<close>: the code is
  systematic, linear, and any sufficient part reconstructs; instance: exclusive or), the hash graph
  (\<open>graph_events\<close>), Blake2b and bincode (\<open>hash_library\<close>, \<open>bincode\<close>), the iteration orders of hash maps,
  the clock and the random choice (\<open>bh_env\<close>), the swarm of libp2p (\<open>swarm_ops\<close>), files, JSON, the terminal
  library, keys. Every such hypothesis has an instance in the development.

  \<^bold>\<open>Choices of the model.\<close>
  \<^item> Hash maps are finite maps; every iteration goes through an order that is a parameter, so the
    theorems hold for all orders. Where the result depends on the order, the order is in the statement.
  \<^item> A task is a function that takes the branch \<open>select!\<close> picked and returns the new state, what was sent,
    and how the iteration ended; all choices of \<open>select!\<close> are covered because the list of branches is
    arbitrary. Sends of tasks wait for room and fail only when the receiver is gone (\<open>sink\<close>, which may
    close after any number of sends). The poll of the behaviour, which cannot wait, uses bounded
    channels and their capacity.
  \<^item> A poll is atomic: other tasks run between polls. That the lock of the processor's state is taken is
    one choice per poll.
  \<^item> The only loop whose end is not evident, \<open>next_tx\<close>, is a \<open>partial_function\<close>; that it returns is proved
    for every graph that has finitely many events. All others are total; no fuel is used.
  \<^item> Machine integers are words (\<open>u64\<close>, \<open>u8\<close>); whether arithmetic is checked (debug builds) is a parameter
    where it matters. Times and plots are real instead of floating-point numbers.
  \<^item> In \<open>Swarm_Cluster\<close> consensus, instruction memory and processor may say anything; the network may
    delay, lose and repeat but does not forge. Writes of the processor to the data memory, which change
    the data under an id, are not part of it.
  \<^item> In \<open>Swarm_Execution\<close> the consensus of a peer takes the scheduled transactions into events, whose
    transactions it may lose (as \<open>apply_sync\<close> does) and deliver with any hash (as \<open>next_tx\<close> does), and recognizes
    the transactions of each author in the order of his events; the orders of different authors are
    free. Data memory and network may say anything. A turn of the processor is atomic for the behaviour,
    but the state cell may change at any time. For \<open>swarm_computes\<close> a program starts when the writes of
    the last one are taken (otherwise \<open>stale_read\<close> applies) and only programs change the stored shards.
  \<^item> The log line of a recognized transaction is modelled as far as it can panic; the level and the
    formats are parameters.

  \<^bold>\<open>Not modelled.\<close> \<open>behaviour/old.rs\<close> (not part of the build), \<open>instruction_storage/traits.rs\<close> (traits
  that nothing implements), the declarations of the other traits (their implementations are modelled), the construction of
  connection handlers and the derived combined behaviour (libp2p), the help texts of the terminal, the
  \<open>Debug\<close> and \<open>Display\<close> output besides the texts of errors, of hashes and the short text of a transaction, and the tests.

  \<^bold>\<open>Limits.\<close> Storage (\<open>Swarm_Cluster\<close>) and execution (\<open>Swarm_Execution\<close>) are two transition systems over the same
  definitions of the tasks: in the first the content under an id is fixed, in the second the data memory is reached over the bus
  only. What remains unmapped of the code that is built are trait declarations, imports, derived instances and tests.
\<close>

text \<open>C1: the computer the peers form computes what its programs say. Let every peer hold its shards of a
  store of data units, let all programs come from one peer, use the linear operations and succeed on
  the whole data. Then in every state that the swarm can reach by steps in which every memory has taken the writes of
  a program before its processor starts the next one, and nothing but programs changes the shards, however users, consensus,
  behaviours, instruction memories and processors interleave: any sufficient set of shards that peers
  hold under an id after the first \<open>k\<close> programs decodes to the data unit that these programs, run one after the other on the whole data,
  leave under that id.\<close>

theorem swarm_computes:
  fixes cl :: "('ev, bus_world) computer" and sid :: "PeerId \<Rightarrow> Sid"
  assumes reach: "computer_reachable H (settled_first w) (computer_start thr (\<lambda>p. dm_bus (envs p)) mems) cl"
    and crate: "rs_wrapper w ord" and wf: "wf_store ft store"
    and commander: "\<And>q h ins. (h, ExecuteTx ins) \<in> set (chain cl q) \<Longrightarrow> q = c"
    and good: "good_programs (inner w) store (programs H (map (Pair c) (chain cl c)))"
    and members: "\<And>p. p \<in> members \<Longrightarrow> hash_ordered (shards_order (envs p))
        \<and> unat (sid_raw (sid p)) < total_shard_count w \<and> holds_shards ft w (sid p) store (mems p)"
    and data: "fmlookup (store_after (inner w) (take k (programs H (map (Pair c) (chain cl c)))) store) v = Some d"
    and part: "2 \<le> hm_len part"
      "\<And>i s. fmlookup part i = Some s \<Longrightarrow> \<exists>p \<in> members. sid p = i \<and> length (executed (peers cl p)) = k
        \<and> get_shard (v, i) (settled (pmem (peers cl p))) = Some s"
  shows "rs_wrapper_decode ft ord w part = Ok d"
proof (rule rs_wrapper.faithful_part [OF crate _ _ part(1)])
  let ?store = "store_after (inner w) (take k (programs H (map (Pair c) (chain cl c)))) store"
  have shard: "get_shard (v, sid p) (settled (pmem (peers cl p))) = shard_view ft w (sid p) ?store v" "wf_store ft ?store"
    if "p \<in> members" "length (executed (peers cl p)) = k" for p v
    by (rule computed_shard [OF reach _ crate wf good _ _ _ that(2)]; use commander members [OF that(1)] in blast)+
  have "part \<noteq> fmempty" using part(1) by auto
  then obtain i s where "fmlookup part i = Some s" by (metis fmap_ext fmempty_lookup not_None_eq)
  then obtain p where "p \<in> members" "length (executed (peers cl p)) = k" using part(2) by blast
  then show "wf_data ft d" using shard(2) data unfolding wf_store_def by blast
  show "shard_of ft w i d = Some s" if "fmlookup part i = Some s" for i s
    using part(2) [OF that] shard(1) [of _ v] data by (auto simp: shard_view_def)
qed

text \<open>Three peers that hold the shards of two data units.\<close>

abbreviation example_store :: "(Vid, Data) HashMap" where
  "example_store \<equiv> fmap_of_list [(Vid 1, example_data), (Vid 2, Data [1, 1, 1, 1, 9, 9, 9, 9])]"

abbreviation example_program :: Instructions where
  "example_program \<equiv> [instr_plus (Vid 1) (Vid 2) (Vid 3), instr_sub (Vid 3) (Vid 1) (Vid 1)]"

definition example_peer :: "Sid \<Rightarrow> bus_world" where
  "example_peer i =
     \<lparr>bus_memory = (example_memory (Suc (unat (sid_raw i))))\<lparr>local_storage :=
        fmap_of_list (map (\<lambda>(v, d). (v, fmap_of_list [(i, the (shard_of Default_Array parity_wrapper i d))]))
          [(Vid 1, example_data), (Vid 2, Data [1, 1, 1, 1, 9, 9, 9, 9])])\<rparr>,
      bus_writes = [], bus_schedule = []\<rparr>"

lemma example_peer_ok:
  assumes "unat (sid_raw i) < total_shard_count parity_wrapper"
  shows "bus_idle (example_peer i) \<and> assigned_shard_id (bus_memory (example_peer i)) = Some i
    \<and> (\<forall>v. get_shard (v, i) (bus_memory (example_peer i))
           = shard_view Default_Array parity_wrapper i example_store v)"
proof -
  obtain x where x: "i = Sid x" by (cases i)
  have "x = of_nat (unat x)" by simp
  moreover have "unat x \<in> {0, 1, 2}" using assms by (auto simp: total_shard_count_def x)
  ultimately have "x \<in> of_nat ` {0, 1, 2}" by (rule image_eqI)
  then have i: "i = Sid 0 \<or> i = Sid 1 \<or> i = Sid 2" by (simp add: x)
  have a: "assigned_shard_id (bus_memory (example_peer i)) = Some i"
    using i by (elim disjE) (simp_all add: example_peer_def assigned_shard_id_def initialize_def)
  then have "bus_idle (example_peer i)"
    by (auto simp: bus_idle_def bus_up_def only_assigned_def) (auto simp: example_peer_def split: if_splits)
  moreover have "shard_of Default_Array parity_wrapper i d = Some (the (shard_of Default_Array parity_wrapper i d))"
    if "d \<in> {example_data, Data [1, 1, 1, 1, 9, 9, 9, 9]}" for d
    using that parity_code.shard_of_index [of Default_Array d i] assms
    by (auto simp: wf_data_def data_len_eq)
  then have "get_shard (v, i) (bus_memory (example_peer i))
      = shard_view Default_Array parity_wrapper i example_store v" for v
    by (simp add: example_peer_def get_shard_def hm_get2_def shard_view_def)
  ultimately show ?thesis using a by blast
qed

abbreviation example_sid :: "PeerId \<Rightarrow> Sid" where
  "example_sid p \<equiv> Sid (of_nat (p - 1))"

abbreviation start_three :: "(unit, bus_world) computer" where
  "start_three \<equiv> computer_start 2 (\<lambda>p. dm_bus (sorted_env Default_Array)) (\<lambda>p. example_peer (example_sid p))"

abbreviation compute_actions :: "(PeerId \<times> (unit, bus_world) event) list" where
  "compute_actions \<equiv> command 1 1 example_program @ concat (map (\<lambda>p. (p, RecognizeNext 1) # turns p) [1, 2, 3])"

definition computed :: "(unit, bus_world) computer" where
  "computed = computer_run compute_actions start_three"

abbreviation example_part :: "(Sid, Shard) HashMap" where
  "example_part \<equiv> fmap_of_list [(Sid 0, Shard [0, 3, 2, 5]), (Sid 2, Shard [12, 12, 12, 4])]"

lemma computed_reachable: "computer_reachable (hashing quiet_env) (settled_first parity_wrapper) start_three computed"
  unfolding computed_def
proof (rule settled_run_reachable [OF computer_reachable.start])
  show "list_all (\<lambda>(p, e). possible (hashing quiet_env) e \<and> ordered_turn parity_wrapper e) compute_actions"
    by (simp add: sorted_exec_ordered)
  show "writes_taken compute_actions start_three" by code_simp
qed

lemma computed_commander: "(h, ExecuteTx ins) \<in> set (chain computed q) \<Longrightarrow> q = 1"
proof (rule ccontr)
  assume q: "(h, ExecuteTx ins) \<in> set (chain computed q)" "q \<noteq> 1"
  have "list_all (\<lambda>p. List.null (chain computed p)) [2, 3]" by code_simp
  then have "chain computed q = []" if "q \<in> {2, 3}" using that by (auto simp: List.null_iff)
  moreover have "chain computed q = []" if "q \<notin> {1, 2, 3}"
    using chain_others [of q compute_actions start_three] that by (simp add: computed_def computer_start_def)
  ultimately have "chain computed q = []" using q(2) by blast
  with q(1) show False by simp
qed

lemma example_peer_holds:
  assumes "p \<in> {1, 2, 3}"
  shows "unat (sid_raw (example_sid p)) < total_shard_count parity_wrapper
    \<and> holds_shards Default_Array parity_wrapper (example_sid p) example_store (example_peer (example_sid p))"
proof -
  have n: "unat (sid_raw (example_sid p)) < total_shard_count parity_wrapper"
    using assms by (auto simp: total_shard_count_def)
  then show ?thesis using example_peer_ok [OF n]
    by (auto simp: holds_shards_def bus_idle_def bus_assigned_def settled_def)
qed

theorem swarm_computes_witness:
  "rs_wrapper_decode Default_Array sorted_list_of_fmap parity_wrapper example_part = Ok (Data [0, 3, 2, 5, 12, 15, 14, 1])"
proof (rule swarm_computes [OF computed_reachable parity_crate, of Default_Array example_store 1 "{1, 2, 3}" example_sid 1 "Vid 3"])
  show "fmlookup (store_after (inner parity_wrapper) (take 1 (programs (hashing quiet_env) (map (Pair 1) (chain computed 1))))
      example_store) (Vid 3) = Some (Data [0, 3, 2, 5, 12, 15, 14, 1])" by code_simp
  show "good_programs (inner parity_wrapper) example_store (programs (hashing quiet_env) (map (Pair 1) (chain computed 1)))"
    by code_simp
  have "list_all (\<lambda>(p, s). get_shard (Vid 3, example_sid p) (settled (pmem (peers computed p))) = Some s
      \<and> length (executed (peers computed p)) = 1) [(1, Shard [0, 3, 2, 5]), (3, Shard [12, 12, 12, 4])]" by code_simp
  then show "\<exists>p \<in> {1, 2, 3}. example_sid p = i \<and> length (executed (peers computed p)) = 1
      \<and> get_shard (Vid 3, i) (settled (pmem (peers computed p))) = Some s" if "fmlookup example_part i = Some s" for i s
    using that by (auto split: if_splits)
qed (use computed_commander example_peer_holds in \<open>auto simp: wf_store_def wf_data_def data_len_eq sorted_hash_ordered
    hm_len_upd split: if_splits\<close>)

text \<open>The distribution that a node proposes: the known peers, each with a shard id of its own.\<close>

lemma known_distribution_ids:
  fixes peers :: "PeerId list"
  assumes "env_ok env" and "fcard (fset_of_list peers |\<union>| conn) \<le> 2 ^ 64"
  defines "d \<equiv> hm_collect (known_distribution env peers conn)"
    and "n \<equiv> fcard (fset_of_list peers |\<union>| conn)"
  shows "fmdom' d = set peers \<union> fset conn" "fmran' d = (\<lambda>i. Sid (of_nat i)) ` {..<n}"
    "fmlookup d p = Some s \<Longrightarrow> fmlookup d q = Some s \<Longrightarrow> p = q"
proof -
  let ?ps = "peers_order env (fset_of_list peers |\<union>| conn)"
  let ?xs = "known_distribution env peers conn"
  have ps: "distinct ?ps" "set ?ps = set peers \<union> fset conn"
    using assms(1) by (auto simp: env_ok_def fset_of_list.rep_eq)
  have n: "n = length ?ps"
    using ps by (metis assms(4) distinct_card fcard.rep_eq fset_of_list.rep_eq union_fset)
  have fst: "map fst ?xs = ?ps"
    by (simp add: known_distribution_def comp_def case_prod_beta)
  then have look: "fmlookup d = map_of ?xs" using ps(1) unfolding assms(3) by (simp add: hm_collect_distinct)
  have nth: "length ?xs = n" "i < n \<Longrightarrow> ?xs ! i = (?ps ! i, Sid (of_nat i))" for i
    by (simp_all add: known_distribution_def n nth_enumerate_eq)
  have some: "fmlookup d q = Some s \<longleftrightarrow> (\<exists>i<n. q = ?ps ! i \<and> s = Sid (of_nat i))" for q s
    using nth by (auto simp: look map_of_eq_Some_iff [of ?xs] fst ps(1) in_set_conv_nth)
  show "fmdom' d = set peers \<union> fset conn"
    unfolding assms(3) hm_collect_dom using fst ps(2) by (metis list.set_map)
  show "fmran' d = (\<lambda>i. Sid (of_nat i)) ` {..<n}"
    using some by (auto simp: fmlookup_ran'_iff)
  have inj: "i = j" if "Sid (of_nat i) = Sid (of_nat j)" "i < n" "j < n" for i j
  proof -
    have "i < 2 ^ 64" "j < 2 ^ 64" using that(2,3) assms(2) by (simp_all add: assms(4))
    with that(1) show ?thesis by (metis Sid.inject unat_of_nat_u64)
  qed
  show "fmlookup d p = Some s \<Longrightarrow> fmlookup d q = Some s \<Longrightarrow> p = q"
    unfolding some using inj by blast
qed

text \<open>C7: storage initialization across components. When the peers a node knows, from the graph and
  its connections, are as many as the encoding has shards, the transaction that this node
  schedules is accepted by every memory that still waits for it, and gives each of these peers a
  shard id of its own; with any other number of peers no memory accepts it.\<close>

theorem storage_initialization:
  fixes peers :: "PeerId list"
  assumes "env_ok env" and "on_consensus_event env (KnownPeersResponse peers) b = (None, b')"
    and "fcard (fset_of_list peers |\<union>| connected_peers b) \<le> 2 ^ 64"
    and "total_shard_count (un_encoding un) < 2 ^ 64" and "closes_after c = None"
  shows "\<exists>distr. queue (consensus_input b') = queue (consensus_input b) @ [ScheduleTx (InitializeStorage distr)]
    \<and> (if fcard (fset_of_list peers |\<union>| connected_peers b) = total_shard_count (un_encoding un)
       then \<exists>dm. un_run_step (DmInput (Some (Initialize distr))) un c
            = (UnInit dm, c\<lparr>sent := sent c @ [DmInitialized]\<rparr>)
          \<and> fmdom' (distribution dm) = set peers \<union> fset (connected_peers b)
          \<and> (\<forall>p q s. fmlookup (distribution dm) p = Some s \<longrightarrow> fmlookup (distribution dm) q = Some s \<longrightarrow> p = q)
       else un_run_step (DmInput (Some (Initialize distr))) un c = (UnContinue, c))"
proof -
  let ?distr = "known_distribution env peers (connected_peers b)"
  let ?n = "fcard (fset_of_list peers |\<union>| connected_peers b)" and ?t = "total_shard_count (un_encoding un)"
  note ids = known_distribution_ids [OF assms(1,3)]
  have q: "queue (consensus_input b') = queue (consensus_input b) @ [ScheduleTx (InitializeStorage ?distr)]"
    using assms(2) schedule_and_hurry_gains unfolding gains_def on_consensus_event.simps by blast
  have inj: "inj_on (\<lambda>i. Sid (of_nat i)) {..<2 ^ 64}"
    by (rule inj_onI) (metis Sid.inject lessThan_iff unat_of_nat_u64)
  have "(\<lambda>i. Sid (of_nat i)) ` {..<?n} = (\<lambda>i. Sid (of_nat i)) ` {..<?t} \<longleftrightarrow> {..<?n} = {..<?t}"
    by (rule inj_on_image_eq_iff [OF inj]) (use assms(3,4) in auto)
  also have "\<dots> \<longleftrightarrow> ?n = ?t" using lessThan_eq_iff by blast
  finally have "verify_distribution un (hm_collect ?distr) \<longleftrightarrow> ?n = ?t"
    by (simp add: verify_distribution_iff [OF assms(4)] ids(2))
  with q assms(5) ids(1,3) show ?thesis
    by (intro exI [of _ ?distr]) (auto simp: sink_simps initialize_def)
qed

theorem storage_initialization_witness:
  "\<exists>b' distr dm. on_consensus_event example_env (KnownPeersResponse [1, 2, 3]) example_behaviour = (None, b')
    \<and> queue (consensus_input b') = [ScheduleTx (InitializeStorage distr)]
    \<and> un_run_step (DmInput (Some (Initialize distr))) \<lparr>un_encoding = parity_wrapper, un_local_id = 1\<rparr> open_sink
        = (UnInit dm, \<lparr>sent = [DmInitialized], closes_after = None\<rparr>)
    \<and> fmdom' (distribution dm) = {1, 2, 3}"
proof -
  let ?un = "\<lparr>un_encoding = parity_wrapper, un_local_id = 1 :: PeerId\<rparr>"
  obtain b' where b': "on_consensus_event example_env (KnownPeersResponse [1, 2, 3]) example_behaviour = (None, b')"
    by (auto simp: and_then_def Behaviour_new_def must_send_def poll_send_def schedule_and_hurry_def hurry_gossip_def
        note_queue_size_def module_channels_new_def mpsc_channel_def DynamicTimer_new_def next_duration_def
        start_next_def Let_def)
  have t: "total_shard_count (un_encoding ?un) = 3" by (simp add: total_shard_count_def)
  have c: "connected_peers example_behaviour = {||}" "queue (consensus_input example_behaviour) = []"
    by (simp_all add: Behaviour_new_def module_channels_new_def mpsc_channel_def)
  have n: "fcard (fset_of_list [1, 2, 3 :: PeerId] |\<union>| {||}) = 3"
    by (simp add: fcard_finsert_if)
  show ?thesis
    using storage_initialization [OF example_env_ok b', of ?un open_sink, unfolded c n t] b' by auto
qed

end
